(* ===== verification/Ruft_Prelude.thy ===== *)
theory Ruft_Prelude
  imports Main "HOL-Library.Word"
begin

text \<open>
  The vocabulary every component of the development shares.

  \<^item> Machine integers of the source: \<open>u8\<close>, \<open>u32\<close>, \<open>u64\<close>, \<open>u128\<close> and \<open>usize\<close> (a
    64-bit target) are words, so every wrap-around is the type's own;
    \<open>checked_add\<close>, \<open>saturating_add\<close> and \<open>saturating_sub\<close> are Rust's operations.
  \<^item> \<open>result\<close> is Rust's \<open>Result\<close> with one more outcome, \<open>Panic\<close>, for a failed
    \<open>expect\<close>, an out-of-range slice or an underflowing subtraction.
  \<^item> \<open>exec\<close> is a function with \<open>&mut self\<close> and an early return: the state is
    returned with an error too, because what was mutated before a \<open>?\<close> stays
    mutated.
  \<^item> \<open>btree_map\<close> is \<open>BTreeMap\<close>: an association list in key order. Its interface
    is the locale \<open>ordered_map\<close>.
\<close>

named_theorems exec_simps \<open>evaluation of the execution combinators\<close>
named_theorems keeps_intros \<open>operations that stay inside a state relation\<close>

section \<open>Machine integers\<close>

type_synonym u8 = "8 word"
type_synonym u32 = "32 word"
type_synonym u64 = "64 word"
type_synonym u128 = "128 word"
type_synonym usize = "64 word"

definition checked_add :: "u64 \<Rightarrow> u64 \<Rightarrow> u64 option" where
  "checked_add a b = (if unat a + unat b < 2 ^ 64 then Some (a + b) else None)"

definition saturating_add :: "u64 \<Rightarrow> u64 \<Rightarrow> u64" where
  "saturating_add a b = (if unat a + unat b < 2 ^ 64 then a + b else - 1)"

definition saturating_sub :: "u64 \<Rightarrow> u64 \<Rightarrow> u64" where
  "saturating_sub a b = (if a < b then 0 else a - b)"

text \<open>\<open>usize::try_from\<close> of a \<open>u64\<close>: it never fails on a 64-bit target, and the
  result is used as an offset into a vector.\<close>

definition usize_try_from :: "u64 \<Rightarrow> nat option" where
  "usize_try_from x = Some (unat x)"

text \<open>\<open>u64::try_from\<close> of a vector's length.\<close>

definition u64_try_from :: "nat \<Rightarrow> u64 option" where
  "u64_try_from n = (if n < 2 ^ 64 then Some (of_nat n) else None)"

lemma u64_bound: "unat (x :: u64) < 2 ^ 64"
  using unsigned_less [of x] by simp

lemma u64_minus_one: "unat (- 1 :: u64) = 2 ^ 64 - 1"
  by (simp add: unsigned_minus_1_eq_mask mask_eq_exp_minus_1)

lemma u64_less_iff: "(a :: u64) < b \<longleftrightarrow> unat a < unat b"
  by (rule word_less_nat_alt)

lemma u64_le_iff: "(a :: u64) \<le> b \<longleftrightarrow> unat a \<le> unat b"
  by (rule word_le_nat_alt)

lemma u64_eq_iff: "(a :: u64) = b \<longleftrightarrow> unat a = unat b"
  by (rule word_unat_eq_iff)

lemma unat_add_u64: "unat a + unat b < 2 ^ 64 \<Longrightarrow> unat (a + b :: u64) = unat a + unat b"
  by (simp add: unat_word_ariths)

lemma unat_sub_u64: "b \<le> a \<Longrightarrow> unat (a - b :: u64) = unat a - unat b"
  by (rule unat_sub)

lemma unat_of_nat_u64: "n < 2 ^ 64 \<Longrightarrow> unat (of_nat n :: u64) = n"
  by (simp add: unat_of_nat take_bit_nat_eq_self_iff)

lemma checked_add_Some_iff:
  "checked_add a b = Some c \<longleftrightarrow> unat c = unat a + unat b"
proof -
  have "unat c = unat a + unat b \<Longrightarrow> unat a + unat b < 2 ^ 64 \<and> a + b = c"
    using u64_bound [of c] by (simp add: u64_eq_iff unat_add_u64)
  moreover have "unat a + unat b < 2 ^ 64 \<Longrightarrow> unat (a + b) = unat a + unat b"
    by (rule unat_add_u64)
  ultimately show ?thesis by (auto simp: checked_add_def)
qed

lemma checked_add_None_iff: "checked_add a b = None \<longleftrightarrow> 2 ^ 64 \<le> unat a + unat b"
  by (simp add: checked_add_def not_less)

lemma unat_saturating_sub: "unat (saturating_sub a b) = unat a - unat b"
  by (simp add: saturating_sub_def u64_less_iff unat_sub_u64 u64_le_iff)

lemma unat_saturating_add: "unat (saturating_add a b) = min (unat a + unat b) (2 ^ 64 - 1)"
  by (auto simp: saturating_add_def unat_add_u64 u64_minus_one min_def)

section \<open>Results and panics\<close>

datatype ('a, 'e) result = Ok 'a | Err 'e | Panic

fun rbind :: "('a, 'e) result \<Rightarrow> ('a \<Rightarrow> ('b, 'e) result) \<Rightarrow> ('b, 'e) result" where
  "rbind (Ok x) f = f x"
| "rbind (Err e) f = Err e"
| "rbind Panic f = Panic"

fun map_err :: "('e \<Rightarrow> 'f) \<Rightarrow> ('a, 'e) result \<Rightarrow> ('a, 'f) result" where
  "map_err g (Ok x) = Ok x"
| "map_err g (Err e) = Err (g e)"
| "map_err g Panic = Panic"

text \<open>\<open>expect\<close> on an option and on a result: a panic in place of the error.\<close>

definition expect_some :: "'a option \<Rightarrow> ('a, 'e) result" where
  "expect_some x = (case x of None \<Rightarrow> Panic | Some y \<Rightarrow> Ok y)"

definition expect_ok :: "('a, 'f) result \<Rightarrow> ('a, 'e) result" where
  "expect_ok r = (case r of Ok x \<Rightarrow> Ok x | Err _ \<Rightarrow> Panic | Panic \<Rightarrow> Panic)"

definition ok_or :: "'a option \<Rightarrow> 'e \<Rightarrow> ('a, 'e) result" where
  "ok_or x e = (case x of None \<Rightarrow> Err e | Some y \<Rightarrow> Ok y)"

definition is_ok :: "('a, 'e) result \<Rightarrow> bool" where
  "is_ok r = (case r of Ok _ \<Rightarrow> True | _ \<Rightarrow> False)"

lemma is_ok_simps [simp]: "is_ok (Ok x)" "\<not> is_ok (Err e)" "\<not> is_ok Panic"
  by (simp_all add: is_ok_def)

lemma rbind_Ok_iff: "rbind r f = Ok y \<longleftrightarrow> (\<exists>x. r = Ok x \<and> f x = Ok y)"
  by (cases r) auto

lemma rbind_Err_iff: "rbind r f = Err e \<longleftrightarrow> r = Err e \<or> (\<exists>x. r = Ok x \<and> f x = Err e)"
  by (cases r) auto

lemma rbind_Panic_iff: "rbind r f = Panic \<longleftrightarrow> r = Panic \<or> (\<exists>x. r = Ok x \<and> f x = Panic)"
  by (cases r) auto

lemma map_err_Ok_iff [simp]: "map_err g r = Ok x \<longleftrightarrow> r = Ok x"
  by (cases r) auto

lemma map_err_Err_iff: "map_err g r = Err f \<longleftrightarrow> (\<exists>e. r = Err e \<and> f = g e)"
  by (cases r) auto

lemma map_err_Panic_iff [simp]: "map_err g r = Panic \<longleftrightarrow> r = Panic"
  by (cases r) auto

lemma expect_ok_simps [simp]:
  "expect_ok (Ok x) = Ok x" "expect_ok (Err e) = Panic" "expect_ok Panic = Panic"
  by (simp_all add: expect_ok_def)

lemma expect_some_simps [simp]: "expect_some (Some x) = Ok x" "expect_some None = Panic"
  by (simp_all add: expect_some_def)

lemma ok_or_simps [simp]: "ok_or (Some x) e = Ok x" "ok_or None e = Err e"
  by (simp_all add: ok_or_def)

lemma ok_or_iff [simp]: "ok_or x e = Ok y \<longleftrightarrow> x = Some y" "ok_or x e = Err f \<longleftrightarrow> x = None \<and> f = e"
    "ok_or x e \<noteq> Panic"
  by (auto simp: ok_or_def split: option.splits)

lemma expect_iff [simp]: "expect_some x = Ok y \<longleftrightarrow> x = Some y" "expect_some x \<noteq> Err e"
    "expect_ok r = Ok z \<longleftrightarrow> r = Ok z" "expect_ok r \<noteq> Err e"
  by (auto simp: expect_some_def expect_ok_def split: option.splits result.splits)

section \<open>Execution of a method on mutable state\<close>

type_synonym ('s, 'a, 'e) exec = "'s \<Rightarrow> ('a, 'e) result \<times> 's"

definition ret :: "'a \<Rightarrow> ('s, 'a, 'e) exec" where
  "ret x = (\<lambda>s. (Ok x, s))"

definition throw :: "'e \<Rightarrow> ('s, 'a, 'e) exec" where
  "throw e = (\<lambda>s. (Err e, s))"

definition bnd :: "('s, 'a, 'e) exec \<Rightarrow> ('a \<Rightarrow> ('s, 'b, 'e) exec) \<Rightarrow> ('s, 'b, 'e) exec" where
  "bnd m f = (\<lambda>s. case m s of (Ok x, s') \<Rightarrow> f x s' | (Err e, s') \<Rightarrow> (Err e, s')
                            | (Panic, s') \<Rightarrow> (Panic, s'))"

definition andThen :: "('s, 'a, 'e) exec \<Rightarrow> ('s, 'b, 'e) exec \<Rightarrow> ('s, 'b, 'e) exec" where
  "andThen m k = bnd m (\<lambda>_. k)"

definition gets :: "('s \<Rightarrow> 'a) \<Rightarrow> ('s, 'a, 'e) exec" where
  "gets f = (\<lambda>s. (Ok (f s), s))"

definition modify :: "('s \<Rightarrow> 's) \<Rightarrow> ('s, unit, 'e) exec" where
  "modify f = (\<lambda>s. (Ok (), f s))"

definition lift_res :: "('a, 'e) result \<Rightarrow> ('s, 'a, 'e) exec" where
  "lift_res r = (\<lambda>s. (r, s))"

text \<open>A \<open>for\<close> loop whose body may return early.\<close>

fun for_each :: "'x list \<Rightarrow> ('x \<Rightarrow> ('s, unit, 'e) exec) \<Rightarrow> ('s, unit, 'e) exec" where
  "for_each [] f = ret ()"
| "for_each (x # xs) f = andThen (f x) (for_each xs f)"

lemma exec_eval [exec_simps]:
  "ret x s = (Ok x, s)" "throw e s = (Err e, s)" "gets g s = (Ok (g s), s)"
  "modify h s = (Ok (), h s)" "lift_res r s = (r, s)"
  by (simp_all add: ret_def throw_def gets_def modify_def lift_res_def)

lemma bnd_eval [exec_simps]:
  "bnd m f s = (case m s of (Ok x, s') \<Rightarrow> f x s' | (Err e, s') \<Rightarrow> (Err e, s')
                          | (Panic, s') \<Rightarrow> (Panic, s'))"
  "andThen m k s = (case m s of (Ok x, s') \<Rightarrow> k s' | (Err e, s') \<Rightarrow> (Err e, s')
                          | (Panic, s') \<Rightarrow> (Panic, s'))"
  by (simp_all add: bnd_def andThen_def)

text \<open>A sequence of statements, each of which may return early.\<close>

fun block :: "('s, unit, 'e) exec list \<Rightarrow> ('s, unit, 'e) exec" where
  "block [] = ret ()"
| "block (m # ms) = andThen m (block ms)"

text \<open>
  \<open>post m s Q\<close>: the outcome of \<open>m\<close> from \<open>s\<close>, whichever it is, satisfies \<open>Q\<close>. It
  distributes over the combinators, so a method is reasoned about statement by
  statement, with the facts its guards give.
\<close>

definition post :: "('s, 'a, 'e) exec \<Rightarrow> 's \<Rightarrow> (('a, 'e) result \<Rightarrow> 's \<Rightarrow> bool) \<Rightarrow> bool" where
  "post m s Q \<longleftrightarrow> Q (fst (m s)) (snd (m s))"

definition chain :: "('a \<Rightarrow> ('s, 'b, 'e) exec) \<Rightarrow> (('b, 'e) result \<Rightarrow> 's \<Rightarrow> bool) \<Rightarrow>
    ('a, 'e) result \<Rightarrow> 's \<Rightarrow> bool" where
  "chain f Q r s = (case r of Ok x \<Rightarrow> post (f x) s Q | Err e \<Rightarrow> Q (Err e) s | Panic \<Rightarrow> Q Panic s)"

named_theorems post_simps \<open>postconditions of the execution combinators\<close>

lemma chain_simps [post_simps]:
  "chain f Q (Ok x) s = post (f x) s Q" "chain f Q (Err e) s = Q (Err e) s" "chain f Q Panic s = Q Panic s"
  by (simp_all add: chain_def)

lemma post_pure [post_simps]:
  "post (ret x) s Q = Q (Ok x) s" "post (throw e) s T = T (Err e) s"
  "post (gets g) s G = G (Ok (g s)) s" "post (modify h) s U = U (Ok ()) (h s)"
  "post (lift_res r) s L = L r s"
  by (simp_all add: post_def exec_simps)

lemma post_bnd [post_simps]:
  "post (bnd m f) s Q = post m s (chain f Q)"
  "post (andThen m' k) s Q' = post m' s (chain (\<lambda>_. k) Q')"
  by (cases "m s"; cases "fst (m s)"; auto simp: post_def chain_def exec_simps)
     (cases "m' s"; cases "fst (m' s)"; auto simp: post_def chain_def exec_simps)

lemma post_block [post_simps]:
  "post (block []) s Q = Q (Ok ()) s"
  "post (block (m # ms)) s Q = post m s (chain (\<lambda>_. block ms) Q)"
  by (simp_all add: post_simps)

lemma post_if [post_simps]:
  "post (if b then m else k) s Q = (if b then post m s Q else post k s Q)"
  by simp

lemma post_weaken: "post m s P \<Longrightarrow> (\<And>r t. P r t \<Longrightarrow> Q r t) \<Longrightarrow> post m s Q"
  by (simp add: post_def)

lemma postD: "post m s Q \<Longrightarrow> m s = (r, t) \<Longrightarrow> Q r t"
  by (simp add: post_def)

lemma chain_iff: "chain f Q r s \<longleftrightarrow>
   (\<forall>x. r = Ok x \<longrightarrow> post (f x) s Q) \<and> (\<forall>e. r = Err e \<longrightarrow> Q (Err e) s) \<and> (r = Panic \<longrightarrow> Q Panic s)"
  by (cases r) (auto simp: chain_def)

lemma chain_ret [post_simps]: "chain ret P = P"
proof (intro ext)
  show "chain ret P r s = P r s" for r s by (cases r) (simp_all add: post_simps)
qed

lemma chain_weaken:
  assumes "chain f P r s" "\<And>r t. P r t \<Longrightarrow> Q r t"
  shows "chain f Q r s"
  using assms by (cases r) (auto simp: post_simps intro: post_weaken)

text \<open>
  Most of what is shown of the protocol core is that every path of a method,
  the failing ones included, stays inside a relation between the state before
  and the state after: a counter only grows, a field is not touched. The
  relation is reflexive and transitive, and then every combinator stays inside
  it when its parts do.
\<close>

definition keeps :: "('s \<Rightarrow> 's \<Rightarrow> bool) \<Rightarrow> ('s, 'a, 'e) exec \<Rightarrow> bool" where
  "keeps R m \<longleftrightarrow> (\<forall>s. R s (snd (m s)))"

lemma keeps_post: "keeps R m \<longleftrightarrow> (\<forall>s. post m s (\<lambda>_ t. R s t))"
  by (simp add: keeps_def post_def)

lemma keepsD: "keeps R m \<Longrightarrow> m s = (r, s') \<Longrightarrow> R s s'"
  unfolding keeps_def by (metis snd_conv)

lemma keeps_at: "keeps R m \<Longrightarrow> R s (snd (m s))"
  by (simp only: keeps_def)

locale state_relation =
  fixes R :: "'s \<Rightarrow> 's \<Rightarrow> bool"
  assumes rel_refl: "R s s"
    and rel_trans: "R s t \<Longrightarrow> R t u \<Longrightarrow> R s u"
begin

lemma keeps_pure [keeps_intros]:
  "keeps R (ret x)" "keeps R (throw e)" "keeps R (gets g)" "keeps R (lift_res r)"
  by (simp_all add: keeps_def exec_simps rel_refl)

lemma keeps_bnd [keeps_intros]:
  assumes m: "keeps R m" and f: "\<And>x. keeps R (f x)"
  shows "keeps R (bnd m f)"
  unfolding keeps_def
proof
  fix s
  obtain r s' where eq: "m s = (r, s')" by (cases "m s")
  have step: "R s s'" using m eq by (rule keepsD)
  have "R s' (snd (f x s'))" for x using f [of x] by (simp add: keeps_def)
  then show "R s (snd (bnd m f s))"
    using step by (cases r) (auto simp: exec_simps eq intro: rel_trans)
qed

lemma keeps_andThen [keeps_intros]: "keeps R m \<Longrightarrow> keeps R k \<Longrightarrow> keeps R (andThen m k)"
  unfolding andThen_def by (rule keeps_bnd)

lemma keeps_if [keeps_intros]:
  "(b \<Longrightarrow> keeps R m) \<Longrightarrow> (\<not> b \<Longrightarrow> keeps R k) \<Longrightarrow> keeps R (if b then m else k)"
  by simp

lemma keeps_option [keeps_intros]:
  "keeps R n \<Longrightarrow> (\<And>x. keeps R (f x)) \<Longrightarrow> keeps R (case x of None \<Rightarrow> n | Some y \<Rightarrow> f y)"
  by (cases x) auto

lemma keeps_for_each [keeps_intros]:
  "(\<And>x. keeps R (f x)) \<Longrightarrow> keeps R (for_each xs f)"
  by (induction xs) (auto intro: keeps_pure keeps_andThen)

lemma keeps_block [keeps_intros]: "list_all (keeps R) ms \<Longrightarrow> keeps R (block ms)"
  by (induction ms) (auto intro: keeps_pure keeps_andThen)

lemma post_keeps: "keeps R m \<Longrightarrow> R s t \<Longrightarrow> post m t (\<lambda>_ u. R s u)"
  unfolding keeps_post post_def by (blast intro: rel_trans)

text \<open>What was established before a statement that stays inside the relation,
  and everything that follows it does too.\<close>

lemma chain_keeps: "(\<And>x. keeps R (f x)) \<Longrightarrow> R s t \<Longrightarrow> chain f (\<lambda>_ u. R s u) r t"
  by (cases r) (auto simp: chain_def intro: post_keeps)

lemma post_then:
  "keeps R m \<Longrightarrow> (\<And>x. keeps R (f x)) \<Longrightarrow> R s t \<Longrightarrow> post m t (chain f (\<lambda>_ u. R s u))"
  by (rule post_weaken [OF post_keeps]) (auto intro: chain_keeps)

lemma keeps_modify: "(\<And>s. R s (h s)) \<Longrightarrow> keeps R (modify h)"
  by (simp add: keeps_def exec_simps)

end

section \<open>Which errors a method returns\<close>

definition throws :: "('e \<Rightarrow> bool) \<Rightarrow> ('s, 'a, 'e) exec \<Rightarrow> bool" where
  "throws E m \<longleftrightarrow> (\<forall>s e. fst (m s) = Err e \<longrightarrow> E e)"

lemma throws_post: "throws E m \<Longrightarrow> post m s (\<lambda>r _. \<forall>e. r = Err e \<longrightarrow> E e)"
  unfolding throws_def post_def by blast

lemma throws_pure:
  "throws E (ret x)" "E e \<Longrightarrow> throws E (throw e)" "throws E (modify h)"
  by (simp_all add: throws_def exec_simps)

lemma throws_lift: "(\<And>e. r = Err e \<Longrightarrow> E e) \<Longrightarrow> throws E (lift_res r)"
  by (simp add: throws_def exec_simps)

lemma throws_bnd: "throws E m \<Longrightarrow> (\<And>x. throws E (f x)) \<Longrightarrow> throws E (bnd m f)"
  by (auto simp: throws_def exec_simps split: prod.splits result.splits) (metis fst_conv)+

lemma throws_andThen: "throws E m \<Longrightarrow> throws E k \<Longrightarrow> throws E (andThen m k)"
  unfolding andThen_def by (rule throws_bnd)

lemma throws_block: "list_all (throws E) ms \<Longrightarrow> throws E (block ms)"
  by (induction ms) (auto intro: throws_pure throws_andThen)

lemma throws_for_each: "(\<And>x. throws E (f x)) \<Longrightarrow> throws E (for_each xs f)"
  by (induction xs) (auto intro: throws_pure throws_andThen)

lemma throws_weaken: "throws E m \<Longrightarrow> (\<And>e. E e \<Longrightarrow> F e) \<Longrightarrow> throws F m"
  by (auto simp: throws_def)

end
