(* ===== verification/Ordered_Map.thy ===== *)
theory Ordered_Map
  imports Ruft_Prelude
begin

text \<open>
  \<open>BTreeMap\<close> as the core uses it: lookup, insertion that replaces, removal, and
  iteration in key order. The contract is the locale \<open>ordered_map\<close>; the model's
  maps are association lists in strictly ascending key order, and the
  interpretation \<open>bt\<close> discharges the contract for them.
\<close>

section \<open>The contract\<close>

locale ordered_map =
  fixes empty :: 'm
    and get :: "'m \<Rightarrow> 'k :: linorder \<Rightarrow> 'v option"
    and ins :: "'k \<Rightarrow> 'v \<Rightarrow> 'm \<Rightarrow> 'm"
    and del :: "'k \<Rightarrow> 'm \<Rightarrow> 'm"
    and keys :: "'m \<Rightarrow> 'k list"
    and inv :: "'m \<Rightarrow> bool"
  assumes get_empty: "get empty = (\<lambda>_. None)"
    and get_ins: "get (ins k v m) = (get m)(k := Some v)"
    and get_del: "get (del k m) = (get m)(k := None)"
    and keys_dom: "set (keys m) = dom (get m)"
    and keys_sorted: "inv m \<Longrightarrow> sorted_wrt (<) (keys m)"
    and inv_empty: "inv empty"
    and inv_ins: "inv m \<Longrightarrow> inv (ins k v m)"
    and inv_del: "inv m \<Longrightarrow> inv (del k m)"
begin

text \<open>Removing a list of keys one after the other, as the core's drain loops do.\<close>

lemma get_del_all: "get (fold del ks m) k = (if k \<in> set ks then None else get m k)"
  by (induction ks arbitrary: m) (auto simp: get_del)

lemma inv_del_all: "inv m \<Longrightarrow> inv (fold del ks m)"
  by (induction ks arbitrary: m) (auto simp: inv_del)

lemma keys_del_all: "set (keys (fold del ks m)) = set (keys m) - set ks"
  by (auto simp: keys_dom get_del_all split: if_splits)

lemma keys_ins: "set (keys (ins k v m)) = insert k (set (keys m))"
  by (auto simp: keys_dom get_ins split: if_splits)

lemma keys_distinct: "inv m \<Longrightarrow> distinct (keys m)"
  using keys_sorted by (auto dest: strict_sorted_iff [THEN iffD1])

lemma keys_unique:
  assumes "inv m" "inv n" "dom (get m) = dom (get n)"
  shows "keys m = keys n"
  using assms keys_sorted by (metis keys_dom strict_sorted_equal)

end

section \<open>Association lists in key order\<close>

type_synonym ('k, 'v) btree_map = "('k \<times> 'v) list"

definition bt_get :: "('k, 'v) btree_map \<Rightarrow> 'k \<Rightarrow> 'v option" where
  "bt_get m k = map_of m k"

fun bt_insert :: "'k :: linorder \<Rightarrow> 'v \<Rightarrow> ('k, 'v) btree_map \<Rightarrow> ('k, 'v) btree_map" where
  "bt_insert k v [] = [(k, v)]"
| "bt_insert k v ((a, w) # m) =
     (if k < a then (k, v) # (a, w) # m
      else if k = a then (k, v) # m
      else (a, w) # bt_insert k v m)"

definition bt_remove :: "'k \<Rightarrow> ('k, 'v) btree_map \<Rightarrow> ('k, 'v) btree_map" where
  "bt_remove k m = filter (\<lambda>p. fst p \<noteq> k) m"

definition bt_keys :: "('k, 'v) btree_map \<Rightarrow> 'k list" where
  "bt_keys m = map fst m"

definition bt_values :: "('k, 'v) btree_map \<Rightarrow> 'v list" where
  "bt_values m = map snd m"

definition bt_ordered :: "('k :: linorder, 'v) btree_map \<Rightarrow> bool" where
  "bt_ordered m \<longleftrightarrow> sorted_wrt (<) (map fst m)"

lemma bt_insert_keys: "set (map fst (bt_insert k v m)) = insert k (set (map fst m))"
  by (induction k v m rule: bt_insert.induct) auto

lemma bt_insert_ordered: "bt_ordered m \<Longrightarrow> bt_ordered (bt_insert k v m)"
proof (induction k v m rule: bt_insert.induct)
  case (2 k v a w m)
  then show ?case
    using bt_insert_keys [of k v m]
    by (auto simp: bt_ordered_def)
qed (simp add: bt_ordered_def)

lemma bt_insert_get: "map_of (bt_insert k v m) = (map_of m)(k := Some v)"
  by (induction k v m rule: bt_insert.induct) (auto simp: fun_eq_iff)

lemma bt_remove_get: "map_of (bt_remove k m) = (map_of m)(k := None)"
  unfolding bt_remove_def by (induction m) (auto simp: fun_eq_iff)

lemma bt_remove_ordered: "bt_ordered m \<Longrightarrow> bt_ordered (bt_remove k m)"
  unfolding bt_ordered_def bt_remove_def
  by (induction m) auto

interpretation bt: ordered_map
  "[] :: ('k :: linorder, 'v) btree_map" bt_get bt_insert bt_remove bt_keys bt_ordered
proof unfold_locales
  show "bt_get ([] :: ('k, 'v) btree_map) = (\<lambda>_. None)"
    by (simp add: bt_get_def fun_eq_iff)
  show "bt_get (bt_insert k v m) = (bt_get m)(k := Some v)"
    for k :: 'k and v :: 'v and m
    by (simp add: bt_get_def [abs_def] bt_insert_get)
  show "bt_get (bt_remove k m) = (bt_get m)(k := None)" for k :: 'k and m :: "('k, 'v) btree_map"
    by (simp add: bt_get_def [abs_def] bt_remove_get)
  show "set (bt_keys m) = dom (bt_get m)" for m :: "('k, 'v) btree_map"
    by (simp add: bt_keys_def bt_get_def [abs_def] dom_map_of_conv_image_fst)
  show "bt_ordered m \<Longrightarrow> sorted_wrt (<) (bt_keys m)" for m :: "('k, 'v) btree_map"
    by (simp add: bt_ordered_def bt_keys_def)
  show "bt_ordered ([] :: ('k, 'v) btree_map)"
    by (simp add: bt_ordered_def)
  show "bt_ordered m \<Longrightarrow> bt_ordered (bt_insert k v m)" for m :: "('k, 'v) btree_map" and k v
    by (rule bt_insert_ordered)
  show "bt_ordered m \<Longrightarrow> bt_ordered (bt_remove k m)" for m :: "('k, 'v) btree_map" and k
    by (rule bt_remove_ordered)
qed

lemmas bt_simps [simp] = bt.get_ins bt.get_del bt.get_empty

lemma bt_ordered_map_values: "bt_ordered (map (\<lambda>(k, v). (k, f v)) m) = bt_ordered m"
  by (simp add: bt_ordered_def comp_def split_beta)

lemmas bt_ordered_simps [simp] = bt.inv_empty bt.inv_ins bt.inv_del bt_ordered_map_values

lemma bt_length_keys [simp]: "length (bt_keys m) = length m" "length (bt_values m) = length m"
  by (simp_all add: bt_keys_def bt_values_def)

lemma bt_values_get: "v \<in> set (bt_values m) \<Longrightarrow> bt_ordered m \<Longrightarrow> \<exists>k. bt_get m k = Some v"
  by (auto simp: bt_values_def bt_get_def bt_ordered_def strict_sorted_iff
      intro!: map_of_is_SomeI)

text \<open>A key that is removed and inserted again with its value leaves the map as it was.\<close>

lemma bt_insert_front: "\<forall>p \<in> set m. k < fst p \<Longrightarrow> bt_insert k v m = (k, v) # m"
  by (cases m) auto

lemma bt_reinsert: "bt_ordered m \<Longrightarrow> bt_get m k = Some v \<Longrightarrow> bt_insert k v (bt_remove k m) = m"
proof (induction m)
  case (Cons p m)
  obtain a w where p: "p = (a, w)" by (cases p)
  have m: "bt_ordered m" "\<forall>q \<in> set m. a < fst q"
    using Cons.prems(1) by (auto simp: bt_ordered_def p)
  show ?case
  proof (cases "a = k")
    case True
    then have "bt_remove k m = m" using m(2) by (auto simp: bt_remove_def filter_id_conv)
    then show ?thesis using True Cons.prems(2) m(2) by (simp add: p bt_remove_def bt_get_def bt_insert_front)
  next
    case False
    then have get: "bt_get m k = Some v" using Cons.prems(2) by (simp add: p bt_get_def)
    then have "a < k" using m(2) by (auto simp: bt_get_def dest!: map_of_SomeD)
    then show ?thesis using False Cons.IH [OF m(1) get] by (simp add: p bt_remove_def)
  qed
qed (simp add: bt_get_def)

end
