(* ===== verification/Types.thy ===== *)
theory Types
  imports Ordered_Map
begin

text \<open>
  The foundation layer: identifiers and snapshot metadata of \<open>src/types.rs\<close>, and
  the error values of \<open>src/error.rs\<close> and \<open>src/recovery_error.rs\<close>. The source's
  newtypes over \<open>u64\<close> and \<open>u128\<close> are type synonyms here; their \<open>checked_next\<close> is
  one definition, since \<open>Term\<close> and \<open>LogIndex\<close> declare it alike.
\<close>

section \<open>Identifiers\<close>

type_synonym cluster_id = u128
type_synonym node_id = u64
type_synonym log_term = u64
type_synonym log_index = u64
type_synonym proposal_id = u64
type_synonym read_id = u64
type_synonym snapshot_id = u128
type_synonym snapshot_ref = "u8 list"
type_synonym snapshot_digest = "u8 list"

datatype arithmetic_error = Overflow

definition checked_next :: "u64 \<Rightarrow> (u64, arithmetic_error) result" where
  "checked_next x = ok_or (checked_add x 1) Overflow"

datatype effect_id = EffectId (generation: u64) (sequence: u64)

text \<open>The derived order of \<open>EffectId\<close>: generation first, then sequence.\<close>

instantiation effect_id :: linorder
begin

definition less_eq_effect_id :: "effect_id \<Rightarrow> effect_id \<Rightarrow> bool" where
  "less_eq_effect_id a b \<longleftrightarrow>
     generation a < generation b \<or> generation a = generation b \<and> sequence a \<le> sequence b"

definition less_effect_id :: "effect_id \<Rightarrow> effect_id \<Rightarrow> bool" where
  "less_effect_id a b \<longleftrightarrow>
     generation a < generation b \<or> generation a = generation b \<and> sequence a < sequence b"

instance
  by standard (auto simp: less_eq_effect_id_def less_effect_id_def effect_id.expand)

end

lemma checked_next_Ok_iff: "checked_next x = Ok y \<longleftrightarrow> unat y = unat x + 1"
  by (simp add: checked_next_def ok_or_def checked_add_Some_iff split: option.splits)
     (metis One_nat_def Suc_eq_plus1 checked_add_Some_iff option.distinct(1) option.inject unat_1)

lemma checked_next_Err_iff: "checked_next x = Err e \<longleftrightarrow> unat x = 2 ^ 64 - 1"
  using u64_bound [of x]
  by (auto simp: checked_next_def ok_or_def checked_add_def split: option.splits if_splits
      intro: arithmetic_error.exhaust)
     (metis (full_types) arithmetic_error.exhaust)

lemma checked_next_not_Panic [simp]: "checked_next x \<noteq> Panic"
  by (simp add: checked_next_def ok_or_def split: option.splits)

lemma checked_next_cases:
  obtains (Next) y where "checked_next x = Ok y" "unat y = unat x + 1"
  | (Over) "checked_next x = Err Overflow" "unat x = 2 ^ 64 - 1"
proof (cases "checked_next x")
  case (Ok y)
  then show ?thesis using Next by (simp add: checked_next_Ok_iff)
next
  case (Err e)
  then show ?thesis using Over by (cases e) (simp add: checked_next_Err_iff)
next
  case Panic
  then show ?thesis by simp
qed

lemma checked_next_less: "checked_next x = Ok y \<Longrightarrow> x < y"
  by (simp add: checked_next_Ok_iff u64_less_iff)

section \<open>Errors\<close>

datatype log_error =
    Compacted log_index log_index
  | Unavailable log_index log_index
  | InvalidRange log_index log_index
  | NonContiguousEntries log_index log_index
  | TermRegression log_index log_term log_term
  | WouldTruncateCommitted log_index log_index
  | SnapshotBoundaryMismatch log_index log_term log_term
  | CompactPastCommit log_index log_index
  | StablePastLog log_index log_index
  | IndexTooLarge log_index
  | IndexOverflow log_index

datatype entry_error = ZeroLogIndex | ZeroTerm | ZeroEncodedLength

datatype recovery_error =
    UnsupportedFormat u32 u32
  | LogGap log_index log_index
  | CommitBeforeSnapshot log_index log_index
  | RecoveryCommitPastLog log_index log_index
  | RecoveryTermRegression log_index log_term log_term
  | CurrentTermBehindLog log_term log_term
  | VotedForNonMember node_id
  | RecoveryIndexOverflow log_index

datatype invariant_violation =
    AppliedPastCommit
  | CommitPastLog
  | CommittedGap
  | CommitIndexMismatch
  | LastLogMismatch
  | ViolationIndexOverflow
  | ViolationLog log_error

datatype fatal_error = Storage | StateMachine | Invariant invariant_violation

datatype stopped_reason = StoppedShutdown | StoppedFatal fatal_error

datatype init_error =
    EmptyMembership
  | DuplicateMember node_id
  | LocalNodeNotMember node_id
  | TooManyMembers nat usize
  | InvalidElectionRange u64 u64
  | InvalidHeartbeatTicks u64 u64
  | InvalidCheckQuorumTicks u64 u64
  | ZeroCapacityLimit string
  | InvalidCapacityRelationship string usize string usize
  | InvalidSnapshotMetadata string

section \<open>Member sets\<close>

text \<open>
  \<open>SnapshotMetadata::new\<close> and \<open>ConfigBuilder::build\<close> insert the members one by
  one into a \<open>BTreeSet\<close> and stop at the first one that is already there. The
  accumulator is the set in iteration order.
\<close>

fun insert_members :: "node_id list \<Rightarrow> node_id list \<Rightarrow> (node_id list, node_id) result" where
  "insert_members [] acc = Ok acc"
| "insert_members (m # ms) acc =
     (if m \<in> set acc then Err m else insert_members ms (insort m acc))"

lemma insert_members_Ok_iff:
  assumes "sorted acc" "distinct acc"
  shows "insert_members ms acc = Ok r \<longleftrightarrow>
    distinct ms \<and> set ms \<inter> set acc = {} \<and> r = sorted_list_of_set (set acc \<union> set ms)"
  using assms
proof (induction ms arbitrary: acc)
  case Nil
  then show ?case by (auto simp: sorted_list_of_set_sort_remdups distinct_remdups_id sorted_sort_id)
next
  case (Cons m ms)
  have "sorted (insort m acc)" using Cons.prems by (simp add: sorted_insort)
  moreover have "m \<notin> set acc \<Longrightarrow> distinct (insort m acc)"
    using Cons.prems by (simp add: distinct_insort)
  ultimately show ?case
    using Cons.IH [of "insort m acc"] by (auto simp: set_insort_key)
qed

lemma insert_members_Err:
  "insert_members ms acc = Err m \<Longrightarrow>
     \<exists>xs ys. ms = xs @ m # ys \<and> m \<in> set acc \<union> set xs"
proof (induction ms arbitrary: acc)
  case (Cons a ms)
  show ?case
  proof (cases "a \<in> set acc")
    case True
    with Cons.prems show ?thesis by (intro exI [of _ "[]"] exI [of _ ms]) auto
  next
    case False
    with Cons obtain xs ys where "ms = xs @ m # ys" "m \<in> set (insort a acc) \<union> set xs"
      by fastforce
    then show ?thesis by (intro exI [of _ "a # xs"] exI [of _ ys]) (auto simp: set_insort_key)
  qed
qed simp

lemma insert_members_not_Panic [simp]: "insert_members ms acc \<noteq> Panic"
  by (induction ms arbitrary: acc) auto

section \<open>Snapshot metadata\<close>

record snapshot_metadata =
  snap_id :: snapshot_id
  last_included_index :: log_index
  last_included_term :: log_term
  snap_members :: "node_id list"
  snap_size :: u64
  snap_digest :: snapshot_digest

definition snapshot_metadata_new ::
  "snapshot_id \<Rightarrow> log_index \<Rightarrow> log_term \<Rightarrow> node_id list \<Rightarrow> u64 \<Rightarrow> snapshot_digest \<Rightarrow>
     (snapshot_metadata, init_error) result" where
  "snapshot_metadata_new i idx trm members sz dig =
     (if idx = 0 then
        Err (InvalidSnapshotMetadata ''last included index must be greater than zero'')
      else if trm = 0 then
        Err (InvalidSnapshotMetadata ''last included term must be greater than zero'')
      else if members = [] then
        Err (InvalidSnapshotMetadata ''snapshot membership must not be empty'')
      else case insert_members members [] of
        Ok unique \<Rightarrow> Ok \<lparr>snap_id = i, last_included_index = idx, last_included_term = trm,
                        snap_members = unique, snap_size = sz, snap_digest = dig\<rparr>
      | Err _ \<Rightarrow> Err (InvalidSnapshotMetadata ''snapshot membership contains a duplicate node'')
      | Panic \<Rightarrow> Panic)"

definition metadata_valid :: "snapshot_metadata \<Rightarrow> bool" where
  "metadata_valid m \<longleftrightarrow> last_included_index m \<noteq> 0 \<and> last_included_term m \<noteq> 0 \<and>
     snap_members m \<noteq> [] \<and> sorted_wrt (<) (snap_members m)"

lemma metadata_new_valid:
  "snapshot_metadata_new i idx trm members sz dig = Ok m \<Longrightarrow> metadata_valid m"
  by (auto simp: snapshot_metadata_new_def metadata_valid_def insert_members_Ok_iff
      split: if_splits result.splits)

end
