(* ===== verification/Config.thy ===== *)
theory Config
  imports Types
begin

text \<open>
  \<open>src/config.rs\<close>: the validated settings of one Raft group and the builder that
  checks them. Record fields carry the struct's name as a prefix (\<open>cfg_\<close>,
  \<open>b_\<close>). \<open>RangeInclusive\<close> is the pair
  of its two ends.
\<close>

record raft_config =
  cfg_cluster_id :: cluster_id
  cfg_local_id :: node_id
  cfg_members :: "node_id list"
  cfg_quorum :: nat
  cfg_heartbeat_ticks :: u64
  cfg_election_ticks :: "u64 \<times> u64"
  cfg_check_quorum_ticks :: u64
  cfg_random_seed :: u64
  cfg_generation :: u64
  cfg_max_unstable_bytes :: usize
  cfg_max_unapplied_entries :: usize
  cfg_snapshot_after_entries :: usize
  cfg_snapshot_after_bytes :: usize
  cfg_max_uncompacted_bytes :: usize
  cfg_max_entries_per_rpc :: usize
  cfg_max_bytes_per_rpc :: usize
  cfg_max_inflight_appends :: usize
  cfg_max_pending_reads :: usize
  cfg_snapshot_chunk_bytes :: usize
  cfg_max_snapshot_ref_bytes :: usize
  cfg_max_members :: usize
  cfg_completion_history :: usize

record config_builder =
  b_cluster_id :: cluster_id
  b_local_id :: node_id
  b_members :: "node_id list"
  b_heartbeat_ticks :: u64
  b_election_ticks :: "u64 \<times> u64"
  b_check_quorum_ticks :: u64
  b_random_seed :: u64
  b_generation :: u64
  b_max_unstable_bytes :: usize
  b_max_unapplied_entries :: usize
  b_snapshot_after_entries :: usize
  b_snapshot_after_bytes :: usize
  b_max_uncompacted_bytes :: usize
  b_max_entries_per_rpc :: usize
  b_max_bytes_per_rpc :: usize
  b_max_inflight_appends :: usize
  b_max_pending_reads :: usize
  b_snapshot_chunk_bytes :: usize
  b_max_snapshot_ref_bytes :: usize
  b_max_members :: usize
  b_completion_history :: usize

definition builder_new :: "node_id \<Rightarrow> node_id list \<Rightarrow> config_builder" where
  "builder_new lid ms =
    \<lparr>b_cluster_id = 0, b_local_id = lid, b_members = ms,
     b_heartbeat_ticks = 1, b_election_ticks = (10, 20), b_check_quorum_ticks = 10,
     b_random_seed = 0, b_generation = 0,
     b_max_unstable_bytes = 4 * 1024 * 1024,
     b_max_unapplied_entries = 16384,
     b_snapshot_after_entries = 10000,
     b_snapshot_after_bytes = 64 * 1024 * 1024,
     b_max_uncompacted_bytes = 256 * 1024 * 1024,
     b_max_entries_per_rpc = 256,
     b_max_bytes_per_rpc = 1024 * 1024,
     b_max_inflight_appends = 256,
     b_max_pending_reads = 4096,
     b_snapshot_chunk_bytes = 64 * 1024,
     b_max_snapshot_ref_bytes = 4 * 1024,
     b_max_members = 1024,
     b_completion_history = 8192\<rparr>"

text \<open>The setters of the macro \<open>builder_setters\<close>, one per field.\<close>

definition set_cluster_id :: "cluster_id \<Rightarrow> config_builder \<Rightarrow> config_builder" where
  "set_cluster_id v b = b\<lparr>b_cluster_id := v\<rparr>"

definition set_heartbeat_ticks :: "u64 \<Rightarrow> config_builder \<Rightarrow> config_builder" where
  "set_heartbeat_ticks v b = b\<lparr>b_heartbeat_ticks := v\<rparr>"

definition set_election_ticks :: "u64 \<times> u64 \<Rightarrow> config_builder \<Rightarrow> config_builder" where
  "set_election_ticks v b = b\<lparr>b_election_ticks := v\<rparr>"

definition set_check_quorum_ticks :: "u64 \<Rightarrow> config_builder \<Rightarrow> config_builder" where
  "set_check_quorum_ticks v b = b\<lparr>b_check_quorum_ticks := v\<rparr>"

definition set_random_seed :: "u64 \<Rightarrow> config_builder \<Rightarrow> config_builder" where
  "set_random_seed v b = b\<lparr>b_random_seed := v\<rparr>"

definition set_generation :: "u64 \<Rightarrow> config_builder \<Rightarrow> config_builder" where
  "set_generation v b = b\<lparr>b_generation := v\<rparr>"

definition set_max_unstable_bytes :: "usize \<Rightarrow> config_builder \<Rightarrow> config_builder" where
  "set_max_unstable_bytes v b = b\<lparr>b_max_unstable_bytes := v\<rparr>"

definition set_max_unapplied_entries :: "usize \<Rightarrow> config_builder \<Rightarrow> config_builder" where
  "set_max_unapplied_entries v b = b\<lparr>b_max_unapplied_entries := v\<rparr>"

definition set_snapshot_after_entries :: "usize \<Rightarrow> config_builder \<Rightarrow> config_builder" where
  "set_snapshot_after_entries v b = b\<lparr>b_snapshot_after_entries := v\<rparr>"

definition set_snapshot_after_bytes :: "usize \<Rightarrow> config_builder \<Rightarrow> config_builder" where
  "set_snapshot_after_bytes v b = b\<lparr>b_snapshot_after_bytes := v\<rparr>"

definition set_max_uncompacted_bytes :: "usize \<Rightarrow> config_builder \<Rightarrow> config_builder" where
  "set_max_uncompacted_bytes v b = b\<lparr>b_max_uncompacted_bytes := v\<rparr>"

definition set_max_entries_per_rpc :: "usize \<Rightarrow> config_builder \<Rightarrow> config_builder" where
  "set_max_entries_per_rpc v b = b\<lparr>b_max_entries_per_rpc := v\<rparr>"

definition set_max_bytes_per_rpc :: "usize \<Rightarrow> config_builder \<Rightarrow> config_builder" where
  "set_max_bytes_per_rpc v b = b\<lparr>b_max_bytes_per_rpc := v\<rparr>"

definition set_max_inflight_appends :: "usize \<Rightarrow> config_builder \<Rightarrow> config_builder" where
  "set_max_inflight_appends v b = b\<lparr>b_max_inflight_appends := v\<rparr>"

definition set_max_pending_reads :: "usize \<Rightarrow> config_builder \<Rightarrow> config_builder" where
  "set_max_pending_reads v b = b\<lparr>b_max_pending_reads := v\<rparr>"

definition set_snapshot_chunk_bytes :: "usize \<Rightarrow> config_builder \<Rightarrow> config_builder" where
  "set_snapshot_chunk_bytes v b = b\<lparr>b_snapshot_chunk_bytes := v\<rparr>"

definition set_max_snapshot_ref_bytes :: "usize \<Rightarrow> config_builder \<Rightarrow> config_builder" where
  "set_max_snapshot_ref_bytes v b = b\<lparr>b_max_snapshot_ref_bytes := v\<rparr>"

definition set_max_members :: "usize \<Rightarrow> config_builder \<Rightarrow> config_builder" where
  "set_max_members v b = b\<lparr>b_max_members := v\<rparr>"

definition set_completion_history :: "usize \<Rightarrow> config_builder \<Rightarrow> config_builder" where
  "set_completion_history v b = b\<lparr>b_completion_history := v\<rparr>"

lemmas builder_setters = set_cluster_id_def set_heartbeat_ticks_def set_election_ticks_def set_check_quorum_ticks_def set_random_seed_def set_generation_def set_max_unstable_bytes_def set_max_unapplied_entries_def set_snapshot_after_entries_def set_snapshot_after_bytes_def set_max_uncompacted_bytes_def set_max_entries_per_rpc_def set_max_bytes_per_rpc_def set_max_inflight_appends_def set_max_pending_reads_def set_snapshot_chunk_bytes_def set_max_snapshot_ref_bytes_def set_max_members_def set_completion_history_def

definition capacity_limits :: "config_builder \<Rightarrow> (string \<times> usize) list" where
  "capacity_limits b =
     [(''max_unstable_bytes'', b_max_unstable_bytes b),
      (''max_unapplied_entries'', b_max_unapplied_entries b),
      (''snapshot_after_entries'', b_snapshot_after_entries b),
      (''snapshot_after_bytes'', b_snapshot_after_bytes b),
      (''max_uncompacted_bytes'', b_max_uncompacted_bytes b),
      (''max_entries_per_rpc'', b_max_entries_per_rpc b),
      (''max_bytes_per_rpc'', b_max_bytes_per_rpc b),
      (''max_inflight_appends'', b_max_inflight_appends b),
      (''max_pending_reads'', b_max_pending_reads b),
      (''snapshot_chunk_bytes'', b_snapshot_chunk_bytes b),
      (''max_snapshot_ref_bytes'', b_max_snapshot_ref_bytes b),
      (''max_members'', b_max_members b),
      (''completion_history'', b_completion_history b)]"

fun check_capacities :: "(string \<times> usize) list \<Rightarrow> (unit, init_error) result" where
  "check_capacities [] = Ok ()"
| "check_capacities ((name, v) # rest) =
     (if v = 0 then Err (ZeroCapacityLimit name) else check_capacities rest)"

definition ensure_at_least ::
  "string \<Rightarrow> usize \<Rightarrow> string \<Rightarrow> usize \<Rightarrow> (unit, init_error) result" where
  "ensure_at_least limit v required_at_least minimum =
     (if v < minimum then Err (InvalidCapacityRelationship limit v required_at_least minimum)
      else Ok ())"

definition build :: "config_builder \<Rightarrow> (raft_config, init_error) result" where
  "build b =
    (if b_members b = [] then Err EmptyMembership
     else rbind (check_capacities (capacity_limits b)) (\<lambda>_.
       rbind (ensure_at_least ''max_uncompacted_bytes'' (b_max_uncompacted_bytes b)
                ''snapshot_after_bytes'' (b_snapshot_after_bytes b)) (\<lambda>_.
       rbind (ensure_at_least ''max_unstable_bytes'' (b_max_unstable_bytes b)
                ''max_bytes_per_rpc'' (b_max_bytes_per_rpc b)) (\<lambda>_.
       if length (b_members b) > unat (b_max_members b) then
         Err (TooManyMembers (length (b_members b)) (b_max_members b))
       else rbind (map_err DuplicateMember (insert_members (b_members b) [])) (\<lambda>unique.
         let election_min = fst (b_election_ticks b); election_max = snd (b_election_ticks b) in
         if b_local_id b \<notin> set unique then Err (LocalNodeNotMember (b_local_id b))
         else if election_min = 0 \<or> election_min \<ge> election_max then
           Err (InvalidElectionRange election_min election_max)
         else if b_heartbeat_ticks b = 0 \<or> b_heartbeat_ticks b \<ge> election_min then
           Err (InvalidHeartbeatTicks (b_heartbeat_ticks b) election_min)
         else if b_check_quorum_ticks b < election_min then
           Err (InvalidCheckQuorumTicks (b_check_quorum_ticks b) election_min)
         else Ok \<lparr>cfg_cluster_id = b_cluster_id b,
                 cfg_local_id = b_local_id b,
                 cfg_members = unique,
                 cfg_quorum = length unique div 2 + 1,
                 cfg_heartbeat_ticks = b_heartbeat_ticks b,
                 cfg_election_ticks = b_election_ticks b,
                 cfg_check_quorum_ticks = b_check_quorum_ticks b,
                 cfg_random_seed = b_random_seed b,
                 cfg_generation = b_generation b,
                 cfg_max_unstable_bytes = b_max_unstable_bytes b,
                 cfg_max_unapplied_entries = b_max_unapplied_entries b,
                 cfg_snapshot_after_entries = b_snapshot_after_entries b,
                 cfg_snapshot_after_bytes = b_snapshot_after_bytes b,
                 cfg_max_uncompacted_bytes = b_max_uncompacted_bytes b,
                 cfg_max_entries_per_rpc = b_max_entries_per_rpc b,
                 cfg_max_bytes_per_rpc = b_max_bytes_per_rpc b,
                 cfg_max_inflight_appends = b_max_inflight_appends b,
                 cfg_max_pending_reads = b_max_pending_reads b,
                 cfg_snapshot_chunk_bytes = b_snapshot_chunk_bytes b,
                 cfg_max_snapshot_ref_bytes = b_max_snapshot_ref_bytes b,
                 cfg_max_members = b_max_members b,
                 cfg_completion_history = b_completion_history b\<rparr>)))))"

text \<open>What a configuration that \<open>build\<close> returns is known to satisfy.\<close>

definition config_valid :: "raft_config \<Rightarrow> bool" where
  "config_valid c \<longleftrightarrow>
     cfg_local_id c \<in> set (cfg_members c) \<and> sorted_wrt (<) (cfg_members c) \<and>
     length (cfg_members c) \<le> unat (cfg_max_members c) \<and>
     cfg_quorum c = length (cfg_members c) div 2 + 1 \<and>
     0 < fst (cfg_election_ticks c) \<and> fst (cfg_election_ticks c) < snd (cfg_election_ticks c) \<and>
     0 < cfg_heartbeat_ticks c \<and> cfg_heartbeat_ticks c < fst (cfg_election_ticks c) \<and>
     fst (cfg_election_ticks c) \<le> cfg_check_quorum_ticks c \<and>
     cfg_snapshot_after_bytes c \<le> cfg_max_uncompacted_bytes c \<and>
     cfg_max_bytes_per_rpc c \<le> cfg_max_unstable_bytes c \<and>
     0 \<notin> {cfg_max_unstable_bytes c, cfg_max_unapplied_entries c, cfg_snapshot_after_entries c,
         cfg_snapshot_after_bytes c, cfg_max_uncompacted_bytes c, cfg_max_entries_per_rpc c,
         cfg_max_bytes_per_rpc c, cfg_max_inflight_appends c, cfg_max_pending_reads c,
         cfg_snapshot_chunk_bytes c, cfg_max_snapshot_ref_bytes c, cfg_max_members c,
         cfg_completion_history c}"

lemma check_capacities_Ok_iff:
  "check_capacities xs = Ok () \<longleftrightarrow> (\<forall>(n, v) \<in> set xs. v \<noteq> 0)"
  by (induction xs rule: check_capacities.induct) auto

lemma ensure_at_least_Ok_iff: "ensure_at_least l v r m = Ok () \<longleftrightarrow> m \<le> v"
  by (auto simp: ensure_at_least_def)

lemma config_valid_members:
  assumes "config_valid c"
  shows "distinct (cfg_members c)" "cfg_members c \<noteq> []"
    "length (cfg_members c) < 2 * cfg_quorum c" "cfg_quorum c \<le> length (cfg_members c)"
proof -
  from assms have "sorted_wrt (<) (cfg_members c)" and ne: "cfg_members c \<noteq> []"
    and q: "cfg_quorum c = length (cfg_members c) div 2 + 1"
    by (auto simp: config_valid_def)
  then show "distinct (cfg_members c)" by (simp add: strict_sorted_iff)
  show "cfg_members c \<noteq> []" by (rule ne)
  then have "0 < length (cfg_members c)" by simp
  then show "cfg_quorum c \<le> length (cfg_members c)" unfolding q by linarith
  show "length (cfg_members c) < 2 * cfg_quorum c" unfolding q by simp
qed

text \<open>What the builder must hold for \<open>build\<close> to accept it, check by check.\<close>

definition builder_valid :: "config_builder \<Rightarrow> bool" where
  "builder_valid b \<longleftrightarrow>
     b_members b \<noteq> [] \<and>
     0 \<notin> {b_max_unstable_bytes b, b_max_unapplied_entries b, b_snapshot_after_entries b, b_snapshot_after_bytes b,
        b_max_uncompacted_bytes b, b_max_entries_per_rpc b, b_max_bytes_per_rpc b, b_max_inflight_appends b,
        b_max_pending_reads b, b_snapshot_chunk_bytes b, b_max_snapshot_ref_bytes b, b_max_members b, b_completion_history b} \<and>
     b_snapshot_after_bytes b \<le> b_max_uncompacted_bytes b \<and>
     b_max_bytes_per_rpc b \<le> b_max_unstable_bytes b \<and>
     length (b_members b) \<le> unat (b_max_members b) \<and> distinct (b_members b) \<and>
     b_local_id b \<in> set (b_members b) \<and>
     0 < fst (b_election_ticks b) \<and> fst (b_election_ticks b) < snd (b_election_ticks b) \<and>
     0 < b_heartbeat_ticks b \<and> b_heartbeat_ticks b < fst (b_election_ticks b) \<and>
     fst (b_election_ticks b) \<le> b_check_quorum_ticks b"

lemma check_limits_Ok_iff:
  "check_capacities (capacity_limits b) = Ok () \<longleftrightarrow>
     0 \<notin> {b_max_unstable_bytes b, b_max_unapplied_entries b, b_snapshot_after_entries b, b_snapshot_after_bytes b,
        b_max_uncompacted_bytes b, b_max_entries_per_rpc b, b_max_bytes_per_rpc b, b_max_inflight_appends b,
        b_max_pending_reads b, b_snapshot_chunk_bytes b, b_max_snapshot_ref_bytes b, b_max_members b, b_completion_history b}"
  unfolding check_capacities_Ok_iff by (auto simp: capacity_limits_def)

lemmas build_checks = check_limits_Ok_iff ensure_at_least_Ok_iff insert_members_Ok_iff

lemma build_members:
  "build b = Ok c \<Longrightarrow> distinct (b_members b) \<and> cfg_members c = sort (b_members b)"
  by (auto simp: build_def rbind_Ok_iff insert_members_Ok_iff Let_def sorted_list_of_set_sort_remdups
      distinct_remdups_id split: if_splits)

lemma build_Ok_imp_builder_valid: "build b = Ok c \<Longrightarrow> builder_valid b"
  by (auto simp: build_def builder_valid_def rbind_Ok_iff build_checks Let_def not_le not_less
      word_neq_0_conv split: if_splits)

lemma builder_valid_imp_build: "builder_valid b \<Longrightarrow> \<exists>c. build b = Ok c"
  by (auto simp: build_def builder_valid_def rbind_Ok_iff build_checks Let_def not_le not_less
      word_neq_0_conv)

section \<open>Properties\<close>

text \<open>
  C37: \<open>build\<close> accepts a builder exactly when every documented check holds: a
  nonempty duplicate-free membership within its limit that contains the local
  node, none of the thirteen capacities zero, the two capacity relationships, and the ordering of
  the heartbeat, election and CheckQuorum intervals.
\<close>

theorem build_accepts_iff: "(\<exists>c. build b = Ok c) \<longleftrightarrow> builder_valid b"
  using build_Ok_imp_builder_valid builder_valid_imp_build by blast

text \<open>
  C38: a configuration that \<open>build\<close> returns is valid: its members are the
  builder's, sorted and without duplicates, they include the local node, the
  quorum is a strict majority of them, and every capacity is nonzero.
\<close>

theorem build_valid:
  assumes "build b = Ok c"
  shows "config_valid c \<and> set (cfg_members c) = set (b_members b) \<and>
    length (cfg_members c) < 2 * cfg_quorum c \<and> cfg_quorum c \<le> length (cfg_members c)"
proof -
  have m: "distinct (b_members b)" "cfg_members c = sort (b_members b)"
    using build_members [OF assms] by auto
  have "config_valid c"
    using assms build_Ok_imp_builder_valid [OF assms]
    by (auto simp: build_def builder_valid_def config_valid_def capacity_limits_def rbind_Ok_iff
        insert_members_Ok_iff Let_def sorted_list_of_set_sort_remdups distinct_remdups_id
        strict_sorted_iff split: if_splits)
  then show ?thesis using m config_valid_members(3,4) [of c] by simp
qed

theorem build_valid_witness:
  "build (builder_new 1 [3, 1, 2]) \<noteq> Err EmptyMembership \<and>
   (\<exists>c. build (builder_new 1 [3, 1, 2]) = Ok c \<and> config_valid c \<and> cfg_members c = [1, 2, 3])"
proof -
  have "builder_valid (builder_new 1 [3, 1, 2])"
    by (simp add: builder_valid_def builder_new_def capacity_limits_def)
  then obtain c where c: "build (builder_new 1 [3, 1, 2]) = Ok c"
    using builder_valid_imp_build by blast
  have "cfg_members c = [1, 2, 3]"
    using build_members [OF c] by (simp add: builder_new_def u64_le_iff)
  then show ?thesis using c build_valid [OF c] by simp
qed

end
