(* ===== verification/Durable_State.thy ===== *)
theory Durable_State
  imports Types
begin

text \<open>
  The durable layer: log entries (\<open>src/log/entry.rs\<close>), and the hard state, the
  snapshot record and the validated recovery input (\<open>src/state.rs\<close>). An \<open>Arc\<close>
  around a command is the command: entries are immutable.
\<close>

section \<open>Entries\<close>

datatype 'c entry_payload = Command 'c | LeaderNoop

record 'c entry =
  entry_index :: log_index
  entry_term :: log_term
  encoded_len :: usize
  payload :: "'c entry_payload"

definition validate_position :: "log_index \<Rightarrow> log_term \<Rightarrow> (unit, entry_error) result" where
  "validate_position i t =
     (if i = 0 then Err ZeroLogIndex else if t = 0 then Err ZeroTerm else Ok ())"

definition entry_command ::
  "log_index \<Rightarrow> log_term \<Rightarrow> 'c \<Rightarrow> usize \<Rightarrow> ('c entry, entry_error) result" where
  "entry_command i t cmd len =
     rbind (validate_position i t) (\<lambda>_.
       if len = 0 then Err ZeroEncodedLength
       else Ok \<lparr>entry_index = i, entry_term = t, encoded_len = len, payload = Command cmd\<rparr>)"

definition leader_noop :: "log_index \<Rightarrow> log_term \<Rightarrow> ('c entry, entry_error) result" where
  "leader_noop i t =
     rbind (validate_position i t) (\<lambda>_.
       Ok \<lparr>entry_index = i, entry_term = t, encoded_len = 0, payload = LeaderNoop\<rparr>)"

lemma entry_command_Ok_iff:
  "entry_command i t cmd len = Ok e \<longleftrightarrow> i \<noteq> 0 \<and> t \<noteq> 0 \<and> len \<noteq> 0 \<and>
     e = \<lparr>entry_index = i, entry_term = t, encoded_len = len, payload = Command cmd\<rparr>"
  by (auto simp: entry_command_def validate_position_def)

lemma leader_noop_Ok_iff:
  "leader_noop i t = Ok e \<longleftrightarrow> i \<noteq> 0 \<and> t \<noteq> 0 \<and>
     e = \<lparr>entry_index = i, entry_term = t, encoded_len = 0, payload = LeaderNoop\<rparr>"
  by (auto simp: leader_noop_def validate_position_def)

section \<open>Hard state and snapshot records\<close>

record hard_state =
  current_term :: log_term
  voted_for :: "node_id option"
  commit_index :: log_index

definition hard_state_new :: "log_term \<Rightarrow> node_id option \<Rightarrow> log_index \<Rightarrow> hard_state" where
  "hard_state_new t v c = \<lparr>current_term = t, voted_for = v, commit_index = c\<rparr>"

lemma hard_state_new_simps [simp]:
  "current_term (hard_state_new t v c) = t" "voted_for (hard_state_new t v c) = v"
  "commit_index (hard_state_new t v c) = c"
  by (simp_all add: hard_state_new_def)

record snapshot_record =
  metadata :: snapshot_metadata
  body_ref :: snapshot_ref

abbreviation record_index :: "snapshot_record \<Rightarrow> log_index" where
  "record_index r \<equiv> last_included_index (metadata r)"

abbreviation record_term :: "snapshot_record \<Rightarrow> log_term" where
  "record_term r \<equiv> last_included_term (metadata r)"

text \<open>The boundary a snapshot, or its absence, puts in front of the suffix.\<close>

definition boundary_index :: "snapshot_record option \<Rightarrow> log_index" where
  "boundary_index sn = (case sn of None \<Rightarrow> 0 | Some r \<Rightarrow> record_index r)"

definition boundary_term :: "snapshot_record option \<Rightarrow> log_term" where
  "boundary_term sn = (case sn of None \<Rightarrow> 0 | Some r \<Rightarrow> record_term r)"

lemma boundary_simps [simp]:
  "boundary_index None = 0" "boundary_index (Some r) = record_index r"
  "boundary_term None = 0" "boundary_term (Some r) = record_term r"
  by (simp_all add: boundary_index_def boundary_term_def)

section \<open>Suffixes\<close>

text \<open>
  A suffix is continuous after index \<open>b\<close> when its entries have the indexes
  \<open>b + 1\<close>, \<open>b + 2\<close>, and so on, all below the largest index; its terms never
  fall, from the term \<open>t\<close> of the boundary on.
\<close>

definition contiguous_from :: "nat \<Rightarrow> 'c entry list \<Rightarrow> bool" where
  "contiguous_from b es \<longleftrightarrow>
     (\<forall>k < length es. unat (entry_index (es ! k)) = b + 1 + k) \<and> b + length es + 1 < 2 ^ 64"

definition terms_from :: "log_term \<Rightarrow> 'c entry list \<Rightarrow> bool" where
  "terms_from t es \<longleftrightarrow> sorted (t # map entry_term es)"

lemma contiguous_Nil [simp]: "contiguous_from b [] \<longleftrightarrow> b + 1 < 2 ^ 64"
  by (simp add: contiguous_from_def)

lemma contiguous_Cons:
  "contiguous_from b (e # es) \<longleftrightarrow> unat (entry_index e) = b + 1 \<and> contiguous_from (b + 1) es"
  by (auto simp: contiguous_from_def All_less_Suc2)

lemma contiguous_append:
  "contiguous_from b (xs @ ys) \<longleftrightarrow> contiguous_from b xs \<and> contiguous_from (b + length xs) ys"
proof (induction xs arbitrary: b)
  case Nil
  then show ?case by (auto simp: contiguous_from_def)
next
  case (Cons x xs)
  then show ?case by (auto simp: contiguous_Cons)
qed

lemma contiguous_nth: "contiguous_from b es \<Longrightarrow> k < length es \<Longrightarrow> unat (entry_index (es ! k)) = b + 1 + k"
  by (simp add: contiguous_from_def)

lemma contiguous_bound: "contiguous_from b es \<Longrightarrow> b + length es + 1 < 2 ^ 64"
  by (simp add: contiguous_from_def)

lemma contiguous_take: "contiguous_from b es \<Longrightarrow> contiguous_from b (take n es)"
  by (metis append_take_drop_id contiguous_append)

lemma contiguous_drop:
  "contiguous_from b es \<Longrightarrow> n \<le> length es \<Longrightarrow> contiguous_from (b + n) (drop n es)"
  by (metis append_take_drop_id contiguous_append length_take min.absorb2)

lemma contiguous_last:
  "contiguous_from b es \<Longrightarrow> es \<noteq> [] \<Longrightarrow> unat (entry_index (last es)) = b + length es"
  by (cases es rule: rev_cases) (auto simp: contiguous_append contiguous_Cons)

lemma terms_Nil [simp]: "terms_from t []"
  by (simp add: terms_from_def)

lemma terms_Cons: "terms_from t (e # es) \<longleftrightarrow> t \<le> entry_term e \<and> terms_from (entry_term e) es"
  by (auto simp: terms_from_def)

lemma terms_append:
  "terms_from t (xs @ ys) \<longleftrightarrow>
     terms_from t xs \<and> terms_from (if xs = [] then t else entry_term (last xs)) ys"
  by (induction xs arbitrary: t) (auto simp: terms_Cons)

lemma terms_take: "terms_from t es \<Longrightarrow> terms_from t (take n es)"
  by (metis append_take_drop_id terms_append)

lemma terms_mono_nth:
  "terms_from t es \<Longrightarrow> i \<le> j \<Longrightarrow> j < length es \<Longrightarrow> entry_term (es ! i) \<le> entry_term (es ! j)"
  by (auto simp: terms_from_def dest: sorted_nth_mono [where i = i and j = j])

lemma terms_ge: "terms_from t es \<Longrightarrow> e \<in> set es \<Longrightarrow> t \<le> entry_term e"
  by (auto simp: terms_from_def)

section \<open>Recovery\<close>

record 'c recovered_state =
  rec_hard_state :: hard_state
  rec_snapshot :: "snapshot_record option"
  rec_entries :: "'c entry list"
  rec_format_version :: u32

definition format_version :: u32 where
  "format_version = 1"

text \<open>The loop over the suffix: the expected index and the previous term are the
  loop's variables, and the last previous term is what it leaves behind.\<close>

fun check_suffix ::
  "log_index \<Rightarrow> log_term \<Rightarrow> 'c entry list \<Rightarrow> (log_term, recovery_error) result" where
  "check_suffix expected previous_term [] = Ok previous_term"
| "check_suffix expected previous_term (e # es) =
     (if entry_index e \<noteq> expected then Err (LogGap expected (entry_index e))
      else if entry_term e < previous_term then
        Err (RecoveryTermRegression (entry_index e) previous_term (entry_term e))
      else rbind (map_err (\<lambda>_. RecoveryIndexOverflow (entry_index e)) (checked_next expected))
        (\<lambda>next. check_suffix next (entry_term e) es))"

definition from_parts ::
  "u32 \<Rightarrow> hard_state \<Rightarrow> snapshot_record option \<Rightarrow> 'c entry list \<Rightarrow>
     ('c recovered_state, recovery_error) result" where
  "from_parts version hs sn es =
    (if version \<noteq> format_version then Err (UnsupportedFormat version format_version)
     else let snapshot_index = boundary_index sn; snapshot_term = boundary_term sn in
     if commit_index hs < snapshot_index then
       Err (CommitBeforeSnapshot (commit_index hs) snapshot_index)
     else rbind
       (case sn of None \<Rightarrow> Ok ()
        | Some r \<Rightarrow> (case voted_for hs of None \<Rightarrow> Ok ()
           | Some v \<Rightarrow> if v \<notin> set (snap_members (metadata r)) then Err (VotedForNonMember v)
                      else Ok ())) (\<lambda>_.
     rbind (map_err (\<lambda>_. RecoveryIndexOverflow snapshot_index) (checked_next snapshot_index)) (\<lambda>expected.
     rbind (check_suffix expected snapshot_term es) (\<lambda>previous_term.
     if current_term hs < previous_term then
       Err (CurrentTermBehindLog (current_term hs) previous_term)
     else let last_index = (if es = [] then snapshot_index else entry_index (last es)) in
     if commit_index hs > last_index then
       Err (RecoveryCommitPastLog (commit_index hs) last_index)
     else Ok \<lparr>rec_hard_state = hs, rec_snapshot = sn, rec_entries = es,
              rec_format_version = version\<rparr>))))"

definition recovered_state_new ::
  "hard_state \<Rightarrow> snapshot_record option \<Rightarrow> 'c entry list \<Rightarrow>
     ('c recovered_state, recovery_error) result" where
  "recovered_state_new hs sn es = from_parts format_version hs sn es"

text \<open>The recovery conditions as one predicate.\<close>

definition recovery_valid :: "hard_state \<Rightarrow> snapshot_record option \<Rightarrow> 'c entry list \<Rightarrow> bool" where
  "recovery_valid hs sn es \<longleftrightarrow>
     contiguous_from (unat (boundary_index sn)) es \<and> terms_from (boundary_term sn) es \<and>
     boundary_index sn \<le> commit_index hs \<and>
     unat (commit_index hs) \<le> unat (boundary_index sn) + length es \<and>
     boundary_term sn \<le> current_term hs \<and> (\<forall>e \<in> set es. entry_term e \<le> current_term hs) \<and>
     (\<forall>r v. sn = Some r \<longrightarrow> voted_for hs = Some v \<longrightarrow> v \<in> set (snap_members (metadata r)))"

lemma check_suffix_Ok_iff:
  assumes "unat expected = b + 1"
  shows "check_suffix expected t es = Ok t' \<longleftrightarrow>
    contiguous_from b es \<and> terms_from t es \<and> t' = (if es = [] then t else entry_term (last es))"
  using assms
proof (induction expected t es arbitrary: b rule: check_suffix.induct)
  case (1 expected t)
  then show ?case using u64_bound [of expected] by auto
next
  case (2 expected t e es)
  have idx: "entry_index e = expected \<longleftrightarrow> unat (entry_index e) = b + 1"
    using "2.prems" by (simp add: u64_eq_iff)
  show ?case
  proof (cases expected rule: checked_next_cases)
    case (Next y)
    then have "unat y = (b + 1) + 1" using "2.prems" by simp
    with 2 Next idx show ?thesis
      by (auto simp: contiguous_Cons terms_Cons)
  next
    case Over
    then have "\<not> contiguous_from (b + 1) es"
      using "2.prems" by (auto dest: contiguous_bound)
    with Over idx show ?thesis by (auto simp: contiguous_Cons)
  qed
qed

lemma last_entry_index:
  assumes "contiguous_from (unat b) es"
  shows "unat (if es = [] then b else entry_index (last es)) = unat b + length es"
  using assms by (auto simp: contiguous_last)

lemma last_term_bound:
  assumes "terms_from t es"
  shows "(if es = [] then t else entry_term (last es)) \<le> c \<longleftrightarrow>
    t \<le> c \<and> (\<forall>e \<in> set es. entry_term e \<le> c)"
  using assms
proof (induction es rule: rev_induct)
  case (snoc e es)
  then show ?case
    by (auto simp: terms_append terms_Cons split: if_splits)
qed simp

lemma from_parts_Ok_iff:
  "from_parts v hs sn es = Ok r \<longleftrightarrow>
     v = format_version \<and> recovery_valid hs sn es \<and>
     r = \<lparr>rec_hard_state = hs, rec_snapshot = sn, rec_entries = es, rec_format_version = v\<rparr>"
proof (cases "boundary_index sn" rule: checked_next_cases)
  case (Next y)
  then show ?thesis
    using last_entry_index [of "boundary_index sn" es] last_term_bound [of "boundary_term sn" es "current_term hs"]
    by (auto simp: from_parts_def recovery_valid_def Let_def rbind_Ok_iff check_suffix_Ok_iff [of y]
        u64_le_iff u64_less_iff not_less split: if_splits option.splits)
next
  case Over
  then have "\<not> contiguous_from (unat (boundary_index sn)) es"
    by (auto dest: contiguous_bound)
  with Over show ?thesis
    by (auto simp: from_parts_def recovery_valid_def Let_def rbind_Ok_iff split: if_splits)
qed

text \<open>
  C36: recovery accepts durable state exactly when the suffix is continuous and
  term-monotone after the snapshot boundary, the commit index lies between the
  boundary and the end of the log, no stored term is ahead of the durable one,
  and a recorded vote names a snapshot member. The record it returns is its input.
\<close>

theorem from_parts_accepts_iff:
  "from_parts v hs sn es = Ok r \<longleftrightarrow>
     v = format_version \<and> recovery_valid hs sn es \<and>
     r = \<lparr>rec_hard_state = hs, rec_snapshot = sn, rec_entries = es, rec_format_version = v\<rparr>"
  by (rule from_parts_Ok_iff)

end
