(* ===== verification/Messages.thy ===== *)
theory Messages
  imports Durable_State
begin

text \<open>
  The core's boundary with its host and its peers: RPC payloads and envelopes
  (\<open>src/protocol/mod.rs\<close>), input events (\<open>src/event.rs\<close>), effects and their
  outcomes (\<open>src/effect.rs\<close>). Constructor arguments stand in the order of the
  source's fields.
\<close>

section \<open>Peer messages\<close>

record conflict_hint =
  hint_index :: log_index
  hint_term :: "log_term option"

type_synonym read_context = "u8 list"

datatype 'c message =
    Heartbeat
  | PreVote log_term log_index log_term
  | RequestVote log_term log_index log_term
  | PreVoteResponse log_term bool
  | VoteResponse log_term bool
  | AppendEntries log_term log_index log_term log_index "read_context option" "'c entry list"
  | AppendEntriesResponse log_term bool log_index "conflict_hint option" "read_context option"
  | InstallSnapshot log_term snapshot_metadata u64 "u8 list" bool
  | InstallSnapshotResponse log_term bool

record 'c envelope =
  env_cluster_id :: cluster_id
  env_from :: node_id
  env_to :: node_id
  env_message :: "'c message"

section \<open>Effects\<close>

datatype proposal_result = Applied log_index | LeadershipLost | Rejected

datatype effect_outcome =
    Persisted
  | AppliedThrough log_index
  | SnapshotChunkRead snapshot_id u64 "u8 list" bool
  | SnapshotChunkStored snapshot_id u64 "snapshot_ref option"
  | SnapshotInstalled snapshot_id
  | SnapshotBuilt snapshot_metadata snapshot_ref
  | CompactedThrough log_index
  | Failed

record 'c persist_batch =
  batch_hard_state :: "hard_state option"
  batch_entries :: "'c entry list"
  batch_snapshot :: "snapshot_record option"

datatype 'c effect =
    SendMessage node_id "'c message"
  | Persist effect_id "'c persist_batch"
  | ProposalResult proposal_id proposal_result
  | ReadReady read_id log_index
  | Apply effect_id "'c entry list"
  | ReadSnapshotChunk effect_id snapshot_record u64 usize
  | StoreSnapshotChunk effect_id snapshot_metadata u64 "u8 list"
  | InstallSnapshotEffect effect_id snapshot_record
  | BuildSnapshot effect_id log_index
  | CompactLog effect_id log_index
  | Diagnostic node_id

section \<open>Events\<close>

datatype tick_kind = ElectionTick | HeartbeatTick

datatype 'c event =
    Tick tick_kind
  | MessageReceived "'c envelope"
  | Propose proposal_id 'c usize
  | Read read_id "u8 list"
  | SnapshotRequested
  | EffectCompleted effect_id effect_outcome
  | Shutdown

text \<open>The identifier an effect is completed under; messages, results and
  diagnostics need no completion.\<close>

fun effect_key :: "'c effect \<Rightarrow> effect_id option" where
  "effect_key (Persist i _) = Some i"
| "effect_key (Apply i _) = Some i"
| "effect_key (ReadSnapshotChunk i _ _ _) = Some i"
| "effect_key (StoreSnapshotChunk i _ _ _) = Some i"
| "effect_key (InstallSnapshotEffect i _) = Some i"
| "effect_key (BuildSnapshot i _) = Some i"
| "effect_key (CompactLog i _) = Some i"
| "effect_key _ = None"

end
