(* ===== verification/Raft_Log.thy ===== *)
theory Raft_Log
  imports Durable_State
begin

text \<open>
  \<open>src/log/mod.rs\<close> and \<open>src/log/unstable.rs\<close>: the logical log across the
  compacted snapshot boundary. Every operation that changes the log checks
  before it mutates, so an operation is a function to the new log or an error,
  and the caller keeps the old log on an error. A subtraction of \<open>u64\<close> values
  that would underflow is a panic, as in a build with overflow checks.

  The abstraction is \<open>view\<close>: the log as a finite map from index to entry above
  the boundary. \<open>log_wf\<close> is the structural invariant, \<open>log_inv\<close> adds that the
  commit point lies between the boundary and the end.
\<close>

section \<open>The unstable window\<close>

record unstable =
  un_from :: "log_index option"
  un_through :: "log_index option"

definition unstable_default :: unstable where
  "unstable_default = \<lparr>un_from = None, un_through = None\<rparr>"

definition mark_range :: "unstable \<Rightarrow> log_index \<Rightarrow> log_index \<Rightarrow> unstable" where
  "mark_range u f t = u\<lparr>
     un_from := Some (case un_from u of None \<Rightarrow> f | Some current \<Rightarrow> min current f),
     un_through := Some (case un_through u of None \<Rightarrow> t | Some current \<Rightarrow> max current t)\<rparr>"

definition truncate_from :: "unstable \<Rightarrow> log_index \<Rightarrow> unstable" where
  "truncate_from u f = (case (un_from u, un_through u) of
       (Some first, Some final) \<Rightarrow>
         if f \<le> first then u\<lparr>un_from := None, un_through := None\<rparr>
         else if f \<le> final then u\<lparr>un_through := Some (f - 1)\<rparr>
         else u
     | _ \<Rightarrow> u)"

definition mark_stable_through :: "unstable \<Rightarrow> log_index \<Rightarrow> unstable" where
  "mark_stable_through u i = (case (un_from u, un_through u) of
       (Some from, Some through) \<Rightarrow>
         if i < from then u
         else if i \<ge> through then u\<lparr>un_from := None, un_through := None\<rparr>
         else u\<lparr>un_from := (case checked_next i of Ok n \<Rightarrow> Some n | _ \<Rightarrow> None)\<rparr>
     | _ \<Rightarrow> u)"

definition discard_through :: "unstable \<Rightarrow> log_index \<Rightarrow> unstable" where
  "discard_through u i = mark_stable_through u i"

section \<open>Queries\<close>

record 'c raft_log =
  log_snapshot :: "snapshot_record option"
  log_entries :: "'c entry list"
  log_committed :: log_index
  log_unstable :: unstable

definition from_recovered :: "'c recovered_state \<Rightarrow> 'c raft_log" where
  "from_recovered r = \<lparr>log_snapshot = rec_snapshot r, log_entries = rec_entries r,
     log_committed = commit_index (rec_hard_state r), log_unstable = unstable_default\<rparr>"

definition first_index :: "'c raft_log \<Rightarrow> (log_index, log_error) result" where
  "first_index l = (case log_snapshot l of None \<Rightarrow> Ok 1
     | Some r \<Rightarrow> expect_ok (checked_next (record_index r)))"

definition last_index :: "'c raft_log \<Rightarrow> log_index" where
  "last_index l = (if log_entries l = [] then boundary_index (log_snapshot l)
     else entry_index (last (log_entries l)))"

definition sub_u64 :: "u64 \<Rightarrow> u64 \<Rightarrow> (u64, 'e) result" where
  "sub_u64 a b = (if a < b then Panic else Ok (a - b))"

definition entry_at :: "'c raft_log \<Rightarrow> log_index \<Rightarrow> ('c entry option, log_error) result" where
  "entry_at l i = rbind (first_index l) (\<lambda>first.
     if i < first then Ok None
     else case usize_try_from (i - first) of None \<Rightarrow> Ok None
       | Some offset \<Rightarrow> Ok (if offset < length (log_entries l) then Some (log_entries l ! offset)
                          else None))"

definition log_term_at :: "'c raft_log \<Rightarrow> log_index \<Rightarrow> (log_term, log_error) result" where
  "log_term_at l i =
    (let tail = rbind (entry_at l i) (\<lambda>found.
           case found of None \<Rightarrow> Err (Unavailable i (last_index l)) | Some e \<Rightarrow> Ok (entry_term e))
     in if i = 0 \<and> log_snapshot l = None then Ok 0
        else case log_snapshot l of None \<Rightarrow> tail
          | Some r \<Rightarrow> if i < record_index r then Err (Compacted i (record_index r))
                     else if i = record_index r then Ok (record_term r)
                     else tail)"

definition last_index_of_term :: "'c raft_log \<Rightarrow> log_term \<Rightarrow> log_index option" where
  "last_index_of_term l t =
     (case find (\<lambda>e. entry_term e = t) (rev (log_entries l)) of
        Some e \<Rightarrow> Some (entry_index e)
      | None \<Rightarrow> (case log_snapshot l of None \<Rightarrow> None
          | Some r \<Rightarrow> if record_term r = t then Some (record_index r) else None))"

definition first_index_of_term :: "'c raft_log \<Rightarrow> log_term \<Rightarrow> log_index option" where
  "first_index_of_term l t =
     (case log_snapshot l of
        Some r \<Rightarrow> if record_term r = t then Some (record_index r)
                 else map_option entry_index (find (\<lambda>e. entry_term e = t) (log_entries l))
      | None \<Rightarrow> map_option entry_index (find (\<lambda>e. entry_term e = t) (log_entries l)))"

definition log_range :: "'c raft_log \<Rightarrow> log_index \<Rightarrow> log_index \<Rightarrow> ('c entry list, log_error) result" where
  "log_range l start stop =
    (if start > stop then Err (InvalidRange start stop)
     else rbind (first_index l) (\<lambda>first.
       if start < first then Err (Compacted start (boundary_index (log_snapshot l)))
       else if stop > last_index l then Err (Unavailable stop (last_index l))
       else rbind (ok_or (usize_try_from (start - first)) (IndexTooLarge start)) (\<lambda>start_offset.
         rbind (ok_or (usize_try_from (stop - first)) (IndexTooLarge stop)) (\<lambda>stop_offset.
           if stop_offset < length (log_entries l) then
             Ok (take (stop_offset + 1 - start_offset) (drop start_offset (log_entries l)))
           else Panic))))"

section \<open>Validation\<close>

definition term_before :: "'c raft_log \<Rightarrow> log_index \<Rightarrow> (log_term, log_error) result" where
  "term_before l first =
    (if first = 1 \<and> log_snapshot l = None then Ok 0
     else rbind (sub_u64 first 1) (\<lambda>previous. log_term_at l previous))"

fun continuity_loop ::
  "log_index \<Rightarrow> log_term \<Rightarrow> 'c entry list \<Rightarrow> (unit, log_error) result" where
  "continuity_loop expected previous_term [] = Ok ()"
| "continuity_loop expected previous_term (e # es) =
     (if entry_index e \<noteq> expected then Err (NonContiguousEntries expected (entry_index e))
      else if entry_term e < previous_term then
        Err (TermRegression (entry_index e) previous_term (entry_term e))
      else rbind (map_err (\<lambda>_. IndexOverflow (entry_index e)) (checked_next expected))
        (\<lambda>next. continuity_loop next (entry_term e) es))"

definition validate_continuity ::
  "'c raft_log \<Rightarrow> 'c entry list \<Rightarrow> log_index \<Rightarrow> (unit, log_error) result" where
  "validate_continuity l es expected_first =
     rbind (term_before l expected_first) (\<lambda>previous_term.
       continuity_loop expected_first previous_term es)"

definition log_validate :: "'c raft_log \<Rightarrow> (unit, invariant_violation) result" where
  "log_validate l = map_err ViolationLog
     (rbind (first_index l) (\<lambda>first. validate_continuity l (log_entries l) first))"

section \<open>Operations\<close>

definition commit_to :: "'c raft_log \<Rightarrow> log_index \<Rightarrow> ('c raft_log, log_error) result" where
  "commit_to l i =
    (if i > last_index l then Err (Unavailable i (last_index l))
     else Ok (if i > log_committed l then l\<lparr>log_committed := i\<rparr> else l))"

definition next_after_last :: "'c raft_log \<Rightarrow> (log_index, log_error) result" where
  "next_after_last l = map_err (\<lambda>_. IndexOverflow (last_index l)) (checked_next (last_index l))"

definition log_append :: "'c raft_log \<Rightarrow> 'c entry list \<Rightarrow> ('c raft_log, log_error) result" where
  "log_append l es =
    (if es = [] then Ok l
     else rbind (next_after_last l) (\<lambda>expected.
       rbind (validate_continuity l es expected) (\<lambda>_.
         Ok (l\<lparr>log_entries := log_entries l @ es,
               log_unstable := mark_range (log_unstable l) (entry_index (hd es))
                                 (entry_index (last es))\<rparr>))))"

text \<open>The walk over the incoming entries: the offset of the first one that the
  log does not hold with the same term.\<close>

fun find_conflict ::
  "'c raft_log \<Rightarrow> nat \<Rightarrow> 'c entry list \<Rightarrow> (nat option, log_error) result" where
  "find_conflict l offset [] = Ok None"
| "find_conflict l offset (e # es) =
    (let i = entry_index e;
         compare_entry = rbind (entry_at l i) (\<lambda>found.
           case found of
             Some existing \<Rightarrow> if entry_term existing = entry_term e
                             then find_conflict l (Suc offset) es
                             else Ok (Some offset)
           | None \<Rightarrow> rbind (next_after_last l) (\<lambda>expected.
               if i \<noteq> expected then Err (NonContiguousEntries expected i)
               else Ok (Some offset)))
     in case log_snapshot l of
          None \<Rightarrow> compare_entry
        | Some r \<Rightarrow>
            if i < record_index r then Err (Compacted i (record_index r))
            else if i = record_index r then
              (if entry_term e \<noteq> record_term r
               then Err (SnapshotBoundaryMismatch i (record_term r) (entry_term e))
               else find_conflict l (Suc offset) es)
            else compare_entry)"

definition replace_conflict :: "'c raft_log \<Rightarrow> 'c entry list \<Rightarrow> ('c raft_log, log_error) result" where
  "replace_conflict l incoming =
    (if incoming = [] then Ok l
     else rbind (next_after_last l) (\<lambda>expected_after_last.
       if entry_index (hd incoming) > expected_after_last then
         Err (NonContiguousEntries expected_after_last (entry_index (hd incoming)))
       else rbind (validate_continuity l incoming (entry_index (hd incoming))) (\<lambda>_.
         rbind (find_conflict l 0 incoming) (\<lambda>replace_at.
           case replace_at of None \<Rightarrow> Ok l
           | Some offset \<Rightarrow>
               let from = entry_index (incoming ! offset) in
               if from \<le> log_committed l then
                 Err (WouldTruncateCommitted from (log_committed l))
               else rbind (first_index l) (\<lambda>first.
                 rbind (sub_u64 from first) (\<lambda>distance.
                 rbind (ok_or (usize_try_from distance) (IndexTooLarge from)) (\<lambda>truncate_offset.
                   Ok (l\<lparr>log_entries := take truncate_offset (log_entries l) @ drop offset incoming,
                         log_unstable := mark_range (truncate_from (log_unstable l) from) from
                           (entry_index (last incoming))\<rparr>))))))))"

text \<open>\<open>Iterator::position\<close> in \<open>merge_from_leader\<close>: an index whose term cannot be
  looked up counts as different.\<close>

fun first_change :: "'c raft_log \<Rightarrow> 'c entry list \<Rightarrow> (nat option, log_error) result" where
  "first_change l [] = Ok None"
| "first_change l (e # es) =
    (case log_term_at l (entry_index e) of
       Panic \<Rightarrow> Panic
     | Err _ \<Rightarrow> Ok (Some 0)
     | Ok t \<Rightarrow> if t \<noteq> entry_term e then Ok (Some 0)
              else rbind (first_change l es) (\<lambda>k. Ok (map_option Suc k)))"

definition merge_from_leader ::
  "'c raft_log \<Rightarrow> 'c entry list \<Rightarrow> ('c raft_log \<times> 'c entry list, log_error) result" where
  "merge_from_leader l incoming =
    rbind (first_change l incoming) (\<lambda>change.
      case change of None \<Rightarrow> Ok (l, [])
      | Some k \<Rightarrow> let new_entries = drop k incoming in
          rbind (replace_conflict l new_entries) (\<lambda>l'. Ok (l', new_entries)))"

definition mark_stable :: "'c raft_log \<Rightarrow> log_index \<Rightarrow> ('c raft_log, log_error) result" where
  "mark_stable l i =
    (if i > last_index l then Err (StablePastLog i (last_index l))
     else Ok (l\<lparr>log_unstable := mark_stable_through (log_unstable l) i\<rparr>))"

definition install_snapshot :: "'c raft_log \<Rightarrow> snapshot_record \<Rightarrow> ('c raft_log, log_error) result" where
  "install_snapshot l r =
    (let through = record_index r;
         finish = (\<lambda>es. Ok (l\<lparr>log_entries := es,
           log_unstable := discard_through (log_unstable l) through,
           log_snapshot := Some r,
           log_committed := (if through > log_committed l then through else log_committed l)\<rparr>))
     in case log_term_at l through of
          Panic \<Rightarrow> Panic
        | Err _ \<Rightarrow> finish []
        | Ok t \<Rightarrow>
            if t \<noteq> record_term r then finish []
            else rbind (first_index l) (\<lambda>first.
              rbind (ok_or (usize_try_from (saturating_sub (saturating_add through 1) first))
                       (IndexTooLarge through)) (\<lambda>drain.
                finish (drop (min drain (length (log_entries l))) (log_entries l)))))"

definition compact :: "'c raft_log \<Rightarrow> snapshot_record \<Rightarrow> ('c raft_log, log_error) result" where
  "compact l r =
    (let through = record_index r in
     if through > log_committed l then Err (CompactPastCommit through (log_committed l))
     else rbind (log_term_at l through) (\<lambda>t.
       if t \<noteq> record_term r then Err (SnapshotBoundaryMismatch through t (record_term r))
       else rbind (map_err (\<lambda>_. IndexOverflow through) (checked_next through)) (\<lambda>retained_from.
         rbind (first_index l) (\<lambda>first.
           rbind (if retained_from > first
                  then ok_or (usize_try_from (retained_from - first)) (IndexTooLarge retained_from)
                  else Ok 0) (\<lambda>drain_to.
             Ok (l\<lparr>log_entries := drop (min drain_to (length (log_entries l))) (log_entries l),
                   log_snapshot := Some r,
                   log_unstable := discard_through (log_unstable l) through\<rparr>))))))"

end
