(* ===== verification/Log_Refinement.thy ===== *)
theory Log_Refinement
  imports Raft_Log
begin

text \<open>
  Correctness of the logical log of \<open>Raft_Log\<close>. Under the structural invariant
  \<open>log_wf\<close> every lookup is a lookup in \<open>view\<close>, the run-time validator accepts
  exactly the well-formed logs, and each operation has a functional description
  over \<open>view\<close>: append extends it, a merge splices it, compaction and snapshot
  installation move the boundary.
\<close>


section \<open>Abstraction\<close>

abbreviation base :: "'c raft_log \<Rightarrow> nat" where
  "base l \<equiv> unat (boundary_index (log_snapshot l))"

definition log_end :: "'c raft_log \<Rightarrow> nat" where
  "log_end l = base l + length (log_entries l)"

definition view :: "'c raft_log \<Rightarrow> nat \<Rightarrow> 'c entry option" where
  "view l i = (if base l < i \<and> i \<le> log_end l then Some (log_entries l ! (i - base l - 1)) else None)"

definition log_wf :: "'c raft_log \<Rightarrow> bool" where
  "log_wf l \<longleftrightarrow> contiguous_from (base l) (log_entries l) \<and>
     terms_from (boundary_term (log_snapshot l)) (log_entries l)"

definition log_inv :: "'c raft_log \<Rightarrow> bool" where
  "log_inv l \<longleftrightarrow> log_wf l \<and> base l \<le> unat (log_committed l) \<and> unat (log_committed l) \<le> log_end l"

definition term_of :: "'c raft_log \<Rightarrow> nat \<Rightarrow> log_term" where
  "term_of l i = (if i = base l then boundary_term (log_snapshot l)
     else entry_term (log_entries l ! (i - base l - 1)))"

lemma log_wf_bound: "log_wf l \<Longrightarrow> log_end l + 1 < 2 ^ 64"
  by (auto simp: log_wf_def log_end_def dest: contiguous_bound)

lemma base_le_end [simp]: "base l \<le> log_end l"
  by (simp add: log_end_def)

lemma view_None_iff: "view l i = None \<longleftrightarrow> i \<le> base l \<or> log_end l < i"
  by (auto simp: view_def)

lemma view_Some_iff:
  "view l i = Some e \<longleftrightarrow> base l < i \<and> i \<le> log_end l \<and> e = log_entries l ! (i - base l - 1)"
  by (auto simp: view_def)

lemma view_index: "log_wf l \<Longrightarrow> view l i = Some e \<Longrightarrow> unat (entry_index e) = i"
  by (auto simp: view_Some_iff log_wf_def log_end_def contiguous_nth)

lemma view_term_of: "view l i = Some e \<Longrightarrow> entry_term e = term_of l i"
  by (auto simp: view_Some_iff term_of_def)

lemma first_index_wf:
  assumes "log_wf l"
  obtains f where "first_index l = Ok f" "unat f = base l + 1"
proof (cases "log_snapshot l")
  case None
  then show ?thesis using that [of 1] by (simp add: first_index_def)
next
  case (Some r)
  have "unat (record_index r) + 1 < 2 ^ 64"
    using log_wf_bound [OF assms] Some by (simp add: log_end_def)
  then show ?thesis
    using that Some by (cases "record_index r" rule: checked_next_cases) (auto simp: first_index_def)
qed

lemma unat_last_index: "log_wf l \<Longrightarrow> unat (last_index l) = log_end l"
  by (auto simp: last_index_def log_wf_def log_end_def contiguous_last)

lemma next_after_last_wf:
  assumes "log_wf l"
  obtains n where "next_after_last l = Ok n" "unat n = log_end l + 1"
  using log_wf_bound [OF assms] unat_last_index [OF assms]
  by (cases "last_index l" rule: checked_next_cases) (auto simp: next_after_last_def)

lemma entry_at_wf: 
  assumes "log_wf l"
  shows "entry_at l i = Ok (view l (unat i))"
proof -
  obtain f where f: "first_index l = Ok f" "unat f = base l + 1"
    using assms by (rule first_index_wf)
  show ?thesis
  proof (cases "i < f")
    case True
    then show ?thesis using f by (auto simp: entry_at_def view_def u64_less_iff)
  next
    case False
    then have "f \<le> i" by simp
    then have "unat (i - f) = unat i - base l - 1" and "base l < unat i"
      using f(2) by (auto simp: unat_sub_u64 u64_le_iff)
    then show ?thesis
      using False f by (auto simp: entry_at_def view_def usize_try_from_def log_end_def)
  qed
qed

lemma log_term_at_wf:
  assumes "log_wf l"
  shows "log_term_at l i =
    (if unat i < base l then Err (Compacted i (boundary_index (log_snapshot l)))
     else if unat i \<le> log_end l then Ok (term_of l (unat i))
     else Err (Unavailable i (last_index l)))"
proof (cases "log_snapshot l")
  case None
  then have "unat i = 0 \<longleftrightarrow> i = 0" by (simp add: unat_eq_zero)
  then show ?thesis
    using None by (auto simp: log_term_at_def entry_at_wf [OF assms] view_def term_of_def log_end_def)
next
  case (Some r)
  then show ?thesis
    by (auto simp: log_term_at_def entry_at_wf [OF assms] view_def term_of_def u64_less_iff
        u64_eq_iff log_end_def)
qed

lemma log_term_at_Ok_iff:
  "log_wf l \<Longrightarrow> log_term_at l i = Ok t \<longleftrightarrow>
     base l \<le> unat i \<and> unat i \<le> log_end l \<and> t = term_of l (unat i)"
  by (auto simp: log_term_at_wf)

section \<open>The validator\<close>

lemma continuity_loop_Ok_iff:
  assumes "unat expected = b + 1"
  shows "continuity_loop expected t es = Ok () \<longleftrightarrow> contiguous_from b es \<and> terms_from t es"
  using assms
proof (induction expected t es arbitrary: b rule: continuity_loop.induct)
  case (1 expected t)
  then show ?case using u64_bound [of expected] by auto
next
  case (2 expected t e es)
  have idx: "entry_index e = expected \<longleftrightarrow> unat (entry_index e) = b + 1"
    using "2.prems" by (simp add: u64_eq_iff)
  show ?case
  proof (cases expected rule: checked_next_cases)
    case (Next y)
    then have "unat y = (b + 1) + 1" using "2.prems" by simp
    with 2 Next idx show ?thesis by (auto simp: contiguous_Cons terms_Cons)
  next
    case Over
    then have "\<not> contiguous_from (b + 1) es"
      using "2.prems" by (auto dest: contiguous_bound)
    with Over idx show ?thesis by (auto simp: contiguous_Cons)
  qed
qed

lemma term_before_first:
  assumes "first_index l = Ok f"
  shows "term_before l f = Ok (boundary_term (log_snapshot l)) \<and> unat f = base l + 1"
proof (cases "log_snapshot l")
  case None
  then show ?thesis using assms by (simp add: first_index_def term_before_def)
next
  case (Some r)
  then have "unat f = unat (record_index r) + 1"
    using assms by (cases "record_index r" rule: checked_next_cases) (auto simp: first_index_def)
  then have "(sub_u64 f 1 :: (u64, log_error) result) = Ok (record_index r)"
    by (auto simp: sub_u64_def u64_less_iff u64_eq_iff unat_sub_u64 u64_le_iff)
  then show ?thesis
    using Some \<open>unat f = _\<close> by (auto simp: term_before_def log_term_at_def)
qed

lemma log_validate_iff: "log_validate l = Ok () \<longleftrightarrow> log_wf l"
proof -
  have "log_validate l = Ok () \<longleftrightarrow>
      (\<exists>f. first_index l = Ok f \<and> contiguous_from (base l) (log_entries l) \<and>
         terms_from (boundary_term (log_snapshot l)) (log_entries l))"
    using term_before_first
    by (fastforce simp: log_validate_def rbind_Ok_iff validate_continuity_def continuity_loop_Ok_iff)
  also have "\<dots> \<longleftrightarrow> log_wf l"
    using first_index_wf [of l] by (auto simp: log_wf_def)
  finally show ?thesis .
qed

lemma validate_continuity_iff:
  assumes wf: "log_wf l" and f: "unat f = b + 1" and b: "base l \<le> b" "b \<le> log_end l"
  shows "validate_continuity l es f = Ok () \<longleftrightarrow> contiguous_from b es \<and> terms_from (term_of l b) es"
proof -
  have "term_before l f = Ok (term_of l b)"
  proof (cases "f = 1 \<and> log_snapshot l = None")
    case True
    then show ?thesis using f by (simp add: term_before_def term_of_def)
  next
    case False
    have "(sub_u64 f 1 :: (u64, log_error) result) = Ok (f - 1)" and "unat (f - 1) = b"
      using f by (auto simp: sub_u64_def u64_less_iff unat_sub_u64 u64_le_iff)
    then show ?thesis
      using False b by (auto simp: term_before_def log_term_at_wf [OF wf])
  qed
  then show ?thesis
    by (simp add: validate_continuity_def continuity_loop_Ok_iff [OF f])
qed

section \<open>Append\<close>

lemma term_of_last:
  "term_of l (log_end l) = (if log_entries l = [] then boundary_term (log_snapshot l)
     else entry_term (last (log_entries l)))"
  by (auto simp: term_of_def log_end_def last_conv_nth)

lemma log_append_Ok_iff:
  assumes wf: "log_wf l"
  shows "log_append l es = Ok l' \<longleftrightarrow>
    (es = [] \<and> l' = l) \<or>
    (es \<noteq> [] \<and> contiguous_from (log_end l) es \<and> terms_from (term_of l (log_end l)) es \<and>
     l' = l\<lparr>log_entries := log_entries l @ es,
            log_unstable := mark_range (log_unstable l) (entry_index (hd es)) (entry_index (last es))\<rparr>)"
proof -
  obtain n where n: "next_after_last l = Ok n" "unat n = log_end l + 1"
    using wf by (rule next_after_last_wf)
  show ?thesis
    using validate_continuity_iff [OF wf n(2), of es]
    by (auto simp: log_append_def n(1) rbind_Ok_iff)
qed

lemma log_append_wf: "log_wf l \<Longrightarrow> log_append l es = Ok l' \<Longrightarrow> log_wf l'"
  by (cases "log_entries l = []")
     (auto simp: log_append_Ok_iff log_wf_def contiguous_append terms_append term_of_last log_end_def [symmetric],
      simp add: log_end_def)

lemma log_append_view:
  assumes "log_wf l" "log_append l es = Ok l'"
  shows "view l' i = (if i \<le> log_end l then view l i
      else if i \<le> log_end l + length es then Some (es ! (i - log_end l - 1)) else None)"
proof -
  have "log_entries l' = log_entries l @ es" "base l' = base l"
    using assms by (auto simp: log_append_Ok_iff)
  then show ?thesis by (auto simp: view_def log_end_def nth_append)
qed

section \<open>Conflict replacement\<close>

definition holds :: "'c raft_log \<Rightarrow> 'c entry \<Rightarrow> bool" where
  "holds l e = (case view l (unat (entry_index e)) of
     None \<Rightarrow> False | Some e' \<Rightarrow> entry_term e' = entry_term e)"

lemma find_conflict_above:
  assumes wf: "log_wf l" and "base l < unat (entry_index e)"
  shows "find_conflict l k (e # es) =
    (case view l (unat (entry_index e)) of
       Some e' \<Rightarrow> if entry_term e' = entry_term e then find_conflict l (Suc k) es else Ok (Some k)
     | None \<Rightarrow> rbind (next_after_last l) (\<lambda>expected.
         if entry_index e \<noteq> expected then Err (NonContiguousEntries expected (entry_index e))
         else Ok (Some k)))"
  using assms(2)
  by (cases "log_snapshot l") (auto simp: Let_def entry_at_wf [OF wf] u64_less_iff)

declare find_conflict.simps(2) [simp del]

lemma find_conflict_wf:
  assumes wf: "log_wf l" and "contiguous_from b es" "base l \<le> b" "b \<le> log_end l"
  shows "find_conflict l k es =
    Ok (if \<forall>e \<in> set es. holds l e then None else Some (k + length (takeWhile (holds l) es)))"
  using assms(2-)
proof (induction es arbitrary: b k)
  case Nil
  then show ?case by simp
next
  case (Cons e es)
  obtain n where n: "next_after_last l = Ok n" "unat n = log_end l + 1"
    using wf by (rule next_after_last_wf)
  have e: "unat (entry_index e) = b + 1" and es: "contiguous_from (b + 1) es"
    using Cons.prems by (auto simp: contiguous_Cons)
  have unfold: "find_conflict l k (e # es) =
    (case view l (b + 1) of
       Some e' \<Rightarrow> if entry_term e' = entry_term e then find_conflict l (Suc k) es else Ok (Some k)
     | None \<Rightarrow> if entry_index e \<noteq> n then Err (NonContiguousEntries n (entry_index e))
         else Ok (Some k))"
    using find_conflict_above [OF wf, of e k es] e n Cons.prems by (simp split: option.split)
  show ?case
  proof (cases "view l (b + 1)")
    case None
    then have "b = log_end l" using Cons.prems by (simp add: view_None_iff)
    then have "entry_index e = n" using e n by (simp add: u64_eq_iff)
    then show ?thesis
      using None e unfold by (simp add: holds_def)
  next
    case (Some e')
    then have "b + 1 \<le> log_end l" by (simp add: view_Some_iff)
    then have "find_conflict l (Suc k) es = Ok (if \<forall>e \<in> set es. holds l e then None
        else Some (Suc k + length (takeWhile (holds l) es)))"
      using Cons.IH es Cons.prems by simp
    then show ?thesis
      using Some e unfold by (simp add: holds_def)
  qed
qed

text \<open>The result of a successful replacement: nothing changes, or the log is cut
  after the entries it already holds and continued with the rest of the batch.\<close>

definition splice_log :: "'c raft_log \<Rightarrow> nat \<Rightarrow> 'c entry list \<Rightarrow> 'c raft_log" where
  "splice_log l b new = l\<lparr>log_entries := take (b - base l) (log_entries l) @ new,
     log_unstable := mark_range (truncate_from (log_unstable l) (entry_index (hd new)))
       (entry_index (hd new)) (entry_index (last new))\<rparr>"

lemma splice_view:
  assumes "base l \<le> b" "b \<le> log_end l"
  shows "view (splice_log l b new) i = (if i \<le> b then view l i
      else if i \<le> b + length new then Some (new ! (i - b - 1)) else None)"
    "log_end (splice_log l b new) = b + length new"
  using assms by (auto simp: view_def splice_log_def log_end_def nth_append)

lemma splice_wf:
  assumes wf: "log_wf l" and b: "base l \<le> b" "b \<le> log_end l"
    and new: "contiguous_from b new" "terms_from (term_of l b) new"
  shows "log_wf (splice_log l b new)"
proof -
  let ?k = "b - base l" and ?es = "log_entries l"
  have k: "?k \<le> length ?es" "base l + length (take ?k ?es) = b"
    using b by (auto simp: log_end_def)
  have last_term: "(if take ?k ?es = [] then boundary_term (log_snapshot l)
      else entry_term (last (take ?k ?es))) = term_of l b"
    using b k by (auto simp: term_of_def last_conv_nth log_end_def min_def)
  have "contiguous_from (base l) (take ?k ?es @ new)"
    using wf new(1) k by (simp add: log_wf_def contiguous_append contiguous_take)
  moreover have "terms_from (boundary_term (log_snapshot l)) (take ?k ?es @ new)"
    unfolding terms_append last_term using wf new(2) by (simp add: log_wf_def terms_take)
  ultimately show ?thesis by (simp add: log_wf_def splice_log_def)
qed

lemma held_prefix:
  assumes "contiguous_from b es" "b \<le> log_end l"
  shows "b + length (takeWhile (holds l) es) \<le> log_end l"
proof (cases "takeWhile (holds l) es" rule: rev_cases)
  case Nil
  then show ?thesis using assms by simp
next
  case (snoc xs e)
  have "contiguous_from b (takeWhile (holds l) es @ dropWhile (holds l) es)"
    using assms(1) by simp
  then have "unat (entry_index e) = b + length xs + 1"
    using snoc by (auto simp: contiguous_append contiguous_Cons)
  moreover have "holds l e"
    using snoc set_takeWhileD [of e "holds l" es] by auto
  ultimately show ?thesis
    using snoc by (auto simp: holds_def view_Some_iff split: option.splits)
qed

lemma held_terms:
  assumes wf: "log_wf l" and es: "contiguous_from b es" "terms_from (term_of l b) es"
  shows "let n = length (takeWhile (holds l) es) in
    contiguous_from (b + n) (drop n es) \<and> terms_from (term_of l (b + n)) (drop n es)"
proof -
  let ?held = "takeWhile (holds l) es" and ?rest = "dropWhile (holds l) es"
  have split: "es = ?held @ ?rest" by simp
  have rest: "drop (length ?held) es = ?rest" by (simp add: dropWhile_eq_drop)
  have c: "contiguous_from b ?held" "contiguous_from (b + length ?held) ?rest"
    using es(1) by (metis contiguous_append split)+
  have t: "terms_from (if ?held = [] then term_of l b else entry_term (last ?held)) ?rest"
    using es(2) by (metis split terms_append)
  have "terms_from (term_of l (b + length ?held)) ?rest"
  proof (cases "?held = []")
    case True
    then show ?thesis using t by simp
  next
    case False
    then have "holds l (last ?held)"
      using set_takeWhileD [of "last ?held" "holds l" es] by simp
    moreover have "unat (entry_index (last ?held)) = b + length ?held"
      using c(1) False by (rule contiguous_last)
    ultimately have "term_of l (b + length ?held) = entry_term (last ?held)"
      by (auto simp: holds_def dest: view_term_of split: option.splits)
    then show ?thesis using t False by simp
  qed
  then show ?thesis using c(2) unfolding rest Let_def by simp
qed

lemma replace_conflict_Ok:
  assumes wf: "log_wf l" and es: "contiguous_from b es" and b: "base l \<le> b"
    and ok: "replace_conflict l es = Ok l'" and "es \<noteq> []"
  shows "b \<le> log_end l \<and> terms_from (term_of l b) es \<and>
    ((\<forall>e \<in> set es. holds l e) \<and> l' = l \<or>
     (let n = length (takeWhile (holds l) es) in
       n < length es \<and> unat (log_committed l) \<le> b + n \<and> l' = splice_log l (b + n) (drop n es)))"
proof -
  obtain x where x: "next_after_last l = Ok x" "unat x = log_end l + 1"
    using wf by (rule next_after_last_wf)
  obtain f where f: "first_index l = Ok f" "unat f = base l + 1"
    using wf by (rule first_index_wf)
  have hd_idx: "unat (entry_index (hd es)) = b + 1"
    using es \<open>es \<noteq> []\<close> by (cases es) (auto simp: contiguous_Cons)
  have in_log: "b \<le> log_end l"
    using ok x hd_idx \<open>es \<noteq> []\<close> by (auto simp: replace_conflict_def u64_less_iff split: if_splits)
  have terms: "terms_from (term_of l b) es"
    using ok x \<open>es \<noteq> []\<close> validate_continuity_iff [OF wf hd_idx b in_log, of es]
    by (auto simp: replace_conflict_def rbind_Ok_iff split: if_splits)
  show ?thesis
  proof (cases "\<forall>e \<in> set es. holds l e")
    case True
    then show ?thesis
      using ok x \<open>es \<noteq> []\<close> in_log terms
      by (auto simp: replace_conflict_def rbind_Ok_iff find_conflict_wf [OF wf es b in_log] split: if_splits)
  next
    case False
    let ?n = "length (takeWhile (holds l) es)"
    have n: "?n < length es"
      using False by (metis length_takeWhile_le le_neq_implies_less takeWhile_eq_all_conv takeWhile_eq_take take_all)
    have at_idx: "unat (entry_index (es ! ?n)) = b + 1 + ?n"
      using es n by (rule contiguous_nth)
    have "hd (drop ?n es) = es ! ?n" "last (drop ?n es) = last es"
      using n by (auto simp: hd_drop_conv_nth last_drop)
    moreover have "unat (entry_index (es ! ?n) - f) = b + ?n - base l" "\<not> entry_index (es ! ?n) < f"
      using at_idx f b by (auto simp: unat_sub_u64 u64_le_iff u64_less_iff)
    ultimately have "l' = splice_log l (b + ?n) (drop ?n es) \<and> unat (log_committed l) \<le> b + ?n"
      using ok x f at_idx False \<open>es \<noteq> []\<close>
      by (auto simp: replace_conflict_def rbind_Ok_iff find_conflict_wf [OF wf es b in_log] Let_def
          sub_u64_def usize_try_from_def splice_log_def u64_le_iff split: if_splits)
    then show ?thesis using n in_log terms by (simp add: Let_def)
  qed
qed

section \<open>Merging a leader's batch\<close>

lemma first_change_wf:
  assumes wf: "log_wf l" and "\<forall>e \<in> set es. base l < unat (entry_index e)"
  shows "first_change l es =
    Ok (if \<forall>e \<in> set es. holds l e then None else Some (length (takeWhile (holds l) es)))"
  using assms(2)
proof (induction es)
  case (Cons e es)
  have "log_term_at l (entry_index e) = (case view l (unat (entry_index e)) of
      None \<Rightarrow> Err (Unavailable (entry_index e) (last_index l)) | Some e' \<Rightarrow> Ok (entry_term e'))"
    using Cons.prems by (auto simp: log_term_at_wf [OF wf] view_def term_of_def)
  then show ?case
    using Cons by (cases "view l (unat (entry_index e))") (auto simp: holds_def [of l e])
qed simp

lemma contiguous_above: "contiguous_from b es \<Longrightarrow> e \<in> set es \<Longrightarrow> b < unat (entry_index e)"
  by (auto simp: in_set_conv_nth contiguous_nth)

lemma merge_from_leader_Ok:
  assumes wf: "log_wf l" and es: "contiguous_from b es" and b: "base l \<le> b"
    and ok: "merge_from_leader l es = Ok (l', appended)"
  shows "(\<forall>e \<in> set es. holds l e) \<and> l' = l \<and> appended = [] \<or>
    (\<exists>n < length es. n = length (takeWhile (holds l) es) \<and> b + n \<le> log_end l \<and>
      unat (log_committed l) \<le> b + n \<and> terms_from (term_of l (b + n)) (drop n es) \<and>
      appended = drop n es \<and> l' = splice_log l (b + n) (drop n es))"
proof (cases "\<forall>e \<in> set es. holds l e")
  case True
  have "first_change l es = Ok None"
    using True first_change_wf [OF wf, of es] contiguous_above [OF es] b by fastforce
  then show ?thesis using True ok by (simp add: merge_from_leader_def)
next
  case False
  let ?n = "length (takeWhile (holds l) es)"
  have n: "?n < length es"
    using False by (metis length_takeWhile_le le_neq_implies_less takeWhile_eq_all_conv takeWhile_eq_take take_all)
  then have rest: "drop ?n es \<noteq> []" and unheld: "\<not> holds l (es ! ?n)"
    by (auto simp: nth_length_takeWhile)
  have con: "contiguous_from (b + ?n) (drop ?n es)"
    using es n by (simp add: contiguous_drop)
  have "\<forall>e \<in> set es. base l < unat (entry_index e)"
    using contiguous_above [OF es] b by fastforce
  then have "first_change l es = Ok (Some ?n)"
    using False first_change_wf [OF wf, of es] by auto
  then have rep: "replace_conflict l (drop ?n es) = Ok l'" "appended = drop ?n es"
    using ok by (auto simp: merge_from_leader_def rbind_Ok_iff Let_def)
  have stop: "takeWhile (holds l) (drop ?n es) = []" "\<not> (\<forall>e \<in> set (drop ?n es). holds l e)"
    using unheld n by (auto simp: takeWhile_eq_Nil_iff hd_drop_conv_nth in_set_conv_nth) 
      (metis Cons_nth_drop_Suc list.set_intros(1))
  show ?thesis
    using replace_conflict_Ok [OF wf con _ rep(1) rest] b stop rep(2) n
    by (intro disjI2 exI [of _ ?n]) (simp add: Let_def del: length_takeWhile_le)
qed

lemma merge_wf:
  "log_wf l \<Longrightarrow> contiguous_from b es \<Longrightarrow> base l \<le> b \<Longrightarrow>
     merge_from_leader l es = Ok (l', appended) \<Longrightarrow> log_wf l'"
  by (frule (3) merge_from_leader_Ok) (auto intro!: splice_wf contiguous_drop)

section \<open>Compaction and snapshot installation\<close>

lemma drain_suffix:
  assumes "log_wf l" "base l \<le> b" "b \<le> log_end l"
  shows "contiguous_from b (drop (b - base l) (log_entries l))"
    "terms_from (term_of l b) (drop (b - base l) (log_entries l))"
proof -
  let ?k = "b - base l" and ?es = "log_entries l"
  have k: "?k \<le> length ?es" and b: "base l + ?k = b" using assms by (auto simp: log_end_def)
  show "contiguous_from b (drop ?k ?es)"
    using contiguous_drop [of "base l" ?es ?k] assms(1) k b by (simp add: log_wf_def)
  have "terms_from (boundary_term (log_snapshot l)) (take ?k ?es @ drop ?k ?es)"
    using assms(1) by (simp add: log_wf_def)
  then have "terms_from (if take ?k ?es = [] then boundary_term (log_snapshot l)
      else entry_term (last (take ?k ?es))) (drop ?k ?es)"
    by (simp only: terms_append)
  moreover have "(if take ?k ?es = [] then boundary_term (log_snapshot l)
      else entry_term (last (take ?k ?es))) = term_of l b"
    using k b assms(2) by (auto simp: term_of_def last_conv_nth min_def)
  ultimately show "terms_from (term_of l b) (drop ?k ?es)" by simp
qed

definition rebase :: "'c raft_log \<Rightarrow> snapshot_record \<Rightarrow> 'c raft_log" where
  "rebase l r = l\<lparr>log_entries := drop (unat (record_index r) - base l) (log_entries l),
     log_snapshot := Some r, log_unstable := discard_through (log_unstable l) (record_index r)\<rparr>"

lemma rebase_wf:
  assumes "log_wf l" "base l \<le> unat (record_index r)" "unat (record_index r) \<le> log_end l"
    and "record_term r = term_of l (unat (record_index r))"
  shows "log_wf (rebase l r)"
    "view (rebase l r) i = (if unat (record_index r) < i then view l i else None)"
    "log_end (rebase l r) = log_end l"
  using assms drain_suffix [OF assms(1-3)]
  by (auto simp: log_wf_def rebase_def view_def log_end_def)

lemma compact_Ok_iff:
  assumes wf: "log_wf l"
  shows "compact l r = Ok l' \<longleftrightarrow>
    record_index r \<le> log_committed l \<and> base l \<le> unat (record_index r) \<and>
    unat (record_index r) \<le> log_end l \<and> record_term r = term_of l (unat (record_index r)) \<and>
    l' = rebase l r"
proof -
  obtain f where f: "first_index l = Ok f" "unat f = base l + 1"
    using wf by (rule first_index_wf)
  show ?thesis
  proof (cases "unat (record_index r) \<le> log_end l")
    case True
    then obtain y where y: "checked_next (record_index r) = Ok y" "unat y = unat (record_index r) + 1"
      using log_wf_bound [OF wf] by (cases "record_index r" rule: checked_next_cases) auto
    have "f < y \<Longrightarrow> unat (y - f) = unat (record_index r) - base l"
      using y f by (simp add: unat_sub_u64 u64_le_iff u64_less_iff)
    moreover have "\<not> f < y \<Longrightarrow> unat (record_index r) - base l = 0"
      using y f by (simp add: u64_less_iff)
    moreover have "min (unat (record_index r) - base l) (length (log_entries l)) =
        unat (record_index r) - base l"
      using True by (simp add: log_end_def)
    ultimately show ?thesis
      using True f y by (auto simp: compact_def Let_def rbind_Ok_iff log_term_at_Ok_iff [OF wf]
          usize_try_from_def rebase_def not_less split: if_splits)
  next
    case False
    then show ?thesis
      by (auto simp: compact_def Let_def rbind_Ok_iff log_term_at_Ok_iff [OF wf] split: if_splits)
  qed
qed

definition wipe :: "'c raft_log \<Rightarrow> snapshot_record \<Rightarrow> 'c raft_log" where
  "wipe l r = l\<lparr>log_entries := [], log_snapshot := Some r,
     log_unstable := discard_through (log_unstable l) (record_index r)\<rparr>"

definition boundary_held :: "'c raft_log \<Rightarrow> snapshot_record \<Rightarrow> bool" where
  "boundary_held l r \<longleftrightarrow> base l \<le> unat (record_index r) \<and> unat (record_index r) \<le> log_end l \<and>
     record_term r = term_of l (unat (record_index r))"

lemma install_snapshot_eq:
  assumes wf: "log_wf l"
  shows "install_snapshot l r =
    Ok ((if boundary_held l r then rebase l r else wipe l r)
      \<lparr>log_committed := max (record_index r) (log_committed l)\<rparr>)"
proof -
  obtain f where f: "first_index l = Ok f" "unat f = base l + 1"
    using wf by (rule first_index_wf)
  have max: "(if record_index r > log_committed l then record_index r else log_committed l) =
      max (record_index r) (log_committed l)"
    by (auto simp: max_def)
  show ?thesis
  proof (cases "boundary_held l r")
    case True
    then have "unat (record_index r) + 1 < 2 ^ 64"
      using log_wf_bound [OF wf] by (simp add: boundary_held_def)
    then have drain: "unat (saturating_sub (saturating_add (record_index r) 1) f) =
        unat (record_index r) - base l"
      using f by (simp add: unat_saturating_sub unat_saturating_add)
    have "min (unat (record_index r) - base l) (length (log_entries l)) =
        unat (record_index r) - base l"
      using True by (auto simp: boundary_held_def log_end_def)
    moreover have "log_term_at l (record_index r) = Ok (record_term r)"
      using True by (simp add: log_term_at_Ok_iff [OF wf] boundary_held_def)
    ultimately show ?thesis
      using True f drain by (simp add: install_snapshot_def usize_try_from_def rebase_def max Let_def)
  next
    case False
    then have "log_term_at l (record_index r) \<noteq> Ok (record_term r)"
      by (auto simp: log_term_at_Ok_iff [OF wf] boundary_held_def)
    moreover have "log_term_at l (record_index r) \<noteq> Panic"
      by (simp add: log_term_at_wf [OF wf])
    ultimately show ?thesis
      using False by (auto simp: install_snapshot_def wipe_def Let_def max split: result.splits)
  qed
qed

section \<open>Queries\<close>

lemma find_nth:
  "find P xs = Some x \<Longrightarrow> \<exists>i < length xs. x = xs ! i \<and> P (xs ! i) \<and> (\<forall>j < i. \<not> P (xs ! j))"
  by (auto simp: find_Some_iff)

lemma find_rev_nth:
  assumes "find P (rev xs) = Some x"
  shows "\<exists>i < length xs. x = xs ! i \<and> P (xs ! i) \<and> (\<forall>j < length xs. i < j \<longrightarrow> \<not> P (xs ! j))"
proof -
  obtain i where i: "i < length xs" "x = rev xs ! i" "P (rev xs ! i)" "\<forall>j < i. \<not> P (rev xs ! j)"
    using find_nth [OF assms] by auto
  have "\<not> P (xs ! j)" if "j < length xs" "length xs - 1 - i < j" for j
    using i(4) [rule_format, of "length xs - 1 - j"] that i(1) by (simp add: rev_nth)
  then show ?thesis
    using i by (intro exI [of _ "length xs - 1 - i"]) (auto simp: rev_nth)
qed

text \<open>The lowest index whose term can be asked: the snapshot boundary, or index
  one when there is no snapshot (index zero is virtual).\<close>

definition lowest :: "'c raft_log \<Rightarrow> nat" where
  "lowest l = (if log_snapshot l = None then 1 else base l)"

lemma term_of_entry: "k < length (log_entries l) \<Longrightarrow> term_of l (base l + 1 + k) = entry_term (log_entries l ! k)"
  by (simp add: term_of_def)

lemma entry_position:
  assumes "base l < i" "i \<le> log_end l"
  obtains k where "k < length (log_entries l)" "i = base l + 1 + k"
proof (rule that [of "i - base l - 1"])
  show "i - base l - 1 < length (log_entries l)" "i = base l + 1 + (i - base l - 1)"
    using assms by (auto simp: log_end_def)
qed

lemma first_index_of_term_spec:
  assumes wf: "log_wf l" and "first_index_of_term l t = Some i"
  shows "lowest l \<le> unat i \<and> unat i \<le> log_end l \<and> term_of l (unat i) = t \<and>
    (\<forall>j. lowest l \<le> j \<longrightarrow> j < unat i \<longrightarrow> term_of l j \<noteq> t)"
proof (cases "\<exists>r. log_snapshot l = Some r \<and> record_term r = t")
  case True
  then obtain r where r: "log_snapshot l = Some r" "record_term r = t" by blast
  then have "i = record_index r" using assms(2) by (simp add: first_index_of_term_def)
  then show ?thesis using r by (simp add: lowest_def term_of_def log_end_def)
next
  case False
  then obtain e where e: "find (\<lambda>e. entry_term e = t) (log_entries l) = Some e" "i = entry_index e"
    using assms by (auto simp: first_index_of_term_def split: option.splits if_splits)
  then obtain k where k: "k < length (log_entries l)" "e = log_entries l ! k" "entry_term e = t"
      "\<forall>j < k. entry_term (log_entries l ! j) \<noteq> t"
    using find_nth [OF e(1)] by auto
  have i: "unat i = base l + 1 + k"
    using k e wf by (auto simp: log_wf_def contiguous_nth)
  have "term_of l j \<noteq> t" if j: "lowest l \<le> j" "j < unat i" for j
  proof (cases "j = base l")
    case True
    then show ?thesis using False j by (auto simp: lowest_def term_of_def split: if_splits)
  next
    case ne: False
    then have "base l < j" using j by (auto simp: lowest_def split: if_splits)
    then show ?thesis using k(1,4) j(2) i by (auto simp: term_of_def)
  qed
  then show ?thesis
    using i k by (auto simp: term_of_def lowest_def log_end_def)
qed

lemma last_index_of_term_spec:
  assumes wf: "log_wf l" and "last_index_of_term l t = Some i"
  shows "lowest l \<le> unat i \<and> unat i \<le> log_end l \<and> term_of l (unat i) = t \<and>
    (\<forall>j. unat i < j \<longrightarrow> j \<le> log_end l \<longrightarrow> term_of l j \<noteq> t)"
proof (cases "find (\<lambda>e. entry_term e = t) (rev (log_entries l))")
  case None
  then have "\<forall>e \<in> set (log_entries l). entry_term e \<noteq> t"
    by (simp add: find_None_iff)
  then show ?thesis
    using assms None
    by (auto simp: last_index_of_term_def lowest_def term_of_def log_end_def split: option.splits if_splits)
next
  case (Some e)
  then obtain k where k: "k < length (log_entries l)" "e = log_entries l ! k" "entry_term e = t"
      "\<forall>j < length (log_entries l). k < j \<longrightarrow> entry_term (log_entries l ! j) \<noteq> t"
    using find_rev_nth [OF Some] by auto
  have i: "unat i = base l + 1 + k"
    using k Some assms by (auto simp: last_index_of_term_def log_wf_def contiguous_nth)
  have "term_of l j \<noteq> t" if "unat i < j" "j \<le> log_end l" for j
    using that i k(4) by (auto simp: term_of_def log_end_def)
  then show ?thesis using i k by (auto simp: term_of_def lowest_def log_end_def)
qed

lemma log_range_Ok_iff:
  assumes wf: "log_wf l"
  shows "log_range l start stop = Ok es \<longleftrightarrow>
    base l < unat start \<and> start \<le> stop \<and> unat stop \<le> log_end l \<and>
    es = take (unat stop + 1 - unat start) (drop (unat start - base l - 1) (log_entries l))"
proof -
  obtain f where f: "first_index l = Ok f" "unat f = base l + 1"
    using wf by (rule first_index_wf)
  have off: "unat (x - f) = unat x - base l - 1" if "\<not> x < f" for x
    using that f(2) by (simp add: unat_sub_u64 not_less)
  show ?thesis
  proof (cases "start \<le> stop \<and> \<not> start < f \<and> \<not> last_index l < stop")
    case True
    then have "\<not> stop < f" by auto
    then show ?thesis
      using True f off [of start] off [of stop] unat_last_index [OF wf]
      by (auto simp: log_range_def rbind_Ok_iff usize_try_from_def u64_less_iff u64_le_iff log_end_def not_less)
  next
    case False
    then show ?thesis
      using f unat_last_index [OF wf]
      by (auto simp: log_range_def rbind_Ok_iff u64_less_iff u64_le_iff not_less split: if_splits)
  qed
qed

lemma log_range_nth:
  assumes "log_wf l" "log_range l start stop = Ok es"
  shows "length es = unat stop + 1 - unat start"
    "k < length es \<Longrightarrow> view l (unat start + k) = Some (es ! k)"
  using assms by (auto simp: log_range_Ok_iff view_def log_end_def u64_le_iff)

section \<open>The unstable window as a set\<close>

definition window :: "unstable \<Rightarrow> log_index set" where
  "window u = (case (un_from u, un_through u) of (Some f, Some t) \<Rightarrow> {f..t} | _ \<Rightarrow> {})"

definition window_wf :: "unstable \<Rightarrow> bool" where
  "window_wf u \<longleftrightarrow> (case (un_from u, un_through u) of
     (None, None) \<Rightarrow> True | (Some f, Some t) \<Rightarrow> f \<le> t | _ \<Rightarrow> False)"

lemma window_cases:
  assumes "window_wf u"
  obtains (empty) "un_from u = None" "un_through u = None"
  | (range) f t where "un_from u = Some f" "un_through u = Some t" "f \<le> t"
  using assms by (auto simp: window_wf_def split: option.splits)

lemma mark_range_window:
  assumes "window_wf u" "f \<le> t"
  shows "window_wf (mark_range u f t)" "window u \<union> {f..t} \<subseteq> window (mark_range u f t)"
    "\<forall>i \<in> window (mark_range u f t). \<exists>a \<in> window u \<union> {f..t}. \<exists>b \<in> window u \<union> {f..t}. a \<le> i \<and> i \<le> b"
proof -
  show "window_wf (mark_range u f t)"
    using assms by (cases u rule: window_cases) (auto simp: window_wf_def mark_range_def min_le_iff_disj le_max_iff_disj)
  show "window u \<union> {f..t} \<subseteq> window (mark_range u f t)"
    using assms by (cases u rule: window_cases) (auto simp: window_def mark_range_def min_le_iff_disj le_max_iff_disj)
  show "\<forall>i \<in> window (mark_range u f t). \<exists>a \<in> window u \<union> {f..t}. \<exists>b \<in> window u \<union> {f..t}. a \<le> i \<and> i \<le> b"
    using assms(1)
  proof (cases u rule: window_cases)
    case empty
    then show ?thesis using assms(2) by (auto simp: window_def mark_range_def)
  next
    case (range f' t')
    have "min f' f \<in> window u \<union> {f..t}" "max t' t \<in> window u \<union> {f..t}"
      using range assms(2) by (auto simp: window_def min_def max_def)
    then show ?thesis
      using range by (auto simp: window_def mark_range_def)
  qed
qed

lemma u64_le_pred: "0 < f \<Longrightarrow> (i :: u64) \<le> f - 1 \<longleftrightarrow> i < f"
  by (auto simp: u64_le_iff u64_less_iff unat_sub_u64)

lemma truncate_from_window:
  assumes "window_wf u"
  shows "window_wf (truncate_from u f) \<and> window (truncate_from u f) = window u - {f..}"
  using assms
proof (cases u rule: window_cases)
  case empty
  then show ?thesis by (simp add: truncate_from_def window_wf_def window_def)
next
  case (range a b)
  consider "f \<le> a" | "a < f" "f \<le> b" | "b < f" by force
  then show ?thesis
  proof cases
    case 1
    then show ?thesis using range by (auto simp: truncate_from_def window_wf_def window_def)
  next
    case 2
    then have "0 < f" by (simp add: u64_less_iff)
    then have pred: "i \<le> f - 1 \<longleftrightarrow> i < f" for i by (rule u64_le_pred)
    have "truncate_from u f = u\<lparr>un_through := Some (f - 1)\<rparr>"
      using 2 range by (simp add: truncate_from_def)
    moreover have "{a..f - 1} = {a..<f}" using pred by (simp add: set_eq_iff)
    moreover have "{a..<f} = {a..b} - {f..}" using 2 by force
    ultimately show ?thesis
      using 2 range pred [of a] by (simp add: window_wf_def window_def)
  next
    case 3
    then have "{a..b} \<inter> {f..} = {}" by auto
    then show ?thesis
      using 3 range by (auto simp: truncate_from_def window_wf_def window_def)
  qed
qed

lemma u64_succ:
  assumes "i < (t :: u64)"
  obtains n where "checked_next i = Ok n" "\<And>j. n \<le> j \<longleftrightarrow> i < j"
proof (cases i rule: checked_next_cases)
  case (Next y)
  then show ?thesis using that by (simp add: u64_le_iff u64_less_iff Suc_le_eq)
next
  case Over
  then show ?thesis using assms u64_bound [of t] by (simp add: u64_less_iff)
qed

lemma mark_stable_window:
  assumes "window_wf u"
  shows "window_wf (mark_stable_through u i) \<and> window (mark_stable_through u i) = window u - {..i}"
  using assms
proof (cases u rule: window_cases)
  case empty
  then show ?thesis by (simp add: mark_stable_through_def window_wf_def window_def)
next
  case (range a b)
  consider "i < a" | "a \<le> i" "b \<le> i" | "a \<le> i" "i < b" by force
  then show ?thesis
  proof cases
    case 1
    then have "{a..b} - {..i} = {a..b}" by force
    then show ?thesis using 1 range by (simp add: mark_stable_through_def window_wf_def window_def)
  next
    case 2
    then have "{a..b} - {..i} = {}" by force
    then show ?thesis using 2 range by (simp add: mark_stable_through_def window_wf_def window_def)
  next
    case 3
    then obtain n where n: "checked_next i = Ok n" "\<And>j. n \<le> j \<longleftrightarrow> i < j"
      using u64_succ by blast
    have "{n..b} = {a..b} - {..i}" using n(2) 3 by force
    then show ?thesis using 3 range n by (simp add: mark_stable_through_def window_wf_def window_def)
  qed
qed

section \<open>Commit and stability\<close>

lemma commit_to_Ok_iff:
  "commit_to l i = Ok l' \<longleftrightarrow> i \<le> last_index l \<and> l' = l\<lparr>log_committed := max i (log_committed l)\<rparr>"
  by (cases l) (auto simp: commit_to_def max_def)

lemma mark_stable_Ok_iff:
  "mark_stable l i = Ok l' \<longleftrightarrow>
     i \<le> last_index l \<and> l' = l\<lparr>log_unstable := mark_stable_through (log_unstable l) i\<rparr>"
  by (auto simp: mark_stable_def)

lemma log_inv_committed [simp]:
  "log_wf (l\<lparr>log_committed := c\<rparr>) = log_wf l" "log_end (l\<lparr>log_committed := c\<rparr>) = log_end l"
  "view (l\<lparr>log_committed := c\<rparr>) = view l" "term_of (l\<lparr>log_committed := c\<rparr>) = term_of l"
  by (auto simp: log_wf_def log_end_def view_def term_of_def fun_eq_iff)

lemma log_inv_unstable [simp]:
  "log_wf (l\<lparr>log_unstable := u\<rparr>) = log_wf l" "log_end (l\<lparr>log_unstable := u\<rparr>) = log_end l"
  "view (l\<lparr>log_unstable := u\<rparr>) = view l" "term_of (l\<lparr>log_unstable := u\<rparr>) = term_of l"
  "log_inv (l\<lparr>log_unstable := u\<rparr>) = log_inv l"
  by (auto simp: log_wf_def log_end_def view_def term_of_def log_inv_def fun_eq_iff)

lemma commit_to_inv: "log_inv l \<Longrightarrow> commit_to l i = Ok l' \<Longrightarrow> log_inv l'"
  using unat_last_index [of l]
  by (auto simp: log_inv_def commit_to_Ok_iff u64_le_iff max_def)

lemma log_append_inv: "log_inv l \<Longrightarrow> log_append l es = Ok l' \<Longrightarrow> log_inv l'"
  using log_append_wf [of l es l']
  by (auto simp: log_inv_def log_append_Ok_iff log_end_def)

lemma merge_inv:
  assumes "log_inv l" "contiguous_from b es" "base l \<le> b" "merge_from_leader l es = Ok (l', appended)"
  shows "log_inv l'"
  using assms merge_wf [of l b es l' appended] merge_from_leader_Ok [of l b es l' appended]
  by (auto simp: log_inv_def splice_view) (auto simp: splice_log_def)

lemma compact_inv: "log_inv l \<Longrightarrow> compact l r = Ok l' \<Longrightarrow> log_inv l'"
  using rebase_wf [of l r]
  by (auto simp: log_inv_def compact_Ok_iff) (auto simp: rebase_def u64_le_iff)

text \<open>The batch itself need not be well-formed: what a merge appends has been
  validated, so a merge that succeeds keeps the invariant.\<close>

lemma validate_continuity_Ok:
  assumes wf: "log_wf l" and ok: "validate_continuity l es f = Ok ()" and upto: "unat f \<le> log_end l + 1"
  obtains b where "unat f = b + 1" "base l \<le> b" "b \<le> log_end l" "contiguous_from b es"
proof -
  obtain t where t: "term_before l f = Ok t"
    using ok by (auto simp: validate_continuity_def rbind_Ok_iff)
  have pos: "unat f \<noteq> 0"
  proof
    assume "unat f = 0"
    then have "f \<noteq> 1" "f < 1" by (auto simp: unat_eq_zero u64_less_iff)
    then show False using t by (simp add: term_before_def sub_u64_def)
  qed
  then have pred: "unat (f - 1) = unat f - 1"
    by (simp add: unat_sub_u64 u64_le_iff)
  have "base l \<le> unat f - 1"
    using t pred pos log_term_at_Ok_iff [OF wf, of "f - 1"]
    by (auto simp: term_before_def sub_u64_def rbind_Ok_iff split: if_splits)
  moreover have "unat f = (unat f - 1) + 1" "unat f - 1 \<le> log_end l"
    using pos upto by auto
  ultimately show ?thesis
    using that [of "unat f - 1"] validate_continuity_iff [OF wf, of f "unat f - 1" es] ok by blast
qed

lemma replace_conflict_cases:
  assumes wf: "log_wf l" and ok: "replace_conflict l es = Ok l'"
  obtains (Same) "l' = l"
  | (Splice) b new where "base l \<le> b" "b \<le> log_end l" "unat (log_committed l) \<le> b"
      "contiguous_from b new" "terms_from (term_of l b) new" "l' = splice_log l b new"
proof (cases "es = []")
  case True
  then show ?thesis using Same ok by (simp add: replace_conflict_def)
next
  case False
  obtain x where x: "next_after_last l = Ok x" "unat x = log_end l + 1"
    using wf by (rule next_after_last_wf)
  have "validate_continuity l es (entry_index (hd es)) = Ok ()" "unat (entry_index (hd es)) \<le> log_end l + 1"
    using ok False x by (auto simp: replace_conflict_def rbind_Ok_iff u64_less_iff split: if_splits)
  then obtain b where b: "base l \<le> b" "b \<le> log_end l" "contiguous_from b es"
    using validate_continuity_Ok [OF wf] by metis
  let ?n = "length (takeWhile (holds l) es)"
  have upto: "b + ?n \<le> log_end l" using b(3,2) by (rule held_prefix)
  note replaced = replace_conflict_Ok [OF wf b(3,1) ok False]
  then have rest: "contiguous_from (b + ?n) (drop ?n es)" "terms_from (term_of l (b + ?n)) (drop ?n es)"
    using held_terms [OF wf b(3)] by (auto simp: Let_def)
  from replaced show ?thesis
    using Same Splice [of "b + ?n" "drop ?n es"] b(1) upto rest by (auto simp: Let_def)
qed

lemma replace_conflict_inv:
  assumes inv: "log_inv l" and ok: "replace_conflict l es = Ok l'"
  shows "log_inv l'" "i \<le> unat (log_committed l) \<Longrightarrow> view l' i = view l i"
proof -
  have wf: "log_wf l" using inv by (simp add: log_inv_def)
  from wf ok have "log_inv l' \<and> (i \<le> unat (log_committed l) \<longrightarrow> view l' i = view l i)"
  proof (cases rule: replace_conflict_cases)
    case Same
    then show ?thesis using inv by simp
  next
    case (Splice b new)
    then have "log_wf l'" using splice_wf [OF wf] by auto
    then show ?thesis
      using inv Splice splice_view [of l b new] by (auto simp: log_inv_def) (auto simp: splice_log_def)
  qed
  then show "log_inv l'" "i \<le> unat (log_committed l) \<Longrightarrow> view l' i = view l i" by auto
qed

lemma merge_keeps_inv:
  assumes "log_inv l" "merge_from_leader l es = Ok (l', appended)"
  shows "log_inv l'" "i \<le> unat (log_committed l) \<Longrightarrow> view l' i = view l i"
  using assms by (auto simp: merge_from_leader_def rbind_Ok_iff Let_def replace_conflict_inv split: option.splits)

lemma replace_conflict_committed:
  "replace_conflict l es = Ok l' \<Longrightarrow> log_committed l' = log_committed l \<and> log_snapshot l' = log_snapshot l"
  by (auto simp: replace_conflict_def rbind_Ok_iff Let_def split: if_splits option.splits)

lemma merge_committed:
  "merge_from_leader l es = Ok (l', appended) \<Longrightarrow>
     log_committed l' = log_committed l \<and> log_snapshot l' = log_snapshot l"
  by (auto simp: merge_from_leader_def rbind_Ok_iff Let_def replace_conflict_committed split: option.splits)

lemma from_recovered_inv:
  assumes "from_parts v hs sn es = Ok r"
  shows "log_inv (from_recovered r)"
  using from_parts_Ok_iff [THEN iffD1, OF assms]
  by (auto simp: log_inv_def log_wf_def log_end_def from_recovered_def recovery_valid_def u64_le_iff)

section \<open>Properties\<close>

lemma rebase_terms:
  assumes wf: "log_wf l" and r: "base l \<le> unat (record_index r)" "unat (record_index r) \<le> log_end l"
    "record_term r = term_of l (unat (record_index r))"
  shows "\<forall>i. record_index r \<le> i \<longrightarrow> i \<le> last_index l \<longrightarrow>
    log_term_at (rebase l r) i = log_term_at l i"
proof (intro allI impI)
  fix i assume i: "record_index r \<le> i" "i \<le> last_index l"
  have wf': "log_wf (rebase l r)" and e: "log_end (rebase l r) = log_end l"
    using rebase_wf [OF wf r] by auto
  have b: "base (rebase l r) = unat (record_index r)" by (simp add: rebase_def)
  have "unat i \<le> log_end l" using i unat_last_index [OF wf] by (simp add: u64_le_iff)
  moreover have "term_of (rebase l r) (unat i) = term_of l (unat i)"
    using i r b calculation by (auto simp: term_of_def rebase_def log_end_def u64_le_iff)
  ultimately show "log_term_at (rebase l r) i = log_term_at l i"
    using i r b e by (auto simp: log_term_at_wf [OF wf] log_term_at_wf [OF wf'] u64_le_iff)
qed

text \<open>
  C27: the run-time log validator is exact. It accepts a log if and only if the
  indexes run without a gap from the snapshot boundary, stay below the largest
  index, and the terms never fall.
\<close>

theorem log_validate_exact: "log_validate l = Ok () \<longleftrightarrow> log_wf l"
  by (rule log_validate_iff)

text \<open>
  C14: merging a leader's batch. Let the log have the first n entries of the batch and lack the one
  after them, where having an entry means an entry of that term at that index. When the merge
  succeeds and n is the whole batch, the log is unchanged and nothing is handed to
  persistence. Otherwise the log keeps exactly what it had up to there, continues with the
  rest of the batch, entry by entry, and ends with it; that rest is what is handed to
  persistence, and all of it lies above the commit point. The log stays well formed and the commit point where it was.
\<close>

theorem merge_log_matching:
  assumes "log_inv l" "contiguous_from b es" "base l \<le> b"
    and "merge_from_leader l es = Ok (l', appended)" "n = length (takeWhile (holds l) es)"
  shows "log_inv l' \<and> log_committed l' = log_committed l \<and> appended = drop n es \<and>
    (if n = length es then l' = l
     else unat (log_committed l) \<le> b + n \<and>
       (\<forall>i. view l' i = (if i \<le> b + n then view l i
          else if i \<le> b + length es then Some (es ! (i - b - 1)) else None)))"
proof -
  have wf: "log_wf l" using assms(1) by (simp add: log_inv_def)
  have inv: "log_inv l'" using assms(1-4) by (rule merge_inv)
  from merge_from_leader_Ok [OF wf assms(2-4)] show ?thesis
  proof (elim disjE exE conjE)
    assume held: "\<forall>e \<in> set es. holds l e" "l' = l" "appended = []"
    then have "n = length es" using assms(5) by (metis takeWhile_eq_all_conv)
    then show ?thesis using inv held by simp
  next
    fix k
    assume k: "k < length es" "k = length (takeWhile (holds l) es)" "b + k \<le> log_end l"
        "unat (log_committed l) \<le> b + k" "l' = splice_log l (b + k) (drop k es)" "appended = drop k es"
    have "drop k es ! (i - (b + k) - 1) = es ! (i - b - 1)" if "b + k < i" for i
      using that k(1) by (simp add: add.commute)
    then have "view l' i = (if i \<le> b + n then view l i
        else if i \<le> b + length es then Some (es ! (i - b - 1)) else None)" for i
      using k assms(3,5) by (simp add: splice_view)
    moreover have "log_committed l' = log_committed l" using k(5) by (simp add: splice_log_def)
    ultimately show ?thesis using inv k assms(5) by simp
  qed
qed

text \<open>Equations that evaluate the log operations on a concrete log.\<close>

lemmas log_eval = merge_from_leader_def replace_conflict_def find_conflict.simps log_append_def
  validate_continuity_def term_before_def log_term_at_def entry_at_def first_index_def last_index_def
  next_after_last_def sub_u64_def usize_try_from_def checked_next_def checked_add_def Let_def
  mark_range_def truncate_from_def mark_stable_through_def discard_through_def unstable_default_def
  log_range_def commit_to_def mark_stable_def compact_def install_snapshot_def u64_less_iff u64_le_iff
  first_index_of_term_def last_index_of_term_def saturating_sub_def saturating_add_def min_def max_def

definition noop_at :: "log_index \<Rightarrow> log_term \<Rightarrow> unit entry" where
  "noop_at i t = \<lparr>entry_index = i, entry_term = t, encoded_len = 0, payload = LeaderNoop\<rparr>"

definition sample_log :: "unit raft_log" where
  "sample_log = \<lparr>log_snapshot = None, log_entries = [noop_at 1 1, noop_at 2 1, noop_at 3 2],
     log_committed = 1, log_unstable = unstable_default\<rparr>"

definition merged_log :: "unit raft_log" where
  "merged_log = \<lparr>log_snapshot = None, log_entries = [noop_at 1 1, noop_at 2 1, noop_at 3 3],
     log_committed = 1, log_unstable = \<lparr>un_from = Some 3, un_through = Some 3\<rparr>\<rparr>"

lemma sample_log_inv: "log_inv sample_log"
  by (simp add: log_inv_def log_wf_def sample_log_def noop_at_def contiguous_Cons terms_Cons log_end_def
      u64_le_iff)

lemma sample_merge:
  "merge_from_leader sample_log [noop_at 2 1, noop_at 3 3] = Ok (merged_log, [noop_at 3 3])"
  by (simp add: log_eval sample_log_def merged_log_def noop_at_def)

theorem merge_log_matching_witness:
  "log_inv merged_log \<and> view merged_log 3 = Some (noop_at 3 3) \<and> view merged_log 1 = view sample_log 1 \<and> view merged_log 4 = None"
proof -
  have batch: "contiguous_from 1 [noop_at 2 1, noop_at 3 3]"
    by (simp add: contiguous_Cons noop_at_def)
  have anchor: "base sample_log \<le> 1" by (simp add: sample_log_def)
  have held: "1 = length (takeWhile (holds sample_log) [noop_at 2 1, noop_at 3 3])"
    by (simp add: holds_def view_def sample_log_def noop_at_def log_end_def)
  show ?thesis using merge_log_matching [OF sample_log_inv batch anchor sample_merge held] by simp
qed

text \<open>
  C15: committed entries are never overwritten. A well-formed batch whose first
  entry that the log does not hold lies at or below the commit point is refused
  with \<open>WouldTruncateCommitted\<close>, naming that entry and the commit point.
\<close>

theorem merge_refuses_committed:
  assumes "log_inv l" "contiguous_from b es" "base l \<le> b" "terms_from (term_of l b) es"
    and n: "n = length (takeWhile (holds l) es)" "n < length es" "b + n < unat (log_committed l)"
  shows "merge_from_leader l es =
    Err (WouldTruncateCommitted (entry_index (es ! n)) (log_committed l))"
proof -
  have wf: "log_wf l" and com: "unat (log_committed l) \<le> log_end l"
    using assms(1) by (auto simp: log_inv_def)
  have unheld: "\<not> holds l (es ! n)" using n by (auto simp: nth_length_takeWhile)
  have change: "first_change l es = Ok (Some n)"
    using first_change_wf [OF wf, of es] contiguous_above [OF assms(2)] assms(3) n unheld
    by (fastforce dest: nth_mem)
  have rest: "contiguous_from (b + n) (drop n es)" "terms_from (term_of l (b + n)) (drop n es)"
    using held_terms [OF wf assms(2,4)] n(1) by (simp_all add: Let_def)
  obtain x where x: "next_after_last l = Ok x" "unat x = log_end l + 1"
    using wf by (rule next_after_last_wf)
  have hd_idx: "hd (drop n es) = es ! n" "unat (entry_index (es ! n)) = b + n + 1"
    using n(2) assms(2) by (auto simp: hd_drop_conv_nth contiguous_nth)
  have valid: "validate_continuity l (drop n es) (entry_index (es ! n)) = Ok ()"
    using validate_continuity_iff [OF wf hd_idx(2)] rest n(3) com assms(3) by simp
  have stop: "takeWhile (holds l) (drop n es) = []" "\<not> (\<forall>e \<in> set (drop n es). holds l e)"
    using unheld n(2) Cons_nth_drop_Suc [OF n(2)] by (metis takeWhile.simps(2), metis list.set_intros(1))
  then have "find_conflict l 0 (drop n es) = Ok (Some 0)"
    using find_conflict_wf [OF wf rest(1)] n(3) com assms(3) by simp
  then have "replace_conflict l (drop n es) =
      Err (WouldTruncateCommitted (entry_index (es ! n)) (log_committed l))"
    using x valid hd_idx n com by (simp add: replace_conflict_def u64_less_iff u64_le_iff)
  then show ?thesis using change by (simp add: merge_from_leader_def)
qed

theorem merge_refuses_committed_witness:
  "merge_from_leader sample_log [noop_at 1 2] = Err (WouldTruncateCommitted 1 1)"
  using merge_refuses_committed [OF sample_log_inv, of 0 "[noop_at 1 2]" 0]
  by (simp add: sample_log_def noop_at_def contiguous_Cons terms_Cons term_of_def holds_def view_def
      log_end_def u64_le_iff)

text \<open>
  Appending: on a well-formed log the leader's append succeeds exactly for
  batches that continue the log, and then the old entries are unchanged and the
  new ones follow them.
\<close>

lemma append_extends:
  assumes "log_inv l"
  shows "((\<exists>l'. log_append l es = Ok l') \<longleftrightarrow>
      es = [] \<or> contiguous_from (log_end l) es \<and> terms_from (term_of l (log_end l)) es) \<and>
    (\<forall>l'. log_append l es = Ok l' \<longrightarrow> log_inv l' \<and> log_committed l' = log_committed l \<and>
      (\<forall>i. view l' i = (if i \<le> log_end l then view l i
        else if i \<le> log_end l + length es then Some (es ! (i - log_end l - 1)) else None)))"
proof -
  have wf: "log_wf l" using assms by (simp add: log_inv_def)
  have "log_committed l' = log_committed l" if "log_append l es = Ok l'" for l'
    using that by (auto simp: log_append_Ok_iff [OF wf])
  then show ?thesis
    using log_append_inv [OF assms] log_append_view [OF wf] by (auto simp: log_append_Ok_iff [OF wf])
qed

text \<open>
  C28: compaction. It succeeds exactly for a committed boundary that the log holds
  with the snapshot's term, and then every entry above the boundary is still
  there, nothing else is, and every index from the boundary on has the same term
  as before.
\<close>

theorem compact_keeps_suffix:
  assumes "log_inv l"
  shows "((\<exists>l'. compact l r = Ok l') \<longleftrightarrow> record_index r \<le> log_committed l \<and> boundary_held l r) \<and>
    (\<forall>l'. compact l r = Ok l' \<longrightarrow> log_inv l' \<and> log_snapshot l' = Some r \<and>
      log_committed l' = log_committed l \<and>
      (\<forall>i. view l' i = (if unat (record_index r) < i then view l i else None)) \<and>
      (\<forall>i. record_index r \<le> i \<longrightarrow> i \<le> last_index l \<longrightarrow> log_term_at l' i = log_term_at l i))"
proof -
  have wf: "log_wf l" using assms by (simp add: log_inv_def)
  have "(\<exists>l'. compact l r = Ok l') \<longleftrightarrow> record_index r \<le> log_committed l \<and> boundary_held l r"
    by (auto simp: compact_Ok_iff [OF wf] boundary_held_def)
  moreover have "log_inv l' \<and> log_snapshot l' = Some r \<and> log_committed l' = log_committed l \<and>
      (\<forall>i. view l' i = (if unat (record_index r) < i then view l i else None)) \<and>
      (\<forall>i. record_index r \<le> i \<longrightarrow> i \<le> last_index l \<longrightarrow> log_term_at l' i = log_term_at l i)"
    if ok: "compact l r = Ok l'" for l'
  proof -
    have r: "base l \<le> unat (record_index r)" "unat (record_index r) \<le> log_end l"
        "record_term r = term_of l (unat (record_index r))" and l': "l' = rebase l r"
      using ok by (auto simp: compact_Ok_iff [OF wf])
    then show ?thesis
      using compact_inv [OF assms ok] rebase_wf(2) [OF wf r] rebase_terms [OF wf r]
      by (simp add: rebase_def)
  qed
  ultimately show ?thesis by blast
qed

definition sample_record :: "log_index \<Rightarrow> log_term \<Rightarrow> snapshot_record" where
  "sample_record i t = \<lparr>metadata = \<lparr>snap_id = 7, last_included_index = i, last_included_term = t,
     snap_members = [1, 2, 3], snap_size = 0, snap_digest = []\<rparr>, body_ref = []\<rparr>"

theorem compact_keeps_suffix_witness:
  "\<exists>l'. compact sample_log (sample_record 1 1) = Ok l' \<and> log_inv l' \<and>
     view l' 3 = Some (noop_at 3 2) \<and> view l' 1 = None"
proof -
  have "record_index (sample_record 1 1) \<le> log_committed sample_log"
      "boundary_held sample_log (sample_record 1 1)" "view sample_log 3 = Some (noop_at 3 2)"
      "unat (record_index (sample_record 1 1)) = 1"
    by (simp_all add: sample_log_def sample_record_def boundary_held_def term_of_def log_end_def
        noop_at_def view_def)
  then show ?thesis
    using compact_keeps_suffix [OF sample_log_inv, of "sample_record 1 1"] by auto
qed

text \<open>
  C29: installing a received snapshot never fails on a well-formed log. The suffix survives
  exactly when the log holds the snapshot's boundary with the same term; otherwise the log is
  emptied, also where the boundary lies below the commit point and conflicts with it. The
  commit point moves up to the boundary, never down. The log invariant holds
  afterwards exactly when the suffix survives, or the boundary covers every committed entry
  and has a next index: a conflicting boundary below the commit point breaks it.
\<close>

theorem install_snapshot_boundary:
  assumes "log_inv l"
  shows "\<exists>l'. install_snapshot l r = Ok l' \<and> log_snapshot l' = Some r \<and>
    log_committed l' = max (record_index r) (log_committed l) \<and>
    (\<forall>i. view l' i = (if boundary_held l r \<and> unat (record_index r) < i then view l i else None)) \<and>
    (log_inv l' \<longleftrightarrow> boundary_held l r \<or> log_committed l \<le> record_index r \<and> unat (record_index r) + 1 < 2 ^ 64)"
proof -
  have wf: "log_wf l" using assms(1) by (simp add: log_inv_def)
  show ?thesis
  proof (cases "boundary_held l r")
    case True
    then have r: "base l \<le> unat (record_index r)" "unat (record_index r) \<le> log_end l"
        "record_term r = term_of l (unat (record_index r))"
      by (auto simp: boundary_held_def)
    have snap: "log_snapshot (rebase l r) = Some r" by (simp add: rebase_def)
    show ?thesis
      using True rebase_wf [OF wf r] assms(1) r snap
      by (auto simp: install_snapshot_eq [OF wf] log_inv_def max_def u64_le_iff)
  next
    case False
    then show ?thesis
      by (auto simp: install_snapshot_eq [OF wf] log_inv_def log_wf_def wipe_def
          log_end_def view_def max_def u64_le_iff)
  qed
qed

theorem install_snapshot_boundary_witness:
  "\<exists>l'. install_snapshot sample_log (sample_record 5 4) = Ok l' \<and> log_inv l' \<and> view l' 3 = None"
proof -
  have "\<not> boundary_held sample_log (sample_record 5 4)" "log_committed sample_log \<le> record_index (sample_record 5 4)"
      "unat (record_index (sample_record 5 4)) = 5"
    by (simp_all add: sample_record_def sample_log_def u64_le_iff boundary_held_def log_end_def)
  then show ?thesis using install_snapshot_boundary [OF sample_log_inv, of "sample_record 5 4"] by auto
qed

text \<open>
  Reading a range. The slice is returned exactly for a nonempty range inside
  the available suffix, its length is the range's, and its entries are the log's
  at those indexes.
\<close>

lemma log_range_exact:
  assumes "log_wf l"
  shows "((\<exists>es. log_range l start stop = Ok es) \<longleftrightarrow>
      base l < unat start \<and> start \<le> stop \<and> unat stop \<le> log_end l) \<and>
    (\<forall>es. log_range l start stop = Ok es \<longrightarrow>
      length es = unat stop + 1 - unat start \<and>
      (\<forall>k < length es. view l (unat start + k) = Some (es ! k)))"
  using log_range_nth [OF assms] by (auto simp: log_range_Ok_iff [OF assms])

text \<open>
  C30: the unstable window as a set of indexes. Marking a range covers it and adds
  only indexes between old and new ones, truncation removes exactly the indexes
  from the cut on, confirmed durability removes exactly the indexes up to it, and
  the window stays an interval throughout.
\<close>

theorem unstable_window_operations:
  assumes "window_wf u" "f \<le> t"
  shows "window_wf (mark_range u f t) \<and> window u \<union> {f..t} \<subseteq> window (mark_range u f t) \<and>
    (\<forall>i \<in> window (mark_range u f t). \<exists>a \<in> window u \<union> {f..t}. \<exists>b \<in> window u \<union> {f..t}. a \<le> i \<and> i \<le> b) \<and>
    window_wf (truncate_from u f) \<and> window (truncate_from u f) = window u - {f..} \<and>
    window_wf (mark_stable_through u f) \<and> window (mark_stable_through u f) = window u - {..f}"
  using mark_range_window [OF assms] truncate_from_window [OF assms(1)] mark_stable_window [OF assms(1)]
  by simp

theorem unstable_window_operations_witness:
  "window (truncate_from \<lparr>un_from = Some 2, un_through = Some 5\<rparr> 4) =
     window \<lparr>un_from = Some 2, un_through = Some 5\<rparr> - {4..}"
  using unstable_window_operations [of "\<lparr>un_from = Some 2, un_through = Some 5\<rparr>" 4 4]
  by (simp add: window_wf_def)

end
