(* ===== verification/Progress.thy ===== *)
theory Progress
  imports Types
begin

text \<open>
  Replication progress (\<open>src/progress/mod.rs\<close>), the window of outstanding
  requests (\<open>src/progress/inflights.rs\<close>) and vote accounting
  (\<open>src/progress/quorum.rs\<close>). A \<open>BTreeSet\<close> that is only asked for membership
  and size is a set.
\<close>

section \<open>Outstanding requests\<close>

record inflights =
  capacity :: usize
  indexes :: "log_index list"

definition inflights_new :: "usize \<Rightarrow> inflights" where
  "inflights_new c = \<lparr>capacity = c, indexes = []\<rparr>"

definition is_full :: "inflights \<Rightarrow> bool" where
  "is_full q \<longleftrightarrow> length (indexes q) \<ge> unat (capacity q)"

definition push :: "inflights \<Rightarrow> log_index \<Rightarrow> inflights \<times> bool" where
  "push q i = (if is_full q then (q, False) else (q\<lparr>indexes := indexes q @ [i]\<rparr>, True))"

fun pop_through :: "log_index list \<Rightarrow> log_index \<Rightarrow> log_index list" where
  "pop_through [] i = []"
| "pop_through (front # rest) i = (if front \<le> i then pop_through rest i else front # rest)"

definition free_through :: "inflights \<Rightarrow> log_index \<Rightarrow> inflights" where
  "free_through q i = q\<lparr>indexes := pop_through (indexes q) i\<rparr>"

definition inflights_clear :: "inflights \<Rightarrow> inflights" where
  "inflights_clear q = q\<lparr>indexes := []\<rparr>"

section \<open>Progress of one follower\<close>

datatype progress_state = Probe | Replicate | Snapshot

record progress =
  match_index :: log_index
  next_index :: log_index
  progress_state :: progress_state
  inflights :: inflights
  recently_active :: bool

definition progress_new :: "log_index \<Rightarrow> usize \<Rightarrow> progress" where
  "progress_new n max_inflight = \<lparr>match_index = 0, next_index = n, progress_state = Probe,
     inflights = inflights_new max_inflight, recently_active = False\<rparr>"

definition can_send :: "progress \<Rightarrow> bool" where
  "can_send p = (case progress_state p of
     Probe \<Rightarrow> length (indexes (inflights p)) = 0
   | Replicate \<Rightarrow> \<not> is_full (inflights p)
   | Snapshot \<Rightarrow> False)"

definition sent :: "progress \<Rightarrow> log_index \<Rightarrow> (progress, 'e) result" where
  "sent p last_sent =
    (let p' = p\<lparr>inflights := fst (push (inflights p) last_sent)\<rparr> in
     if progress_state p = Replicate
     then rbind (expect_ok (checked_next last_sent)) (\<lambda>n. Ok (p'\<lparr>next_index := n\<rparr>))
     else Ok p')"

definition acknowledged :: "progress \<Rightarrow> log_index \<Rightarrow> (progress \<times> bool, 'e) result" where
  "acknowledged p i =
    (let p = p\<lparr>recently_active := True\<rparr> in
     if i < match_index p then Ok (p, False)
     else rbind (expect_ok (checked_next i)) (\<lambda>n.
       let p = p\<lparr>match_index := i\<rparr>;
           p = (if n > next_index p then p\<lparr>next_index := n\<rparr> else p);
           p = p\<lparr>inflights := free_through (inflights p) i\<rparr>;
           p = (if progress_state p = Probe then p\<lparr>progress_state := Replicate\<rparr> else p)
       in Ok (p, True)))"

definition reject :: "progress \<Rightarrow> log_index \<Rightarrow> log_index \<Rightarrow> (progress \<times> bool, 'e) result" where
  "reject p rejected n =
    (let p = p\<lparr>recently_active := True\<rparr> in
     if (case checked_next rejected of Ok after \<Rightarrow> after < next_index p | _ \<Rightarrow> False)
     then Ok (p, False)
     else rbind (expect_ok (checked_next (match_index p))) (\<lambda>floor.
       Ok (p\<lparr>progress_state := Probe, inflights := inflights_clear (inflights p),
             next_index := max n floor\<rparr>, True)))"

definition reset_activity :: "progress \<Rightarrow> progress" where
  "reset_activity p = p\<lparr>recently_active := False\<rparr>"

definition enter_snapshot :: "progress \<Rightarrow> progress" where
  "enter_snapshot p = p\<lparr>progress_state := Snapshot, inflights := inflights_clear (inflights p)\<rparr>"

definition restore_probe :: "progress \<Rightarrow> log_index \<Rightarrow> progress" where
  "restore_probe p n = p\<lparr>progress_state := Probe, next_index := n,
     inflights := inflights_clear (inflights p)\<rparr>"

section \<open>Vote accounting\<close>

record quorum_tracker =
  qt_members :: "node_id set"
  granted :: "node_id set"
  rejected :: "node_id set"

definition with_local_vote :: "node_id list \<Rightarrow> node_id \<Rightarrow> quorum_tracker" where
  "with_local_vote ms local = \<lparr>qt_members = set ms, granted = {local}, rejected = {}\<rparr>"

definition record_vote :: "quorum_tracker \<Rightarrow> node_id \<Rightarrow> bool \<Rightarrow> quorum_tracker" where
  "record_vote q node vote =
    (if node \<notin> qt_members q \<or> node \<in> granted q \<or> node \<in> rejected q then q
     else if vote then q\<lparr>granted := insert node (granted q)\<rparr>
     else q\<lparr>rejected := insert node (rejected q)\<rparr>)"

definition qt_quorum :: "quorum_tracker \<Rightarrow> nat" where
  "qt_quorum q = card (qt_members q) div 2 + 1"

definition has_quorum :: "quorum_tracker \<Rightarrow> bool" where
  "has_quorum q \<longleftrightarrow> card (granted q) \<ge> qt_quorum q"

definition cannot_win :: "quorum_tracker \<Rightarrow> bool" where
  "cannot_win q \<longleftrightarrow> card (qt_members q) - card (rejected q) < qt_quorum q"

section \<open>Majorities\<close>

text \<open>What the protocol asks of its quorums: two of them share a member.\<close>

locale majority_quorum =
  fixes group :: "'a set" and threshold :: nat
  assumes group_finite: "finite group"
    and strict_majority: "card group < 2 * threshold"
begin

lemma quorums_intersect:
  assumes "A \<subseteq> group" "B \<subseteq> group" "threshold \<le> card A" "threshold \<le> card B"
  shows "A \<inter> B \<noteq> {}"
proof
  assume "A \<inter> B = {}"
  then have "card A + card B = card (A \<union> B)"
    using assms(1,2) group_finite by (metis card_Un_disjoint finite_subset)
  also have "\<dots> \<le> card group"
    using assms(1,2) group_finite by (intro card_mono) auto
  finally show False using assms(3,4) strict_majority by linarith
qed

text \<open>Members of two sets with enough of the group in each, as lists of votes.\<close>

lemma common_voter:
  assumes "set xs \<subseteq> group" "set ys \<subseteq> group" "distinct xs" "distinct ys"
    and "threshold \<le> length xs" "threshold \<le> length ys"
  obtains v where "v \<in> set xs" "v \<in> set ys"
  using quorums_intersect [of "set xs" "set ys"] assms by (auto simp: distinct_card)

end

interpretation member_majority: majority_quorum "set ms" "card (set ms) div 2 + 1"
  for ms :: "node_id list"
  by unfold_locales auto

section \<open>Lemmas\<close>

lemma pop_through_sorted: "sorted xs \<Longrightarrow> pop_through xs i = filter (\<lambda>x. i < x) xs"
proof (induction xs i rule: pop_through.induct)
  case (2 front rest i)
  then have "i < front \<Longrightarrow> filter (\<lambda>x. i < x) rest = rest"
    by (auto simp: filter_id_conv intro: less_le_trans)
  with 2 show ?case by (auto simp: not_le)
qed simp

definition inflights_wf :: "inflights \<Rightarrow> bool" where
  "inflights_wf q \<longleftrightarrow> sorted (indexes q) \<and> length (indexes q) \<le> unat (capacity q)"

definition progress_wf :: "progress \<Rightarrow> bool" where
  "progress_wf p \<longleftrightarrow> match_index p < next_index p \<and> inflights_wf (inflights p)"

lemma inflights_ops_wf [simp]:
  "inflights_wf (inflights_new c)" "inflights_wf (inflights_clear q)"
  "inflights_wf q \<Longrightarrow> inflights_wf (free_through q i)"
  by (auto simp: inflights_wf_def inflights_new_def inflights_clear_def free_through_def
      pop_through_sorted intro: sorted_filter [where f = id, simplified] order_trans [OF length_filter_le])

lemma push_wf:
  "inflights_wf q \<Longrightarrow> \<forall>j \<in> set (indexes q). j \<le> i \<Longrightarrow> inflights_wf (fst (push q i))"
  by (auto simp: inflights_wf_def push_def is_full_def sorted_append)

lemma acknowledged_stale:
  "i < match_index p \<Longrightarrow> acknowledged p i = Ok (p\<lparr>recently_active := True\<rparr>, False)"
  by (simp add: acknowledged_def Let_def)

lemma acknowledged_fresh:
  assumes "match_index p \<le> i" "checked_next i = Ok n"
  shows "acknowledged p i = Ok (p\<lparr>recently_active := True, match_index := i,
      next_index := max n (next_index p), inflights := free_through (inflights p) i,
      progress_state := (if progress_state p = Probe then Replicate else progress_state p)\<rparr>, True)"
  using assms by (cases p) (auto simp: acknowledged_def Let_def max_def)

lemma acknowledged_wf:
  assumes "progress_wf p" "acknowledged p i = Ok (p', changed)"
  shows "progress_wf p' \<and> match_index p \<le> match_index p' \<and> next_index p \<le> next_index p'"
proof (cases "i < match_index p")
  case True
  then show ?thesis using assms by (auto simp: acknowledged_stale progress_wf_def)
next
  case False
  then obtain n where n: "checked_next i = Ok n"
    using assms(2) by (cases i rule: checked_next_cases) (auto simp: acknowledged_def Let_def)
  then show ?thesis
    using assms False checked_next_less [OF n]
    by (auto simp: acknowledged_fresh [OF _ n] progress_wf_def less_max_iff_disj)
qed

lemma reject_wf:
  assumes "progress_wf p" "reject p r n = Ok (p', changed)"
  shows "progress_wf p' \<and> match_index p' = match_index p \<and> (changed \<longrightarrow> can_send p')"
proof -
  have "match_index p < max n y" if "checked_next (match_index p) = Ok y" for y
    using checked_next_less [OF that] by (simp add: less_max_iff_disj)
  then show ?thesis
    using assms
    by (auto simp: reject_def Let_def rbind_Ok_iff progress_wf_def can_send_def inflights_clear_def
        inflights_wf_def expect_ok_def split: if_splits result.splits)
qed

lemma sent_wf:
  assumes "progress_wf p" "sent p e = Ok p'" "\<forall>j \<in> set (indexes (inflights p)). j \<le> e"
    and "next_index p \<le> e + 1" "e \<noteq> - 1"
  shows "progress_wf p' \<and> match_index p' = match_index p"
proof -
  have "checked_next e = Ok (e + 1)"
    using assms(5) u64_minus_one u64_bound [of e] 
    by (cases e rule: checked_next_cases) (auto simp: u64_eq_iff checked_next_Ok_iff unat_add_u64)
  then show ?thesis
    using assms push_wf [of "inflights p" e]
    by (auto simp: sent_def Let_def progress_wf_def split: if_splits)
qed

section \<open>Properties\<close>

text \<open>
  The outstanding-request window is a bounded FIFO with cumulative
  acknowledgement: a full window accepts nothing, any other accepts at the back,
  and an acknowledgement through an index releases exactly the requests that end
  at or before it, in a window whose end indexes ascend.
\<close>

lemma inflights_window:
  assumes "inflights_wf q"
  shows "(snd (push q i) \<longleftrightarrow> length (indexes q) < unat (capacity q)) \<and>
    (snd (push q i) \<longrightarrow> indexes (fst (push q i)) = indexes q @ [i]) \<and>
    (\<not> snd (push q i) \<longrightarrow> fst (push q i) = q) \<and>
    indexes (free_through q i) = filter (\<lambda>j. i < j) (indexes q) \<and> inflights_wf (free_through q i)"
  using assms by (auto simp: push_def is_full_def free_through_def pop_through_sorted inflights_wf_def
      intro: sorted_filter [where f = id, simplified] order_trans [OF length_filter_le])

text \<open>
  C35: follower progress is well formed throughout replication (the match index is
  below the next index, the window is bounded and ordered), the match index never
  falls, an acknowledgement never moves the next index back, and an accepted
  rejection leaves the follower ready for one more probe with nothing outstanding.
\<close>

theorem progress_responses_wf:
  assumes "progress_wf p"
  shows "(\<forall>p' c. acknowledged p i = Ok (p', c) \<longrightarrow>
      progress_wf p' \<and> match_index p \<le> match_index p' \<and> next_index p \<le> next_index p' \<and>
      (c \<longleftrightarrow> match_index p \<le> i) \<and> (c \<longrightarrow> match_index p' = i)) \<and>
    (\<forall>p' c. reject p r n = Ok (p', c) \<longrightarrow>
      progress_wf p' \<and> match_index p' = match_index p \<and> (c \<longrightarrow> can_send p' \<and> n \<le> next_index p'))"
proof -
  have "(c \<longleftrightarrow> match_index p \<le> i) \<and> (c \<longrightarrow> match_index p' = i)"
    if "acknowledged p i = Ok (p', c)" for p' c
    using that by (auto simp: acknowledged_def Let_def rbind_Ok_iff split: if_splits)
  moreover have "c \<longrightarrow> n \<le> next_index p'" if "reject p r n = Ok (p', c)" for p' c
    using that by (auto simp: reject_def Let_def rbind_Ok_iff split: if_splits)
  ultimately show ?thesis
    using acknowledged_wf [OF assms] reject_wf [OF assms] by blast
qed

theorem progress_responses_wf_witness:
  "\<exists>p'. acknowledged (progress_new 4 8) 6 = (Ok (p', True) :: (progress \<times> bool, log_error) result) \<and>
     progress_wf p' \<and> match_index p' = 6"
proof -
  have wf: "progress_wf (progress_new 4 8)" by (simp add: progress_wf_def progress_new_def)
  obtain p' where "acknowledged (progress_new 4 8) 6 = (Ok (p', True) :: (progress \<times> bool, log_error) result)"
    using acknowledged_fresh [of "progress_new 4 8" 6 7]
    by (auto simp: progress_new_def checked_next_def checked_add_def)
  then show ?thesis using progress_responses_wf [OF wf, of 6] by blast
qed

text \<open>Responses in the order they arrive.\<close>

fun record_all :: "quorum_tracker \<Rightarrow> (node_id \<times> bool) list \<Rightarrow> quorum_tracker" where
  "record_all q [] = q"
| "record_all q ((node, vote) # rs) = record_all (record_vote q node vote) rs"

definition tracker_wf :: "quorum_tracker \<Rightarrow> bool" where
  "tracker_wf q \<longleftrightarrow> finite (qt_members q) \<and> granted q \<subseteq> qt_members q \<and>
     rejected q \<subseteq> qt_members q \<and> granted q \<inter> rejected q = {}"

lemma record_vote_wf: "tracker_wf q \<Longrightarrow> tracker_wf (record_vote q n v)"
  by (auto simp: tracker_wf_def record_vote_def)

lemma record_all_wf: "tracker_wf q \<Longrightarrow> tracker_wf (record_all q rs)"
  by (induction q rs rule: record_all.induct) (auto simp: record_vote_wf)

lemma record_vote_members [simp]: "qt_members (record_vote q n v) = qt_members q"
  by (simp add: record_vote_def)

lemma record_all_members [simp]: "qt_members (record_all q rs) = qt_members q"
  by (induction q rs rule: record_all.induct) auto

lemma record_all_sets:
  "granted (record_all q rs) = granted q \<union>
     {n \<in> qt_members q - granted q - rejected q. map_of rs n = Some True} \<and>
   rejected (record_all q rs) = rejected q \<union>
     {n \<in> qt_members q - granted q - rejected q. map_of rs n = Some False}"
proof (induction q rs rule: record_all.induct)
  case (2 q node vote rs)
  then show ?case by (auto simp: record_vote_def split: if_splits)
qed auto

lemma with_local_vote_wf: "local \<in> set ms \<Longrightarrow> tracker_wf (with_local_vote ms local)"
  by (auto simp: tracker_wf_def with_local_vote_def)

text \<open>
  One voting round counts the first answer of every member and nothing else:
  after any sequence of responses the grants are the local node and the members
  whose first response was a grant, the rejections the members whose first
  response was a rejection; later answers and outsiders change nothing.
\<close>

lemma tracker_first_response:
  "granted (record_all (with_local_vote ms local) rs) =
     insert local {n \<in> set ms. n \<noteq> local \<and> map_of rs n = Some True} \<and>
   rejected (record_all (with_local_vote ms local) rs) =
     {n \<in> set ms. n \<noteq> local \<and> map_of rs n = Some False}"
  using record_all_sets [of "with_local_vote ms local" rs] by (auto simp: with_local_vote_def)

text \<open>
  C34: \<open>cannot_win\<close> is exact: it holds precisely when no further responses can
  bring the round to a quorum.
\<close>

theorem cannot_win_exact:
  assumes "tracker_wf q"
  shows "cannot_win q \<longleftrightarrow> (\<forall>rs. \<not> has_quorum (record_all q rs))"
proof -
  have fin: "finite (qt_members q)" "finite (granted q)" "finite (rejected q)"
    using assms by (auto simp: tracker_wf_def intro: finite_subset)
  have rest: "card (qt_members q) - card (rejected q) = card (qt_members q - rejected q)"
    using assms fin by (simp add: tracker_wf_def card_Diff_subset)
  have bound: "card (granted (record_all q rs)) \<le> card (qt_members q - rejected q)" for rs
    using record_all_wf [OF assms, of rs] record_all_sets [of q rs] fin assms
    by (intro card_mono) (auto simp: tracker_wf_def)
  obtain xs where xs: "set xs = qt_members q"
    using fin(1) finite_list by blast
  let ?yes = "map (\<lambda>n. (n, True)) xs"
  have "map_of ?yes n = (if n \<in> qt_members q then Some True else None)" for n
    using xs by (induction xs arbitrary: q) (auto simp: map_of_map_restrict restrict_map_def)
  then have "granted (record_all q ?yes) = qt_members q - rejected q"
    using record_all_sets [of q ?yes] assms by (auto simp: tracker_wf_def)
  then have best: "has_quorum (record_all q ?yes) \<longleftrightarrow> qt_quorum q \<le> card (qt_members q - rejected q)"
    by (simp add: has_quorum_def qt_quorum_def)
  show ?thesis
  proof
    assume "cannot_win q"
    then show "\<forall>rs. \<not> has_quorum (record_all q rs)"
      using bound rest by (auto simp: cannot_win_def has_quorum_def qt_quorum_def not_le intro: le_less_trans)
  next
    assume "\<forall>rs. \<not> has_quorum (record_all q rs)"
    then show "cannot_win q" using best rest by (simp add: cannot_win_def not_le)
  qed
qed

theorem cannot_win_exact_witness:
  "\<forall>rs. \<not> has_quorum (record_all \<lparr>qt_members = {1, 2, 3}, granted = {1}, rejected = {2, 3}\<rparr> rs)"
  using cannot_win_exact [of "\<lparr>qt_members = {1, 2, 3}, granted = {1}, rejected = {2, 3}\<rparr>"]
  by (simp add: tracker_wf_def cannot_win_def qt_quorum_def)

text \<open>
  C33: election quorums intersect. Two rounds over the same members that both
  reached a quorum were granted by a common member.
\<close>

theorem tracker_quorums_intersect:
  assumes "tracker_wf q" "tracker_wf q'" "qt_members q = set ms" "qt_members q' = set ms"
    and "has_quorum q" "has_quorum q'"
  shows "granted q \<inter> granted q' \<noteq> {}"
  by (rule member_majority.quorums_intersect [of _ ms])
     (use assms in \<open>auto simp: tracker_wf_def has_quorum_def qt_quorum_def\<close>)

theorem tracker_quorums_intersect_witness:
  "granted \<lparr>qt_members = {1, 2, 3}, granted = {1, 2}, rejected = {}\<rparr> \<inter>
   granted \<lparr>qt_members = {1, 2, 3}, granted = {2, 3}, rejected = {}\<rparr> \<noteq> ({} :: node_id set)"
  by (rule tracker_quorums_intersect [of _ _ "[1, 2, 3]"])
     (simp_all add: tracker_wf_def has_quorum_def qt_quorum_def)

end
