(* ===== verification/Protocol_Helpers.thy ===== *)
theory Protocol_Helpers
  imports Messages Log_Refinement Progress
begin

text \<open>
  The pure protocol rules of \<open>src/raft/\<close>: log comparison in elections
  (\<open>election.rs\<close>), the commit rule (\<open>commit.rs\<close>), the follower's prefix check
  and the leader's retry point (\<open>replication.rs\<close>), read rounds
  (\<open>read_index.rs\<close>) and the snapshot transfer's receiver and sender
  (\<open>snapshot.rs\<close>).

  SHA-256 is the external crate \<open>sha2\<close>: its streaming interface is the record
  \<open>sha256\<close>, a parameter of the definitions that hash.
\<close>

section \<open>Elections\<close>

definition is_log_up_to_date ::
  "log_index \<Rightarrow> log_term \<Rightarrow> log_index \<Rightarrow> log_term \<Rightarrow> bool" where
  "is_log_up_to_date candidate_index candidate_term local_index local_term \<longleftrightarrow>
     candidate_term > local_term \<or>
     (candidate_term = local_term \<and> candidate_index \<ge> local_index)"

section \<open>Commit rule\<close>

text \<open>An index that underflows or lies outside the vector is a panic.\<close>

definition quorum_commit ::
  "'c raft_log \<Rightarrow> (node_id, progress) btree_map \<Rightarrow> nat \<Rightarrow> log_term \<Rightarrow>
     (log_index option, log_error) result" where
  "quorum_commit l prog quorum cur =
    (let matched = sort (map match_index (bt_values prog) @ [last_index l]) in
     if length matched < quorum \<or> length matched \<le> length matched - quorum then Panic
     else let candidate = matched ! (length matched - quorum) in
       if candidate > log_committed l
       then rbind (log_term_at l candidate) (\<lambda>t.
              Ok (if t = cur then Some candidate else None))
       else Ok None)"

section \<open>Replication\<close>

datatype prefix_decision = Match | Reject conflict_hint

definition validate_prefix ::
  "'c raft_log \<Rightarrow> log_index \<Rightarrow> log_term \<Rightarrow> (prefix_decision, log_error) result" where
  "validate_prefix l prev_log_index prev_log_term =
    (case log_term_at l prev_log_index of
       Ok t \<Rightarrow> if t = prev_log_term then Ok Match
              else Ok (Reject \<lparr>hint_index = (case first_index_of_term l t of
                                   None \<Rightarrow> prev_log_index | Some i \<Rightarrow> i),
                               hint_term = Some t\<rparr>)
     | Err (Compacted _ _) \<Rightarrow> rbind (first_index l) (\<lambda>first.
         Ok (Reject \<lparr>hint_index = first, hint_term = None\<rparr>))
     | Err (Unavailable _ _) \<Rightarrow> rbind (next_after_last l) (\<lambda>after.
         Ok (Reject \<lparr>hint_index = after, hint_term = None\<rparr>))
     | Err e \<Rightarrow> Err e
     | Panic \<Rightarrow> Panic)"

definition rejected_next :: "'c raft_log \<Rightarrow> conflict_hint \<Rightarrow> (log_index, log_error) result" where
  "rejected_next l hint =
    (case hint_term hint of
       Some t \<Rightarrow> (case last_index_of_term l t of
           Some i \<Rightarrow> map_err (\<lambda>_. IndexOverflow i) (checked_next i)
         | None \<Rightarrow> Ok (hint_index hint))
     | None \<Rightarrow> Ok (hint_index hint))"

section \<open>Read rounds\<close>

record read_round =
  round_context :: "u8 list"
  acknowledgments :: quorum_tracker
  requests :: "read_id list"
  safe_index :: "log_index option"

definition read_round_new ::
  "u8 list \<Rightarrow> node_id list \<Rightarrow> node_id \<Rightarrow> read_id \<Rightarrow> read_round" where
  "read_round_new ctx ms local rid = \<lparr>round_context = ctx,
     acknowledgments = with_local_vote ms local, requests = [rid], safe_index = None\<rparr>"

definition request_count :: "read_round \<Rightarrow> nat" where
  "request_count r = length (requests r)"

definition round_push :: "read_round \<Rightarrow> read_id \<Rightarrow> read_round" where
  "round_push r rid = r\<lparr>requests := requests r @ [rid]\<rparr>"

definition acknowledge :: "read_round \<Rightarrow> node_id \<Rightarrow> read_round" where
  "acknowledge r node = r\<lparr>acknowledgments := record_vote (acknowledgments r) node True\<rparr>"

definition round_has_quorum :: "read_round \<Rightarrow> bool" where
  "round_has_quorum r \<longleftrightarrow> has_quorum (acknowledgments r)"

definition set_safe_index :: "read_round \<Rightarrow> log_index \<Rightarrow> read_round" where
  "set_safe_index r i = r\<lparr>safe_index := Some i\<rparr>"

text \<open>\<open>u64::to_be_bytes\<close>: eight bytes, most significant first.\<close>

definition to_be_bytes :: "u64 \<Rightarrow> u8 list" where
  "to_be_bytes x = map (\<lambda>k. ucast (drop_bit (8 * k) x)) (rev [0..<8])"

section \<open>Snapshot transfer\<close>

datatype local_snapshot_state =
    Idle
  | Building effect_id log_index
  | LocalPersisting effect_id snapshot_record
  | Compacting effect_id snapshot_record

definition is_idle :: "local_snapshot_state \<Rightarrow> bool" where
  "is_idle s = (case s of Idle \<Rightarrow> True | _ \<Rightarrow> False)"

record 'h sha256 =
  sha_new :: 'h
  sha_update :: "'h \<Rightarrow> u8 list \<Rightarrow> 'h"
  sha_finalize :: "'h \<Rightarrow> u8 list"

record 'h snapshot_receiver =
  rcv_metadata :: snapshot_metadata
  next_offset :: u64
  hasher :: 'h
  last_chunk :: "(u64 \<times> u8 list) option"
  final_chunk :: bool

definition receiver_new :: "'h sha256 \<Rightarrow> snapshot_metadata \<Rightarrow> 'h snapshot_receiver" where
  "receiver_new sha m = \<lparr>rcv_metadata = m, next_offset = 0, hasher = sha_new sha,
     last_chunk = None, final_chunk = False\<rparr>"

definition accept_chunk ::
  "'h sha256 \<Rightarrow> 'h snapshot_receiver \<Rightarrow> u64 \<Rightarrow> u8 list \<Rightarrow> bool \<Rightarrow>
     ('h snapshot_receiver \<times> bool, unit) result" where
  "accept_chunk sha r offset bytes done =
    (if offset < next_offset r then
       Ok (r, case last_chunk r of None \<Rightarrow> False
              | Some (previous, chunk) \<Rightarrow> previous = offset \<and> chunk = bytes)
     else if offset \<noteq> next_offset r \<or> final_chunk r then Err ()
     else rbind (ok_or (u64_try_from (length bytes)) ()) (\<lambda>len.
       rbind (ok_or (checked_add offset len) ()) (\<lambda>next.
         if next > snap_size (rcv_metadata r) then Err ()
         else Ok (r\<lparr>hasher := sha_update sha (hasher r) bytes, next_offset := next,
                    last_chunk := Some (offset, bytes), final_chunk := done\<rparr>, True))))"

definition is_complete_and_valid :: "'h sha256 \<Rightarrow> 'h snapshot_receiver \<Rightarrow> bool" where
  "is_complete_and_valid sha r \<longleftrightarrow> final_chunk r \<and> next_offset r = snap_size (rcv_metadata r) \<and>
     sha_finalize sha (hasher r) = snap_digest (rcv_metadata r)"

definition receiver_record :: "'h snapshot_receiver \<Rightarrow> snapshot_ref \<Rightarrow> snapshot_record" where
  "receiver_record r body = \<lparr>metadata = rcv_metadata r, body_ref = body\<rparr>"

record snapshot_sender =
  send_snapshot :: snapshot_record
  send_offset :: u64

definition sender_new :: "snapshot_record \<Rightarrow> snapshot_sender" where
  "sender_new s = \<lparr>send_snapshot = s, send_offset = 0\<rparr>"

definition advance :: "snapshot_sender \<Rightarrow> nat \<Rightarrow> (snapshot_sender, unit) result" where
  "advance s bytes = rbind (ok_or (u64_try_from bytes) ()) (\<lambda>len.
     rbind (ok_or (checked_add (send_offset s) len) ()) (\<lambda>off. Ok (s\<lparr>send_offset := off\<rparr>)))"

section \<open>The commit rule\<close>

lemma sorted_count_ge:
  fixes xs :: "'a :: linorder list"
  assumes "sorted xs" "0 < q" "q \<le> length xs"
  shows "q \<le> length (filter (\<lambda>m. j \<le> m) xs) \<longleftrightarrow> j \<le> xs ! (length xs - q)"
proof -
  let ?k = "length xs - q"
  have k: "?k < length xs" using assms by simp
  have split: "length (filter P xs) = length (filter P (take n xs)) + length (filter P (drop n xs))"
    for P n by (metis append_take_drop_id filter_append length_append)
  show ?thesis
  proof
    assume le: "j \<le> xs ! ?k"
    have "filter (\<lambda>m. j \<le> m) (drop ?k xs) = drop ?k xs"
    proof (rule filter_True, rule ballI)
      fix m assume "m \<in> set (drop ?k xs)"
      then obtain i where "i < length (drop ?k xs)" "m = xs ! (?k + i)"
        by (auto simp: in_set_conv_nth)
      then have "xs ! ?k \<le> m" using assms(1) by (auto intro: sorted_nth_mono)
      then show "j \<le> m" using le by simp
    qed
    then show "q \<le> length (filter (\<lambda>m. j \<le> m) xs)"
      using split [of "\<lambda>m. j \<le> m" ?k] assms by simp
  next
    assume q: "q \<le> length (filter (\<lambda>m. j \<le> m) xs)"
    show "j \<le> xs ! ?k"
    proof (rule ccontr)
      assume "\<not> j \<le> xs ! ?k"
      then have "filter (\<lambda>m. j \<le> m) (take (Suc ?k) xs) = []"
        using assms(1) k by (auto simp: filter_empty_conv in_set_conv_nth)
          (meson dual_order.trans less_Suc_eq_le sorted_nth_mono)
      then have "length (filter (\<lambda>m. j \<le> m) xs) \<le> length (drop (Suc ?k) xs)"
        using split [of "\<lambda>m. j \<le> m" "Suc ?k"] length_filter_le [of "\<lambda>m. j \<le> m" "drop (Suc ?k) xs"]
        by simp
      then show False using q k assms by simp
    qed
  qed
qed

text \<open>On how many nodes of the group an index is stored, as the leader knows it:
  the followers' match indexes and the leader's own log.\<close>

definition stored_on :: "'c raft_log \<Rightarrow> (node_id, progress) btree_map \<Rightarrow> log_index \<Rightarrow> nat" where
  "stored_on l prog i = length (filter (\<lambda>m. i \<le> m) (map match_index (bt_values prog) @ [last_index l]))"

definition quorum_candidate :: "'c raft_log \<Rightarrow> (node_id, progress) btree_map \<Rightarrow> nat \<Rightarrow> log_index" where
  "quorum_candidate l prog q =
    (let matched = sort (map match_index (bt_values prog) @ [last_index l])
     in matched ! (length matched - q))"

lemma quorum_candidate_iff:
  assumes "0 < q" "q \<le> length prog + 1"
  shows "q \<le> stored_on l prog j \<longleftrightarrow> j \<le> quorum_candidate l prog q"
proof -
  let ?xs = "map match_index (bt_values prog) @ [last_index l]"
  have "stored_on l prog j = length (filter (\<lambda>m. j \<le> m) (sort ?xs))"
    unfolding stored_on_def by (metis filter_sort length_sort)
  then show ?thesis
    using sorted_count_ge [of "sort ?xs" q j] assms by (simp add: quorum_candidate_def Let_def)
qed

lemma quorum_commit_eq:
  assumes "0 < q" "q \<le> length prog + 1"
  shows "quorum_commit l prog q cur =
    (if quorum_candidate l prog q > log_committed l
     then rbind (log_term_at l (quorum_candidate l prog q)) (\<lambda>t.
            Ok (if t = cur then Some (quorum_candidate l prog q) else None))
     else Ok None)"
proof -
  let ?matched = "sort (map match_index (bt_values prog) @ [last_index l])"
  have "\<not> (length ?matched < q \<or> length ?matched \<le> length ?matched - q)"
    using assms by (simp add: not_le diff_less)
  then show ?thesis by (simp only: quorum_commit_def quorum_candidate_def Let_def if_False)
qed

lemma quorum_candidate_le_last:
  assumes "0 < q" "q \<le> length prog + 1" "\<forall>p \<in> set (bt_values prog). match_index p \<le> last_index l"
  shows "quorum_candidate l prog q \<le> last_index l"
proof -
  let ?xs = "map match_index (bt_values prog) @ [last_index l]"
  have "quorum_candidate l prog q \<in> set (sort ?xs)"
    unfolding quorum_candidate_def Let_def using assms by (intro nth_mem) simp
  then show ?thesis using assms(3) by auto
qed

section \<open>Terms along a log\<close>

lemma lowest_ge_base: "base l \<le> lowest l"
  by (auto simp: lowest_def)

lemma term_of_mono:
  assumes wf: "log_wf l" and ij: "base l \<le> i" "i \<le> j" "j \<le> log_end l"
  shows "term_of l i \<le> term_of l j"
proof (cases "i = base l")
  case True
  then show ?thesis
    using assms terms_ge [of "boundary_term (log_snapshot l)" "log_entries l"]
    by (auto simp: term_of_def log_wf_def log_end_def)
next
  case False
  then show ?thesis
    using assms terms_mono_nth [of "boundary_term (log_snapshot l)" "log_entries l" "i - base l - 1" "j - base l - 1"]
    by (auto simp: term_of_def log_wf_def log_end_def)
qed

lemma absent_term:
  assumes "\<forall>e \<in> set (log_entries l). entry_term e \<noteq> t"
    and "\<forall>r. log_snapshot l = Some r \<longrightarrow> record_term r \<noteq> t" and "lowest l \<le> j" "j \<le> log_end l"
  shows "term_of l j \<noteq> t"
proof (cases "j = base l")
  case True
  then show ?thesis
    using assms by (cases "log_snapshot l") (auto simp: lowest_def term_of_def)
next
  case False
  then have "base l < j" using assms(3) lowest_ge_base [of l] by simp
  then show ?thesis
    using assms(1,4) by (elim entry_position) (auto simp: term_of_def)
qed

lemma first_index_of_term_None:
  "first_index_of_term l t = None \<Longrightarrow> lowest l \<le> j \<Longrightarrow> j \<le> log_end l \<Longrightarrow> term_of l j \<noteq> t"
  by (rule absent_term) (auto simp: first_index_of_term_def find_None_iff split: option.splits if_splits)

lemma last_index_of_term_None:
  "last_index_of_term l t = None \<Longrightarrow> lowest l \<le> j \<Longrightarrow> j \<le> log_end l \<Longrightarrow> term_of l j \<noteq> t"
  by (rule absent_term) (auto simp: last_index_of_term_def find_None_iff split: option.splits if_splits)

lemma validate_prefix_conflict:
  assumes wf: "log_wf f" and "validate_prefix f prev pt = Ok (Reject hint)" "hint_term hint = Some t"
  shows "base f \<le> unat prev \<and> unat prev \<le> log_end f \<and> t = term_of f (unat prev) \<and> t \<noteq> pt \<and>
    hint_index hint = (case first_index_of_term f t of None \<Rightarrow> prev | Some i \<Rightarrow> i)"
  using assms(2,3)
  by (auto simp: validate_prefix_def log_term_at_wf [OF wf] rbind_Ok_iff split: if_splits)

section \<open>Properties\<close>

text \<open>
  C16: Raft's commit rule. For a group whose quorum fits it, the calculation never
  panics and reports an index exactly when that index is above the commit point,
  carries the leader's current term, is stored on a quorum, and no higher index is
  stored on a quorum.
\<close>

theorem quorum_commit_rule:
  assumes "log_inv l" "0 < q" "q \<le> length prog + 1"
    and "\<forall>p \<in> set (bt_values prog). match_index p \<le> last_index l"
  shows "\<exists>r. quorum_commit l prog q cur = Ok r \<and>
    (\<forall>i. r = Some i \<longleftrightarrow> log_committed l < i \<and> log_term_at l i = Ok cur \<and>
       q \<le> stored_on l prog i \<and> (\<forall>j. q \<le> stored_on l prog j \<longrightarrow> j \<le> i))"
proof -
  let ?c = "quorum_candidate l prog q"
  have wf: "log_wf l" and base: "base l \<le> unat (log_committed l)"
    using assms(1) by (auto simp: log_inv_def)
  have c: "q \<le> stored_on l prog j \<longleftrightarrow> j \<le> ?c" for j
    using assms(2,3) by (rule quorum_candidate_iff)
  have "?c \<le> last_index l" using assms(2-4) by (rule quorum_candidate_le_last)
  then have term_ok: "log_committed l < ?c \<Longrightarrow> log_term_at l ?c = Ok (term_of l (unat ?c))"
    using base unat_last_index [OF wf] by (auto simp: log_term_at_wf [OF wf] u64_le_iff u64_less_iff)
  have greatest: "i \<le> ?c \<and> (\<forall>j. j \<le> ?c \<longrightarrow> j \<le> i) \<longleftrightarrow> i = ?c" for i
    by (auto intro: antisym)
  have "quorum_commit l prog q cur =
      Ok (if log_committed l < ?c \<and> log_term_at l ?c = Ok cur then Some ?c else None)"
    using term_ok by (auto simp: quorum_commit_eq [OF assms(2,3)])
  then show ?thesis using c greatest by auto
qed

definition sample_progress :: "(node_id, progress) btree_map" where
  "sample_progress = [(2, (progress_new 4 8)\<lparr>match_index := 3\<rparr>), (3, progress_new 4 8)]"

theorem quorum_commit_rule_witness:
  "quorum_commit sample_log sample_progress 2 2 = Ok (Some 3)"
proof -
  have pre: "0 < (2 :: nat)" "2 \<le> length sample_progress + 1"
      "\<forall>p \<in> set (bt_values sample_progress). match_index p \<le> last_index sample_log"
    by (simp_all add: sample_progress_def bt_values_def progress_new_def sample_log_def noop_at_def
        last_index_def)
  have "quorum_candidate sample_log sample_progress 2 = 3"
    by (simp add: quorum_candidate_def sample_progress_def bt_values_def progress_new_def
        sample_log_def noop_at_def last_index_def u64_le_iff)
  then have cand: "2 \<le> stored_on sample_log sample_progress j \<longleftrightarrow> j \<le> 3" for j
    using quorum_candidate_iff [of 2 sample_progress sample_log j] pre(2) by simp
  have "log_term_at sample_log 3 = Ok 2" "log_committed sample_log < 3"
    by (simp_all add: sample_log_def noop_at_def log_eval)
  then show ?thesis
    using quorum_commit_rule [OF sample_log_inv pre, of 2] cand by auto
qed

text \<open>
  The election ordering of logs is total and transitive, and it is the
  lexicographic order on (last term, last index).
\<close>

lemma up_to_date_preorder:
  "(is_log_up_to_date ci ct li lt \<or> is_log_up_to_date li lt ci ct) \<and>
   (is_log_up_to_date ci ct li lt \<and> is_log_up_to_date li lt vi vt \<longrightarrow> is_log_up_to_date ci ct vi vt) \<and>
   (is_log_up_to_date ci ct li lt \<and> is_log_up_to_date li lt ci ct \<longleftrightarrow> ci = li \<and> ct = lt)"
  by (auto simp: is_log_up_to_date_def)

text \<open>
  C31: the follower's prefix check. On a well-formed log it matches exactly when
  the log's term at the anchor is the leader's; otherwise it names the term it has
  there and the first index of that term, the first available index for a
  compacted anchor, or the index after the log's end for an anchor beyond it.
\<close>

theorem validate_prefix_decides:
  assumes "log_wf l"
  shows "validate_prefix l i t =
    (if unat i < base l then Ok (Reject \<lparr>hint_index = boundary_index (log_snapshot l) + 1, hint_term = None\<rparr>)
     else if log_end l < unat i then Ok (Reject \<lparr>hint_index = last_index l + 1, hint_term = None\<rparr>)
     else if term_of l (unat i) = t then Ok Match
     else Ok (Reject \<lparr>hint_index = (case first_index_of_term l (term_of l (unat i)) of
                        None \<Rightarrow> i | Some f \<Rightarrow> f), hint_term = Some (term_of l (unat i))\<rparr>))"
proof -
  obtain f where f: "first_index l = Ok f" "unat f = base l + 1"
    using assms by (rule first_index_wf)
  have "base l + 1 < 2 ^ 64" using log_wf_bound [OF assms] base_le_end [of l] by linarith
  then have fw: "f = boundary_index (log_snapshot l) + 1"
    using f by (simp add: u64_eq_iff unat_add_u64)
  obtain n where n: "next_after_last l = Ok n" "unat n = log_end l + 1"
    using assms by (rule next_after_last_wf)
  have nw: "n = last_index l + 1"
    using n unat_last_index [OF assms] log_wf_bound [OF assms] by (simp add: u64_eq_iff unat_add_u64)
  show ?thesis
    using base_le_end [of l] by (auto simp: validate_prefix_def log_term_at_wf [OF assms] f(1) fw n(1) nw)
qed

theorem validate_prefix_decides_witness:
  "validate_prefix sample_log 3 3 = Ok (Reject \<lparr>hint_index = 3, hint_term = Some 2\<rparr>)"
proof -
  have wf: "log_wf sample_log" using sample_log_inv by (simp add: log_inv_def)
  show ?thesis
    using validate_prefix_decides [OF wf, of 3 3]
    by (simp add: sample_log_def noop_at_def log_end_def term_of_def first_index_of_term_def)
qed

text \<open>
  C32: the conflict-hint optimisation skips no agreement. When a follower refuses an
  anchor because it holds another term there, the leader's retry point leaves out
  only indexes at which the two logs hold different terms.
\<close>

theorem conflict_hint_skips_only_mismatches:
  assumes follower: "log_wf f" and leader: "log_wf l"
    and reject: "validate_prefix f prev (term_of l (unat prev)) = Ok (Reject hint)"
    and known: "hint_term hint = Some t" and retry: "rejected_next l hint = Ok n"
    and j: "unat n \<le> j" "j \<le> unat prev"
    and in_logs: "lowest f \<le> j" "lowest l \<le> j" "unat prev \<le> log_end l"
  shows "term_of f j \<noteq> term_of l j"
proof -
  have c: "base f \<le> unat prev" "unat prev \<le> log_end f" "t = term_of f (unat prev)"
      and hint: "hint_index hint = (case first_index_of_term f t of None \<Rightarrow> prev | Some i \<Rightarrow> i)"
    using validate_prefix_conflict [OF follower reject known] by auto
  have below: "term_of f j \<le> t"
    using c j in_logs lowest_ge_base [of f] by (auto intro: term_of_mono [OF follower])
  show ?thesis
  proof (cases "last_index_of_term l t")
    case None
    then have l: "term_of l j \<noteq> t"
      using last_index_of_term_None in_logs j by (meson le_trans)
    have n: "n = hint_index hint" using retry known None by (simp add: rejected_next_def)
    obtain i where i: "first_index_of_term f t = Some i"
      using first_index_of_term_None [of f t "unat prev"] c in_logs j by (cases "first_index_of_term f t") auto
    then have "unat i \<le> j" "term_of f (unat i) = t" "lowest f \<le> unat i"
      using n hint j first_index_of_term_spec [OF follower i] by auto
    then have "t \<le> term_of f j"
      using term_of_mono [OF follower, of "unat i" j] c j lowest_ge_base [of f] by auto
    then show ?thesis using below l by simp
  next
    case (Some k)
    have k: "term_of l (unat k) = t" "lowest l \<le> unat k"
        "\<And>m. unat k < m \<Longrightarrow> m \<le> log_end l \<Longrightarrow> term_of l m \<noteq> t"
      using last_index_of_term_spec [OF leader Some] by auto
    have "unat n = unat k + 1"
      using retry known Some by (simp add: rejected_next_def checked_next_Ok_iff)
    then have "t \<le> term_of l j" "term_of l j \<noteq> t"
      using k j in_logs lowest_ge_base [of l] term_of_mono [OF leader, of "unat k" j] by auto
    then show ?thesis using below by auto
  qed
qed

definition diverged_log :: "unit raft_log" where
  "diverged_log = \<lparr>log_snapshot = None, log_entries = [noop_at 1 1, noop_at 2 1, noop_at 3 3],
     log_committed = 1, log_unstable = unstable_default\<rparr>"

theorem conflict_hint_skips_only_mismatches_witness:
  "term_of sample_log 3 \<noteq> term_of diverged_log 3"
proof -
  have wf: "log_wf sample_log" "log_wf diverged_log"
    using sample_log_inv
    by (simp_all add: log_inv_def log_wf_def diverged_log_def noop_at_def contiguous_Cons terms_Cons u64_le_iff)
  have t: "term_of diverged_log (unat (3 :: log_index)) = 3"
    by (simp add: term_of_def diverged_log_def noop_at_def)
  have reject: "validate_prefix sample_log 3 (term_of diverged_log (unat (3 :: log_index))) =
      Ok (Reject \<lparr>hint_index = 3, hint_term = Some 2\<rparr>)"
    unfolding t by (simp add: validate_prefix_def sample_log_def noop_at_def log_eval)
  show ?thesis
    by (rule conflict_hint_skips_only_mismatches [OF wf reject, of 2 3])
       (simp_all add: rejected_next_def diverged_log_def sample_log_def noop_at_def lowest_def
        log_end_def last_index_of_term_def)
qed

section \<open>Read contexts\<close>

lemma to_be_bytes_length [simp]: "length (to_be_bytes x) = 8"
  by (simp add: to_be_bytes_def)

lemma to_be_bytes_nth: "k < 8 \<Longrightarrow> to_be_bytes x ! (7 - k) = ucast (drop_bit (8 * k) x)"
proof -
  assume "k < 8"
  then have "k \<in> {0, 1, 2, 3, 4, 5, 6, 7}" by auto
  then show ?thesis by (auto simp: to_be_bytes_def upt_rec)
qed

lemma to_be_bytes_inject [simp]: "to_be_bytes x = to_be_bytes y \<longleftrightarrow> x = y"
proof
  assume eq: "to_be_bytes x = to_be_bytes y"
  show "x = y"
  proof (rule bit_word_eqI)
    fix n assume "n < LENGTH(64)"
    then have n: "n div 8 < 8" "n mod 8 < 8" "8 * (n div 8) + n mod 8 = n" by auto
    have "(ucast (drop_bit (8 * (n div 8)) x) :: u8) = ucast (drop_bit (8 * (n div 8)) y)"
      using eq to_be_bytes_nth [OF n(1)] by metis
    then have "bit (ucast (drop_bit (8 * (n div 8)) x) :: u8) (n mod 8) =
        bit (ucast (drop_bit (8 * (n div 8)) y) :: u8) (n mod 8)" by simp
    then show "bit x n \<longleftrightarrow> bit y n"
      using n by (simp add: bit_ucast_iff bit_drop_bit_eq)
  qed
qed simp

text \<open>The context of a read round: the term and the round counter, eight bytes each.\<close>

definition read_context_of :: "log_term \<Rightarrow> u64 \<Rightarrow> u8 list" where
  "read_context_of t c = to_be_bytes t @ to_be_bytes c"

text \<open>Two rounds share a context only if they have the same term and round counter.\<close>

lemma read_context_unique:
  "read_context_of t c = read_context_of t' c' \<longleftrightarrow> t = t' \<and> c = c'"
  by (simp add: read_context_of_def)

section \<open>Receiving a snapshot\<close>

text \<open>The receiver's life: what it has taken in so far, as one byte string. A
  chunk below the expected offset adds nothing.\<close>

inductive received :: "'h sha256 \<Rightarrow> snapshot_metadata \<Rightarrow> 'h snapshot_receiver \<Rightarrow> u8 list \<Rightarrow> bool"
  for sha m where
  start: "received sha m (receiver_new sha m) []"
| chunk: "received sha m r body \<Longrightarrow> accept_chunk sha r offset bytes fin = Ok (r', fresh) \<Longrightarrow>
    received sha m r' (if offset < next_offset r then body else body @ bytes)"

text \<open>What the core relies on of \<open>sha2\<close>: hashing in pieces is hashing the whole.\<close>

definition sha_streams :: "'h sha256 \<Rightarrow> bool" where
  "sha_streams sha \<longleftrightarrow> (\<forall>h a b. sha_update sha (sha_update sha h a) b = sha_update sha h (a @ b)) \<and>
     (\<forall>h. sha_update sha h [] = h)"

lemma accept_chunk_Ok:
  "accept_chunk sha r offset bytes fin = Ok (r', fresh) \<longleftrightarrow>
     (if offset < next_offset r
      then r' = r \<and> fresh = (last_chunk r = Some (offset, bytes))
      else offset = next_offset r \<and> \<not> final_chunk r \<and> fresh \<and>
        unat offset + length bytes \<le> unat (snap_size (rcv_metadata r)) \<and>
        r' = r\<lparr>hasher := sha_update sha (hasher r) bytes, next_offset := offset + of_nat (length bytes),
               last_chunk := Some (offset, bytes), final_chunk := fin\<rparr>)"
proof (cases "offset < next_offset r")
  case True
  then show ?thesis by (auto simp: accept_chunk_def split: option.splits)
next
  case False
  let ?n = "length bytes"
  have sz: "unat (snap_size (rcv_metadata r)) < 2 ^ 64" by (rule u64_bound)
  show ?thesis
  proof (cases "unat offset + ?n < 2 ^ 64")
    case fits: True
    then have len: "u64_try_from ?n = Some (of_nat ?n)" "unat (of_nat ?n :: u64) = ?n"
      by (simp_all add: u64_try_from_def unat_of_nat_u64)
    then have "checked_add offset (of_nat ?n) = Some (offset + of_nat ?n)"
        "unat (offset + of_nat ?n) = unat offset + ?n"
      using fits by (simp_all add: checked_add_def unat_add_u64)
    then show ?thesis
      using False len by (auto simp: accept_chunk_def u64_less_iff split: if_splits)
  next
    case overflow: False
    have "ok_or (u64_try_from ?n) () = Err () \<or>
        (\<exists>len. u64_try_from ?n = Some len \<and> checked_add offset len = None)"
      using overflow by (auto simp: u64_try_from_def checked_add_None_iff unat_of_nat_u64)
    then show ?thesis
      using False overflow sz by (auto simp: accept_chunk_def)
  qed
qed

lemma received_inv:
  assumes "received sha m r body" "sha_streams sha"
  shows "rcv_metadata r = m \<and> unat (next_offset r) = length body \<and>
    length body \<le> unat (snap_size m) \<and> hasher r = sha_update sha (sha_new sha) body"
  using assms(1)
proof (induction rule: received.induct)
  case start
  then show ?case using assms(2) by (simp add: receiver_new_def sha_streams_def)
next
  case (chunk r body offset bytes fin r' fresh)
  show ?case
  proof (cases "offset < next_offset r")
    case True
    then show ?thesis using chunk by (simp add: accept_chunk_Ok)
  next
    case False
    then have a: "offset = next_offset r" "unat offset + length bytes \<le> unat (snap_size m)"
      using chunk by (auto simp: accept_chunk_Ok)
    then have "unat offset + length bytes < 2 ^ 64"
      using u64_bound [of "snap_size m"] by simp
    then have "unat (of_nat (length bytes) :: u64) = length bytes"
        "unat (offset + of_nat (length bytes)) = unat offset + length bytes"
      by (simp_all add: unat_of_nat_u64 unat_add_u64)
    then show ?thesis
      using False a chunk assms(2) by (auto simp: accept_chunk_Ok sha_streams_def)
  qed
qed

text \<open>
  C40: a snapshot transfer that the receiver declares complete and valid consists of
  exactly the advertised number of bytes, and their SHA-256 digest is the one in
  the snapshot's metadata, however the body was cut into chunks and whatever was
  retransmitted.
\<close>

theorem complete_transfer_digest:
  assumes "sha_streams sha" "received sha m r body" "is_complete_and_valid sha r"
  shows "length body = unat (snap_size m) \<and>
    sha_finalize sha (sha_update sha (sha_new sha) body) = snap_digest m"
  using received_inv [OF assms(2,1)] assms(3) by (auto simp: is_complete_and_valid_def)

text \<open>A hash that keeps the bytes streams, and a two-chunk transfer under it.\<close>

definition plain_sha :: "u8 list sha256" where
  "plain_sha = \<lparr>sha_new = [], sha_update = (@), sha_finalize = rev\<rparr>"

definition two_bytes :: snapshot_metadata where
  "two_bytes = \<lparr>snap_id = 7, last_included_index = 5, last_included_term = 2, snap_members = [1, 2, 3],
     snap_size = 2, snap_digest = [9, 8]\<rparr>"

theorem complete_transfer_digest_witness:
  "length ([8, 9] :: u8 list) = unat (snap_size two_bytes) \<and>
   sha_finalize plain_sha (sha_update plain_sha (sha_new plain_sha) [8, 9]) = snap_digest two_bytes"
proof -
  let ?r0 = "receiver_new plain_sha two_bytes"
  let ?r1 = "?r0\<lparr>hasher := [8], next_offset := 1, last_chunk := Some (0, [8]), final_chunk := False\<rparr>"
  let ?r2 = "?r0\<lparr>hasher := [8, 9], next_offset := 2, last_chunk := Some (1, [9]), final_chunk := True\<rparr>"
  have streams: "sha_streams plain_sha" by (simp add: sha_streams_def plain_sha_def)
  have "accept_chunk plain_sha ?r0 0 [8] False = Ok (?r1, True)"
    by (simp add: accept_chunk_Ok receiver_new_def plain_sha_def two_bytes_def)
  from received.chunk [OF received.start this] have r1: "received plain_sha two_bytes ?r1 [8]"
    by (simp add: receiver_new_def)
  have "accept_chunk plain_sha ?r1 1 [9] True = Ok (?r2, True)"
    by (simp add: accept_chunk_Ok receiver_new_def plain_sha_def two_bytes_def)
  from received.chunk [OF r1 this] have r2: "received plain_sha two_bytes ?r2 [8, 9]"
    by simp
  show ?thesis
    by (rule complete_transfer_digest [OF streams r2])
       (simp add: is_complete_and_valid_def receiver_new_def plain_sha_def two_bytes_def)
qed

text \<open>
  What the receiver answers for a chunk below the expected offset, contrary to
  its documentation: an exact repeat of the last chunk reports \<open>true\<close>, as new data
  does, so the caller stores it again; any other old chunk reports \<open>false\<close>. The
  receiver itself does not change in either case.
\<close>

theorem repeated_chunk_reported_fresh:
  assumes "last_chunk r = Some (offset, bytes)" "offset < next_offset r"
  shows "accept_chunk sha r offset bytes fin = Ok (r, True) \<and>
    (other \<noteq> bytes \<longrightarrow> accept_chunk sha r offset other fin = Ok (r, False))"
  using assms by (simp add: accept_chunk_Ok)

end
