(* ===== verification/Core_State.thy ===== *)
theory Core_State
  imports Config Protocol_Helpers
begin

text \<open>
  The state of the protocol core and its bookkeeping (\<open>src/core.rs\<close>): the struct
  \<open>RaftCore\<close> and its private helper types, construction, the run-time invariant
  check (\<open>src/invariant.rs\<close>), stopping, effect identifiers, the persistence
  barrier and the deduplication of effect completions.

  A method with \<open>&mut self\<close> and \<open>&mut effects\<close> is an \<open>action\<close>: it runs on the pair
  of the core and the effects emitted so far. \<open>self\<close> reads the core, \<open>assign\<close>
  mutates it, \<open>emit\<close> pushes an effect, \<open>attempt\<close> is \<open>map_err(..)?\<close>.
\<close>

section \<open>Types\<close>

datatype role = Follower | PreCandidate | Candidate | Leader

datatype input_error =
    WrongRecipient
  | WrongCluster
  | UnknownSender
  | StaleEffectGeneration
  | UnknownEffect
  | AlreadyCompleted
  | ConflictingEffectOutcome
  | InvalidEffectOutcome

datatype step_error =
    Input input_error
  | Arithmetic arithmetic_error
  | Log log_error
  | Entry entry_error
  | ApplyFailed
  | InvalidSnapshot
  | SnapshotFailed
  | CompactionFailed
  | PersistenceFailed
  | Fatal fatal_error
  | Stopped stopped_reason

record 'c step_output =
  out_effects :: "'c effect list"
  soft_state_changed :: bool

record append_response =
  resp_term :: log_term
  resp_success :: bool
  resp_conflict :: "conflict_hint option"
  resp_match_index :: log_index
  resp_read_context :: "read_context option"

datatype persist_continuation =
    BroadcastVoteRequests
  | SendVoteResponse node_id log_term bool
  | ActivateLeader
  | SendAppendEntriesResponse node_id append_response
  | ReplicateProposal
  | ApplyCommitted
  | NoContinuation

record pending_chunk_store =
  chunk_id :: effect_id
  chunk_done :: bool
  chunk_from :: node_id
  chunk_term :: log_term

datatype incoming_snapshot_state =
    Persisting effect_id snapshot_record node_id log_term
  | Installing effect_id snapshot_record node_id log_term

record pending_apply =
  apply_id :: effect_id
  apply_through :: log_index

record pending_persist =
  persist_id :: effect_id
  stable_through :: "log_index option"
  continuation :: persist_continuation

record ('c, 'h) raft_core =
  config :: raft_config
  hard_state :: hard_state
  role :: role
  pre_votes :: "quorum_tracker option"
  votes :: "quorum_tracker option"
  rlog :: "'c raft_log"
  last_log_index :: log_index
  last_log_term :: log_term
  active_members :: "node_id set"
  progress :: "(node_id, progress) btree_map"
  pending_persist :: "pending_persist option"
  pending_apply :: "pending_apply option"
  applied_index :: log_index
  proposals :: "(log_index, proposal_id list) btree_map"
  leader_noop_index :: "log_index option"
  pending_reads :: "read_id list"
  read_round :: "read_round option"
  next_read_context :: u64
  local_snapshot :: local_snapshot_state
  incoming_snapshot :: "'h snapshot_receiver option"
  pending_chunk_store :: "pending_chunk_store option"
  incoming_snapshot_state :: "incoming_snapshot_state option"
  snapshot_senders :: "(node_id, snapshot_sender) btree_map"
  pending_snapshot_reads :: "(effect_id, node_id) btree_map"
  snapshot_index :: log_index
  next_effect_sequence :: u64
  stopped :: bool
  stopped_reason :: "stopped_reason option"
  completed_frontier :: u64
  completed_sparse :: "u64 list"
  completed_outcomes :: "(effect_id, effect_outcome) btree_map"
  completion_order :: "effect_id list"

record status =
  status_local_id :: node_id
  status_term :: log_term
  status_role :: role
  status_stopped :: bool
  status_stopped_reason :: "stopped_reason option"

definition core_new :: "raft_config \<Rightarrow> 'c recovered_state \<Rightarrow> (('c, 'h) raft_core, init_error) result" where
  "core_new cfg recovered =
    (let snapshot_boundary = boundary_index (rec_snapshot recovered);
         final = (if rec_entries recovered = []
                  then (snapshot_boundary, boundary_term (rec_snapshot recovered))
                  else (entry_index (last (rec_entries recovered)), entry_term (last (rec_entries recovered))))
     in Ok \<lparr>config = cfg, hard_state = rec_hard_state recovered, role = Follower,
       pre_votes = None, votes = None, rlog = from_recovered recovered,
       last_log_index = fst final, last_log_term = snd final,
       active_members = {}, progress = [], pending_persist = None, pending_apply = None,
       applied_index = snapshot_boundary, proposals = [], leader_noop_index = None,
       pending_reads = [], read_round = None, next_read_context = 0, local_snapshot = Idle,
       incoming_snapshot = None, pending_chunk_store = None, incoming_snapshot_state = None,
       snapshot_senders = [], pending_snapshot_reads = [], snapshot_index = snapshot_boundary,
       next_effect_sequence = 0, stopped = False, stopped_reason = None,
       completed_frontier = 0, completed_sparse = [], completed_outcomes = [], completion_order = []\<rparr>)"

definition core_status :: "('c, 'h) raft_core \<Rightarrow> status" where
  "core_status c = \<lparr>status_local_id = cfg_local_id (config c),
     status_term = current_term (hard_state c), status_role = role c,
     status_stopped = stopped c, status_stopped_reason = stopped_reason c\<rparr>"

section \<open>Actions\<close>

type_synonym ('c, 'h) run = "('c, 'h) raft_core \<times> 'c effect list"
type_synonym ('c, 'h, 'a) action = "(('c, 'h) run, 'a, step_error) exec"

definition self :: "(('c, 'h) raft_core \<Rightarrow> ('c, 'h, 'a) action) \<Rightarrow> ('c, 'h, 'a) action" where
  "self f = (\<lambda>s. f (fst s) s)"

definition assign :: "(('c, 'h) raft_core \<Rightarrow> ('c, 'h) raft_core) \<Rightarrow> ('c, 'h, unit) action" where
  "assign f = modify (\<lambda>s. (f (fst s), snd s))"

definition emit :: "'c effect \<Rightarrow> ('c, 'h, unit) action" where
  "emit e = modify (\<lambda>s. (fst s, snd s @ [e]))"

definition attempt :: "('e \<Rightarrow> step_error) \<Rightarrow> ('a, 'e) result \<Rightarrow> ('c, 'h, 'a) action" where
  "attempt g r = lift_res (map_err g r)"

lemma action_eval [exec_simps]:
  "self f s = f (fst s) s" "assign g s = (Ok (), (g (fst s), snd s))"
  "emit e s = (Ok (), (fst s, snd s @ [e]))" "attempt h r s = (map_err h r, s)"
  by (simp_all add: self_def assign_def emit_def attempt_def exec_simps)

lemma post_action [post_simps]:
  "post (self f) s Q = post (f (fst s)) s Q"
  "post (assign g) s U = U (Ok ()) (g (fst s), snd s)"
  "post (emit e) s U = U (Ok ()) (fst s, snd s @ [e])"
  "post (attempt h r) s A = A (map_err h r) s"
  by (simp_all add: post_def exec_simps)

lemma keeps_self: "(\<And>c. keeps R (f c)) \<Longrightarrow> keeps R (self f)"
  by (simp add: keeps_def exec_simps)

section \<open>Lifecycle\<close>

definition validate ::
  "hard_state \<Rightarrow> 'c raft_log \<Rightarrow> log_index \<Rightarrow> log_index \<Rightarrow> log_term \<Rightarrow>
     (unit, invariant_violation) result" where
  "validate hs l applied final_index final_term =
    (let commit = commit_index hs in
     if applied > commit then Err AppliedPastCommit
     else if commit > last_index l then Err CommitPastLog
     else if log_committed l \<noteq> commit then Err CommitIndexMismatch
     else rbind (map_err (\<lambda>_. ViolationIndexOverflow) (checked_next commit)) (\<lambda>committed_next.
       rbind (map_err ViolationLog (first_index l)) (\<lambda>first.
         if first > committed_next then Err CommittedGap
         else if final_index \<noteq> last_index l then Err LastLogMismatch
         else rbind (map_err ViolationLog (log_term_at l (last_index l))) (\<lambda>t.
           if final_term \<noteq> t then Err LastLogMismatch else log_validate l))))"

definition validate_invariants :: "('c, 'h) raft_core \<Rightarrow> (unit, invariant_violation) result" where
  "validate_invariants c =
     validate (hard_state c) (rlog c) (applied_index c) (last_log_index c) (last_log_term c)"

definition stop :: "stopped_reason \<Rightarrow> ('c, 'h) raft_core \<Rightarrow> ('c, 'h) raft_core" where
  "stop reason c = c\<lparr>stopped_reason := (if stopped_reason c = None then Some reason else stopped_reason c),
     stopped := True\<rparr>"

definition fatal :: "fatal_error \<Rightarrow> ('c, 'h) raft_core \<Rightarrow> step_error \<times> ('c, 'h) raft_core" where
  "fatal e c = (Fatal e, stop (StoppedFatal e) c)"

definition fatalize :: "step_error \<Rightarrow> ('c, 'h) raft_core \<Rightarrow> step_error \<times> ('c, 'h) raft_core" where
  "fatalize e c = (case e of
     PersistenceFailed \<Rightarrow> fatal Storage c
   | CompactionFailed \<Rightarrow> fatal Storage c
   | ApplyFailed \<Rightarrow> fatal StateMachine c
   | SnapshotFailed \<Rightarrow> fatal StateMachine c
   | _ \<Rightarrow> (e, c))"

section \<open>Effects\<close>

definition next_effect_id :: "('c, 'h, effect_id) action" where
  "next_effect_id = self (\<lambda>c.
     bnd (attempt Arithmetic (ok_or (checked_add (next_effect_sequence c) 1) Overflow)) (\<lambda>n.
     bnd (assign (\<lambda>c. c\<lparr>next_effect_sequence := n\<rparr>)) (\<lambda>_.
     ret (EffectId (cfg_generation (config c)) n))))"

definition queue_persist ::
  "'c persist_batch \<Rightarrow> persist_continuation \<Rightarrow> ('c, 'h, unit) action" where
  "queue_persist batch cont = bnd next_effect_id (\<lambda>i. block
     [assign (\<lambda>c. c\<lparr>pending_persist := Some \<lparr>persist_id = i,
        stable_through = (if batch_entries batch = [] then None
                          else Some (entry_index (last (batch_entries batch)))),
        continuation = cont\<rparr>\<rparr>),
      emit (Persist i batch)])"

definition batch_of_hard_state :: "hard_state \<Rightarrow> 'c persist_batch" where
  "batch_of_hard_state hs = \<lparr>batch_hard_state = Some hs, batch_entries = [], batch_snapshot = None\<rparr>"

definition batch_of_entries :: "'c entry list \<Rightarrow> 'c persist_batch" where
  "batch_of_entries es = \<lparr>batch_hard_state = None, batch_entries = es, batch_snapshot = None\<rparr>"

section \<open>Completions\<close>

definition validate_completion ::
  "('c, 'h) raft_core \<Rightarrow> effect_id \<Rightarrow> effect_outcome \<Rightarrow> (unit, step_error) result" where
  "validate_completion c i outcome =
    (if generation i \<noteq> cfg_generation (config c) then Err (Input StaleEffectGeneration)
     else case bt_get (completed_outcomes c) i of
       Some previous \<Rightarrow> Err (Input (if previous = outcome then AlreadyCompleted
                                   else ConflictingEffectOutcome))
     | None \<Rightarrow>
         if sequence i \<le> completed_frontier c \<or> sequence i \<in> set (completed_sparse c)
         then Err (Input AlreadyCompleted) else Ok ())"

text \<open>\<open>completed_sparse\<close> is a \<open>BTreeSet\<close>: its elements in order, each once.\<close>

definition sparse_insert :: "u64 \<Rightarrow> u64 list \<Rightarrow> u64 list" where
  "sparse_insert x xs = (if x \<in> set xs then xs else insort x xs)"

function advance_frontier :: "u64 \<Rightarrow> u64 list \<Rightarrow> u64 \<times> u64 list" where
  "advance_frontier frontier sparse =
    (let n = saturating_add frontier 1 in
     if n \<in> set sparse then advance_frontier n (removeAll n sparse) else (frontier, sparse))"
  by pat_completeness auto
termination by (relation "measure (\<lambda>(_, sparse). length sparse)") (auto intro: length_removeAll_less)

declare advance_frontier.simps [simp del]

text \<open>The eviction loop: one identifier leaves the queue and the history at a
  time, until the queue is short enough.\<close>

fun evict :: "nat \<Rightarrow> effect_id list \<Rightarrow> (effect_id, effect_outcome) btree_map \<Rightarrow>
    effect_id list \<times> (effect_id, effect_outcome) btree_map" where
  "evict limit [] outcomes = ([], outcomes)"
| "evict limit (expired # order) outcomes =
     (if length (expired # order) > limit then evict limit order (bt_remove expired outcomes)
      else (expired # order, outcomes))"

definition record_completion ::
  "effect_id \<Rightarrow> effect_outcome \<Rightarrow> ('c, 'h) raft_core \<Rightarrow> ('c, 'h) raft_core" where
  "record_completion i outcome c =
    (let outcomes = bt_insert i outcome (completed_outcomes c);
         order = completion_order c @ [i];
         (frontier, sparse) =
           (if sequence i = saturating_add (completed_frontier c) 1
            then advance_frontier (sequence i) (completed_sparse c)
            else (completed_frontier c, sparse_insert (sequence i) (completed_sparse c)));
         (order, outcomes) = evict (unat (cfg_completion_history (config c))) order outcomes
     in c\<lparr>completed_outcomes := outcomes, completion_order := order,
          completed_frontier := frontier, completed_sparse := sparse\<rparr>)"

section \<open>Stepping down\<close>

definition become_follower :: "('c, 'h) raft_core \<Rightarrow> ('c, 'h) raft_core" where
  "become_follower c = c\<lparr>role := Follower, pre_votes := None, votes := None, active_members := {},
     progress := [], leader_noop_index := None, pending_reads := [], read_round := None\<rparr>"

definition begin_term_transition :: "log_term \<Rightarrow> persist_continuation \<Rightarrow> ('c, 'h, unit) action" where
  "begin_term_transition t cont = block
     [assign become_follower,
      assign (\<lambda>c. c\<lparr>hard_state := hard_state_new t None (commit_index (hard_state c))\<rparr>),
      self (\<lambda>c. queue_persist (batch_of_hard_state (hard_state c)) cont)]"

section \<open>Responses\<close>

definition send_pre_vote_response :: "node_id \<Rightarrow> bool \<Rightarrow> ('c, 'h, unit) action" where
  "send_pre_vote_response to grant =
     self (\<lambda>c. emit (SendMessage to (PreVoteResponse (current_term (hard_state c)) grant)))"

definition send_append_entries_response :: "node_id \<Rightarrow> append_response \<Rightarrow> ('c, 'h, unit) action" where
  "send_append_entries_response to r = emit (SendMessage to
     (AppendEntriesResponse (resp_term r) (resp_success r) (resp_match_index r) (resp_conflict r)
        (resp_read_context r)))"

definition send_vote_response :: "node_id \<Rightarrow> log_term \<Rightarrow> bool \<Rightarrow> ('c, 'h, unit) action" where
  "send_vote_response to t grant = emit (SendMessage to (VoteResponse t grant))"

end
