(* ===== verification/Core_Replication.thy ===== *)
theory Core_Replication
  imports Core_State
begin

text \<open>
  The leader's side of replication and the application of committed entries
  (\<open>src/core.rs\<close>): proposals, batches, snapshot chunks for lagging followers,
  the commit index, and the results reported to clients.
\<close>

section \<open>Sending the log\<close>

definition initialize_progress :: "('c, 'h, unit) action" where
  "initialize_progress = self (\<lambda>c.
     bnd (lift_res (expect_ok (checked_next (last_index (rlog c))))) (\<lambda>next_idx. block
       [assign (\<lambda>c. c\<lparr>progress := []\<rparr>),
        for_each (cfg_members (config c)) (\<lambda>node.
          if node \<noteq> cfg_local_id (config c)
          then assign (\<lambda>c. c\<lparr>progress := bt_insert node
                 (progress_new next_idx (cfg_max_inflight_appends (config c))) (progress c)\<rparr>)
          else ret ())]))"

fun batch_loop :: "usize \<Rightarrow> usize \<Rightarrow> 'c entry list \<Rightarrow> usize \<Rightarrow> 'c entry list \<Rightarrow> 'c entry list" where
  "batch_loop max_entries max_bytes batch bytes [] = batch"
| "batch_loop max_entries max_bytes batch bytes (e # es) =
    (let next_bytes = saturating_add bytes (encoded_len e) in
     if batch \<noteq> [] \<and> (length batch = unat max_entries \<or> next_bytes > max_bytes) then batch
     else if length (batch @ [e]) = unat max_entries then batch @ [e]
     else batch_loop max_entries max_bytes (batch @ [e]) next_bytes es)"

definition replication_batch ::
  "('c, 'h) raft_core \<Rightarrow> log_index \<Rightarrow> ('c entry list, step_error) result" where
  "replication_batch c next_idx =
    (if next_idx > last_index (rlog c) then Ok []
     else rbind (map_err Log (log_range (rlog c) next_idx (last_index (rlog c)))) (\<lambda>entries.
       Ok (batch_loop (cfg_max_entries_per_rpc (config c)) (cfg_max_bytes_per_rpc (config c)) [] 0 entries)))"

definition read_snapshot_chunk :: "node_id \<Rightarrow> ('c, 'h, unit) action" where
  "read_snapshot_chunk to = self (\<lambda>c.
     if to \<in> set (bt_values (pending_snapshot_reads c)) then ret ()
     else block
       [case bt_get (snapshot_senders c) to of
          Some _ \<Rightarrow> ret ()
        | None \<Rightarrow> bnd (lift_res (ok_or (log_snapshot (rlog c)) InvalidSnapshot)) (\<lambda>snapshot.
            assign (\<lambda>c. c\<lparr>snapshot_senders := bt_insert to (sender_new snapshot) (snapshot_senders c)\<rparr>)),
        self (\<lambda>c. bnd (lift_res (expect_some (bt_get (snapshot_senders c) to))) (\<lambda>sender.
          bnd next_effect_id (\<lambda>i. block
            [assign (\<lambda>c. c\<lparr>pending_snapshot_reads := bt_insert i to (pending_snapshot_reads c)\<rparr>),
             emit (ReadSnapshotChunk i (send_snapshot sender) (send_offset sender)
                     (cfg_snapshot_chunk_bytes (config c)))])))])"

definition replicate_to :: "node_id \<Rightarrow> ('c, 'h, unit) action" where
  "replicate_to to = self (\<lambda>c. case bt_get (progress c) to of
     None \<Rightarrow> ret ()
   | Some p \<Rightarrow>
       if \<not> can_send p then ret ()
       else bnd (attempt Log (first_index (rlog c))) (\<lambda>first.
         if next_index p < first then block
           [assign (\<lambda>c. c\<lparr>progress := bt_insert to (enter_snapshot p) (progress c)\<rparr>),
            read_snapshot_chunk to]
         else bnd (lift_res (sub_u64 (next_index p) 1)) (\<lambda>prev_log_index.
           bnd (attempt Log (log_term_at (rlog c) prev_log_index)) (\<lambda>prev_log_term.
           bnd (lift_res (replication_batch c (next_index p))) (\<lambda>entries.
           bnd (lift_res (sent p (if entries = [] then prev_log_index else entry_index (last entries))))
             (\<lambda>p'. block
               [assign (\<lambda>c. c\<lparr>progress := bt_insert to p' (progress c)\<rparr>),
                emit (SendMessage to (AppendEntries (current_term (hard_state c)) prev_log_index
                  prev_log_term (commit_index (hard_state c)) None entries))]))))))"

definition replicate_all :: "('c, 'h, unit) action" where
  "replicate_all = self (\<lambda>c. for_each (bt_keys (progress c)) replicate_to)"

section \<open>Committing\<close>

definition advance_commit :: "('c, 'h, unit) action" where
  "advance_commit = self (\<lambda>c.
     if pending_persist c \<noteq> None then ret ()
     else bnd (attempt Log (quorum_commit (rlog c) (progress c) (cfg_quorum (config c))
                 (current_term (hard_state c)))) (\<lambda>decision.
       case decision of
         None \<Rightarrow> ret ()
       | Some commit \<Rightarrow> bnd (attempt Log (commit_to (rlog c) commit)) (\<lambda>l. block
           [assign (\<lambda>c. c\<lparr>rlog := l\<rparr>),
            assign (\<lambda>c. c\<lparr>hard_state := hard_state_new (current_term (hard_state c))
                           (voted_for (hard_state c)) commit\<rparr>),
            self (\<lambda>c. queue_persist (batch_of_hard_state (hard_state c)) ApplyCommitted)])))"

section \<open>Applying\<close>

definition emit_apply_if_needed :: "('c, 'h, unit) action" where
  "emit_apply_if_needed = self (\<lambda>c.
     if pending_persist c \<noteq> None \<or> pending_apply c \<noteq> None \<or>
        applied_index c \<ge> commit_index (hard_state c) then ret ()
     else bnd (attempt Arithmetic (checked_next (applied_index c))) (\<lambda>start.
       bnd (attempt Log (log_range (rlog c) start (commit_index (hard_state c)))) (\<lambda>entries.
       bnd next_effect_id (\<lambda>i. block
         [assign (\<lambda>d. d\<lparr>pending_apply := Some \<lparr>apply_id = i,
                         apply_through = commit_index (hard_state c)\<rparr>\<rparr>),
          emit (Apply i entries)]))))"

text \<open>Both reports of proposal results walk over the indexes of a key range and
  remove them one by one.\<close>

definition report_at :: "(log_index \<Rightarrow> proposal_result) \<Rightarrow> log_index \<Rightarrow> ('c, 'h, unit) action" where
  "report_at verdict i = self (\<lambda>c. case bt_get (proposals c) i of
     None \<Rightarrow> ret ()
   | Some ids \<Rightarrow> block
       [assign (\<lambda>c. c\<lparr>proposals := bt_remove i (proposals c)\<rparr>),
        for_each ids (\<lambda>pid. emit (ProposalResult pid (verdict i)))])"

definition finish_apply :: "log_index \<Rightarrow> ('c, 'h, unit) action" where
  "finish_apply through = self (\<lambda>c.
     for_each (filter (\<lambda>i. i \<le> through) (bt_keys (proposals c))) (report_at Applied))"

definition fail_uncommitted_proposals :: "('c, 'h, unit) action" where
  "fail_uncommitted_proposals = self (\<lambda>c.
     for_each (filter (\<lambda>i. commit_index (hard_state c) < i) (bt_keys (proposals c)))
       (report_at (\<lambda>_. LeadershipLost)))"

section \<open>Proposals\<close>

definition on_propose :: "proposal_id \<Rightarrow> 'c \<Rightarrow> usize \<Rightarrow> ('c, 'h, unit) action" where
  "on_propose pid cmd len = self (\<lambda>c.
     if role c \<noteq> Leader then emit (ProposalResult pid LeadershipLost)
     else if pending_persist c \<noteq> None \<or> len > cfg_max_bytes_per_rpc (config c)
     then emit (ProposalResult pid Rejected)
     else bnd (attempt Arithmetic (checked_next (last_log_index c))) (\<lambda>index.
       bnd (attempt Entry (entry_command index (current_term (hard_state c)) cmd len)) (\<lambda>entry.
       bnd (attempt Log (log_append (rlog c) [entry])) (\<lambda>l. block
         [assign (\<lambda>c. c\<lparr>rlog := l, last_log_index := index,
            last_log_term := current_term (hard_state c),
            proposals := bt_insert index
              ((case bt_get (proposals c) index of None \<Rightarrow> [] | Some ids \<Rightarrow> ids) @ [pid])
              (proposals c)\<rparr>),
          queue_persist (batch_of_entries [entry]) ReplicateProposal]))))"

end
