(* ===== verification/Core_Reads.thy ===== *)
theory Core_Reads
  imports Core_Replication
begin

text \<open>
  Linearizable reads (\<open>src/core.rs\<close>, read-index handling): requests are queued
  until the leader's no-op commits, batched into rounds, confirmed by a quorum of
  acknowledgements and released when the applied index has caught up.
\<close>

definition current_leader_noop_is_committed :: "('c, 'h) raft_core \<Rightarrow> bool" where
  "current_leader_noop_is_committed c =
     (case leader_noop_index c of None \<Rightarrow> False | Some i \<Rightarrow> i \<le> commit_index (hard_state c))"

definition send_read_heartbeats :: "('c, 'h, unit) action" where
  "send_read_heartbeats = self (\<lambda>c.
     bnd (lift_res (expect_some (read_round c))) (\<lambda>round.
     bnd (attempt Log (log_term_at (rlog c) (last_index (rlog c)))) (\<lambda>prev_log_term.
     for_each (cfg_members (config c)) (\<lambda>node.
       if node \<noteq> cfg_local_id (config c)
       then emit (SendMessage node (AppendEntries (current_term (hard_state c)) (last_index (rlog c))
              prev_log_term (commit_index (hard_state c)) (Some (round_context round)) []))
       else ret ()))))"

definition release_round :: "('c, 'h) run \<Rightarrow> ('c, 'h) run" where
  "release_round s = (case read_round (fst s) of
     None \<Rightarrow> s
   | Some round \<Rightarrow> (case safe_index round of
       None \<Rightarrow> s
     | Some index \<Rightarrow>
         if applied_index (fst s) \<ge> index
         then ((fst s)\<lparr>read_round := None\<rparr>, snd s @ map (\<lambda>rid. ReadReady rid index) (requests round))
         else s))"

definition release_read_round :: "('c, 'h, unit) action" where
  "release_read_round = modify release_round"

lemma release_round_frame [simp]:
  "pending_reads (fst (release_round s)) = pending_reads (fst s)"
  by (simp add: release_round_def split: option.splits)

text \<open>The round that \<open>start_read_round\<close> creates, and the same round confirmed at
  once in a group of one node.\<close>

definition fresh_round :: "('c, 'h) raft_core \<Rightarrow> u64 \<Rightarrow> read_id \<Rightarrow> read_round" where
  "fresh_round c counter rid =
     read_round_new (read_context_of (current_term (hard_state c)) counter) (cfg_members (config c))
       (cfg_local_id (config c)) rid"

function start_read_round :: "read_id \<Rightarrow> ('c, 'h, unit) action"
  and start_pending_reads :: "('c, 'h, unit) action" where
  "start_read_round rid s =
    (case checked_add (next_read_context (fst s)) 1 of
       None \<Rightarrow> (Err (Arithmetic Overflow), s)
     | Some counter \<Rightarrow>
         let c = fst s; round = fresh_round c counter rid in
         if round_has_quorum round
         then start_pending_reads (release_round
                (c\<lparr>next_read_context := counter,
                   read_round := Some (set_safe_index round (commit_index (hard_state c)))\<rparr>, snd s))
         else send_read_heartbeats (c\<lparr>next_read_context := counter, read_round := Some round\<rparr>, snd s))"
| "start_pending_reads s =
    (if role (fst s) \<noteq> Leader \<or> \<not> current_leader_noop_is_committed (fst s) \<or> read_round (fst s) \<noteq> None
     then (Ok (), s)
     else case pending_reads (fst s) of
       [] \<Rightarrow> (Ok (), s)
     | rid # rest \<Rightarrow> start_read_round rid ((fst s)\<lparr>pending_reads := rest\<rparr>, snd s))"
  by pat_completeness auto
termination
  by (relation "measure (\<lambda>x. case x of Inl (_, s) \<Rightarrow> 2 * length (pending_reads (fst s)) + 2
        | Inr s \<Rightarrow> 2 * length (pending_reads (fst s)) + 1)") auto

declare start_read_round.simps [simp del] start_pending_reads.simps [simp del]

text \<open>A relation that the statements of the two functions keep is kept by them. A read comes
  from the front of the queue, or from the caller of \<open>start_read_round\<close>, who then vouches for
  the round it opens.\<close>

lemma fresh_round_queue [simp]: "fresh_round (c\<lparr>pending_reads := q\<rparr>) n rid = fresh_round c n rid"
  by (simp add: fresh_round_def)

lemma start_reads_rel:
  fixes R :: "('c, 'h) run \<Rightarrow> ('c, 'h) run \<Rightarrow> bool"
  assumes "state_relation R"
    and pop: "\<And>c fx rid rest. pending_reads c = rid # rest \<Longrightarrow> R (c, fx) (c\<lparr>pending_reads := rest\<rparr>, fx)"
    and enter: "\<And>c fx n rid rest. role c = Leader \<Longrightarrow> current_leader_noop_is_committed c \<Longrightarrow> read_round c = None \<Longrightarrow>
      pending_reads c = rid # rest \<Longrightarrow>
      R (c, fx) (c\<lparr>pending_reads := rest, next_read_context := n, read_round := Some (fresh_round c n rid)\<rparr>, fx)"
    and confirm: "\<And>c fx n rid rest. role c = Leader \<Longrightarrow> current_leader_noop_is_committed c \<Longrightarrow> read_round c = None \<Longrightarrow>
      pending_reads c = rid # rest \<Longrightarrow> round_has_quorum (fresh_round c n rid) \<Longrightarrow>
      R (c, fx) (c\<lparr>pending_reads := rest, next_read_context := n,
        read_round := Some (set_safe_index (fresh_round c n rid) (commit_index (hard_state c)))\<rparr>, fx)"
    and heartbeats: "keeps R send_read_heartbeats" and release: "\<And>s. R s (release_round s)"
  shows "R s0 (c, fx) \<Longrightarrow>
      (\<And>n. R s0 (c\<lparr>next_read_context := n, read_round := Some (fresh_round c n rid)\<rparr>, fx)) \<Longrightarrow>
      (\<And>n. round_has_quorum (fresh_round c n rid) \<Longrightarrow> R s0 (c\<lparr>next_read_context := n,
        read_round := Some (set_safe_index (fresh_round c n rid) (commit_index (hard_state c)))\<rparr>, fx)) \<Longrightarrow>
      R s0 (snd (start_read_round rid (c, fx)))"
    and "R s (snd (start_pending_reads s))"
proof -
  note rel = state_relation.rel_refl [OF assms(1)] state_relation.rel_trans [OF assms(1)]
  have "(\<forall>s0. R s0 s \<longrightarrow> (\<forall>n. R s0 ((fst s)\<lparr>next_read_context := n, read_round := Some (fresh_round (fst s) n rid)\<rparr>, snd s)) \<longrightarrow>
      (\<forall>n. round_has_quorum (fresh_round (fst s) n rid) \<longrightarrow> R s0 ((fst s)\<lparr>next_read_context := n,
        read_round := Some (set_safe_index (fresh_round (fst s) n rid) (commit_index (hard_state (fst s))))\<rparr>, snd s)) \<longrightarrow>
      R s0 (snd (start_read_round rid s)))" "R s' (snd (start_pending_reads s'))" for rid s s'
  proof (induction rid s and s' rule: start_read_round_start_pending_reads.induct)
    case (1 rid s)
    obtain c fx where s: "s = (c, fx)" by (cases s)
    show ?case
    proof (intro allI impI)
      fix s0
      assume at: "R s0 s" "\<forall>n. R s0 ((fst s)\<lparr>next_read_context := n, read_round := Some (fresh_round (fst s) n rid)\<rparr>, snd s)"
        "\<forall>n. round_has_quorum (fresh_round (fst s) n rid) \<longrightarrow> R s0 ((fst s)\<lparr>next_read_context := n,
          read_round := Some (set_safe_index (fresh_round (fst s) n rid) (commit_index (hard_state (fst s))))\<rparr>, snd s)"
      show "R s0 (snd (start_read_round rid s))"
      proof (cases "checked_add (next_read_context c) 1")
        case None
        then show ?thesis using at(1) by (simp add: s start_read_round.simps)
      next
        case (Some n)
        let ?r = "fresh_round c n rid"
        let ?t = "(c\<lparr>next_read_context := n, read_round := Some (set_safe_index ?r (commit_index (hard_state c)))\<rparr>, fx)"
        have "R s0 (snd (start_pending_reads (release_round ?t)))" if q: "round_has_quorum ?r"
          using rel(2) [of s0 ?t, OF _ rel(2) [OF release]] at(3) 1 Some q by (simp add: s)
        moreover have "R s0 (snd (send_read_heartbeats (c\<lparr>next_read_context := n, read_round := Some ?r\<rparr>, fx)))"
          using rel(2) [OF _ keeps_at [OF heartbeats]] at(2) by (simp add: s)
        ultimately show ?thesis using Some by (auto simp: s start_read_round.simps Let_def)
      qed
    qed
  next
    case (2 s)
    obtain c fx where s: "s = (c, fx)" by (cases s)
    show ?case
    proof (cases "role c = Leader \<and> current_leader_noop_is_committed c \<and> read_round c = None \<and> pending_reads c \<noteq> []")
      case True
      then obtain rid rest where q: "pending_reads c = rid # rest" by (cases "pending_reads c") auto
      have "R (c, fx) (snd (start_read_round rid (c\<lparr>pending_reads := rest\<rparr>, fx)))"
        using 2 True q pop [OF q] enter [of c rid rest] confirm [of c rid rest] by (simp add: s)
      then show ?thesis using True q by (simp add: s start_pending_reads.simps [of "(c, fx)"])
    next
      case False
      then show ?thesis by (auto simp: s start_pending_reads.simps [of "(c, fx)"] rel(1) split: list.split)
    qed
  qed
  note both = this
  show "R s (snd (start_pending_reads s))" by (rule both)
  show "R s0 (snd (start_read_round rid (c, fx)))" if "R s0 (c, fx)"
    "\<And>n. R s0 (c\<lparr>next_read_context := n, read_round := Some (fresh_round c n rid)\<rparr>, fx)"
    "\<And>n. round_has_quorum (fresh_round c n rid) \<Longrightarrow> R s0 (c\<lparr>next_read_context := n,
        read_round := Some (set_safe_index (fresh_round c n rid) (commit_index (hard_state c)))\<rparr>, fx)"
    using both(1) [of "(c, fx)" rid] that by (cases s0) simp
qed

text \<open>The same for a relation that does not look at where the reads come from.\<close>

lemma start_reads_keep:
  fixes R :: "('c, 'h) run \<Rightarrow> ('c, 'h) run \<Rightarrow> bool"
  assumes "state_relation R"
    and pop: "\<And>c fx q. R (c, fx) (c\<lparr>pending_reads := q\<rparr>, fx)"
    and enter: "\<And>c fx n rid. R (c, fx) (c\<lparr>next_read_context := n, read_round := Some (fresh_round c n rid)\<rparr>, fx)"
    and confirm: "\<And>c fx n rid. round_has_quorum (fresh_round c n rid) \<Longrightarrow>
      R (c, fx) (c\<lparr>next_read_context := n,
        read_round := Some (set_safe_index (fresh_round c n rid) (commit_index (hard_state c)))\<rparr>, fx)"
    and heartbeats: "keeps R send_read_heartbeats" and release: "\<And>s. R s (release_round s)"
  shows "keeps R (start_read_round rid)" "keeps R start_pending_reads"
proof -
  note trans = state_relation.rel_trans [OF assms(1)]
  have enter': "R (c, fx) (c\<lparr>pending_reads := q, next_read_context := n, read_round := Some (fresh_round c n rid)\<rparr>, fx)" for c fx q n rid
    using trans [OF pop [of c fx q] enter [of "c\<lparr>pending_reads := q\<rparr>" fx n rid]] by simp
  have confirm': "R (c, fx) (c\<lparr>pending_reads := q, next_read_context := n,
      read_round := Some (set_safe_index (fresh_round c n rid) (commit_index (hard_state c)))\<rparr>, fx)"
    if "round_has_quorum (fresh_round c n rid)" for c fx q n rid
    using trans [OF pop [of c fx q] confirm [of "c\<lparr>pending_reads := q\<rparr>" n rid fx]] that by simp
  note start = start_reads_rel [OF assms(1) pop enter' confirm' heartbeats release]
  show "keeps R start_pending_reads" unfolding keeps_def using start(2) by blast
  show "keeps R (start_read_round rid)"
    by (auto simp: keeps_def intro!: start(1) state_relation.rel_refl [OF assms(1)] enter confirm)
qed

definition on_read :: "read_id \<Rightarrow> ('c, 'h, unit) action" where
  "on_read rid = self (\<lambda>c.
     if role c \<noteq> Leader then ret ()
     else if length (pending_reads c) + (case read_round c of None \<Rightarrow> 0 | Some r \<Rightarrow> request_count r)
             \<ge> unat (cfg_max_pending_reads (config c)) then ret ()
     else if \<not> current_leader_noop_is_committed c
     then assign (\<lambda>c. c\<lparr>pending_reads := pending_reads c @ [rid]\<rparr>)
     else case read_round c of
       Some round \<Rightarrow> assign (\<lambda>c. c\<lparr>read_round := Some (round_push round rid)\<rparr>)
     | None \<Rightarrow> start_read_round rid)"

definition acknowledge_read_context :: "node_id \<Rightarrow> u8 list \<Rightarrow> ('c, 'h, unit) action" where
  "acknowledge_read_context peer ctx = self (\<lambda>c. case read_round c of
     None \<Rightarrow> ret ()
   | Some round \<Rightarrow>
       if round_context round \<noteq> ctx then ret ()
       else
         let acked = acknowledge round peer;
             round' = (if round_has_quorum acked \<and> safe_index acked = None
                       then set_safe_index acked (commit_index (hard_state c)) else acked)
         in block
           [assign (\<lambda>c. c\<lparr>read_round := Some round'\<rparr>),
            release_read_round,
            start_pending_reads])"

end
