(* ===== verification/Core_Election.thy ===== *)
theory Core_Election
  imports Core_Reads
begin

text \<open>
  Elections (\<open>src/core.rs\<close>): the PreVote round, candidacy, votes, the leader's
  no-op, and CheckQuorum on the heartbeat tick.
\<close>

section \<open>Requests\<close>

definition broadcast_pre_vote :: "log_term \<Rightarrow> ('c, 'h, unit) action" where
  "broadcast_pre_vote t = self (\<lambda>c. for_each (cfg_members (config c)) (\<lambda>node.
     if node \<noteq> cfg_local_id (config c)
     then emit (SendMessage node (PreVote t (last_log_index c) (last_log_term c))) else ret ()))"

definition broadcast_vote_request :: "log_term \<Rightarrow> ('c, 'h, unit) action" where
  "broadcast_vote_request t = self (\<lambda>c. for_each (cfg_members (config c)) (\<lambda>node.
     if node \<noteq> cfg_local_id (config c)
     then emit (SendMessage node (RequestVote t (last_log_index c) (last_log_term c))) else ret ()))"

section \<open>Candidacy\<close>

definition become_candidate :: "('c, 'h, unit) action" where
  "become_candidate = self (\<lambda>c.
     bnd (attempt Arithmetic (checked_next (current_term (hard_state c)))) (\<lambda>t. block
       [assign (\<lambda>c. c\<lparr>role := Candidate, pre_votes := None,
          votes := Some (with_local_vote (cfg_members (config c)) (cfg_local_id (config c))),
          hard_state := hard_state_new t (Some (cfg_local_id (config c))) (commit_index (hard_state c))\<rparr>),
        self (\<lambda>c. queue_persist (batch_of_hard_state (hard_state c)) BroadcastVoteRequests)]))"

definition start_pre_vote :: "('c, 'h, unit) action" where
  "start_pre_vote = self (\<lambda>c.
     if role c = Leader \<or> pending_persist c \<noteq> None then ret ()
     else bnd (attempt Arithmetic (checked_next (current_term (hard_state c)))) (\<lambda>prospective. block
       [assign (\<lambda>c. c\<lparr>role := PreCandidate, votes := None,
          pre_votes := Some (with_local_vote (cfg_members (config c)) (cfg_local_id (config c)))\<rparr>),
        self (\<lambda>c. if (case pre_votes c of None \<Rightarrow> False | Some q \<Rightarrow> has_quorum q)
                  then become_candidate else broadcast_pre_vote prospective)]))"

definition persist_leader_noop :: "('c, 'h, unit) action" where
  "persist_leader_noop = self (\<lambda>c.
     bnd (attempt Arithmetic (checked_next (last_log_index c))) (\<lambda>index.
     bnd (lift_res (expect_ok (leader_noop index (current_term (hard_state c))))) (\<lambda>entry.
     bnd (attempt Log (log_append (rlog c) [entry])) (\<lambda>l. block
       [assign (\<lambda>c. c\<lparr>rlog := l, last_log_index := index,
          last_log_term := current_term (hard_state c), leader_noop_index := Some index\<rparr>),
        queue_persist (batch_of_entries [entry]) ActivateLeader]))))"

section \<open>Votes\<close>

definition on_vote_request ::
  "node_id \<Rightarrow> log_term \<Rightarrow> log_index \<Rightarrow> log_term \<Rightarrow> ('c, 'h, unit) action" where
  "on_vote_request peer t index log_t = self (\<lambda>c.
    (let current = current_term (hard_state c);
         log_is_current = is_log_up_to_date index log_t (last_log_index c) (last_log_term c)
     in if t < current then send_vote_response peer current False
     else if t > current then block
       [assign (\<lambda>c. c\<lparr>role := Follower, pre_votes := None, votes := None,
          hard_state := hard_state_new t (if log_is_current then Some peer else None)
                          (commit_index (hard_state c))\<rparr>),
        self (\<lambda>c. queue_persist (batch_of_hard_state (hard_state c))
                    (SendVoteResponse peer t log_is_current))]
     else
       let grant = log_is_current \<and>
             (case voted_for (hard_state c) of None \<Rightarrow> True | Some node \<Rightarrow> node = peer)
       in if grant \<and> voted_for (hard_state c) = None then block
            [assign (\<lambda>c. c\<lparr>hard_state := hard_state_new t (Some peer) (commit_index (hard_state c))\<rparr>),
             self (\<lambda>c. queue_persist (batch_of_hard_state (hard_state c))
                         (SendVoteResponse peer t grant))]
          else send_vote_response peer t grant))"

definition on_pre_vote_response :: "node_id \<Rightarrow> log_term \<Rightarrow> bool \<Rightarrow> ('c, 'h, unit) action" where
  "on_pre_vote_response peer t grant = self (\<lambda>c.
     if t > current_term (hard_state c) then begin_term_transition t NoContinuation
     else if role c \<noteq> PreCandidate then ret ()
     else case pre_votes c of
       None \<Rightarrow> ret ()
     | Some q \<Rightarrow> let q = record_vote q peer grant in block
         [assign (\<lambda>c. c\<lparr>pre_votes := Some q\<rparr>),
          if has_quorum q then become_candidate
          else if cannot_win q then assign (\<lambda>c. c\<lparr>role := Follower, pre_votes := None\<rparr>)
          else ret ()])"

definition on_vote_response :: "node_id \<Rightarrow> log_term \<Rightarrow> bool \<Rightarrow> ('c, 'h, unit) action" where
  "on_vote_response peer t grant = self (\<lambda>c.
     if t > current_term (hard_state c) then begin_term_transition t NoContinuation
     else if t \<noteq> current_term (hard_state c) \<or> role c \<noteq> Candidate then ret ()
     else case votes c of
       None \<Rightarrow> ret ()
     | Some q \<Rightarrow> let q = record_vote q peer grant in block
         [assign (\<lambda>c. c\<lparr>votes := Some q\<rparr>),
          if has_quorum q then persist_leader_noop
          else if cannot_win q then assign (\<lambda>c. c\<lparr>role := Follower, votes := None\<rparr>)
          else ret ()])"

section \<open>Heartbeat ticks\<close>

definition on_heartbeat_tick :: "('c, 'h, unit) action" where
  "on_heartbeat_tick = self (\<lambda>c.
     if role c \<noteq> Leader \<or> pending_persist c \<noteq> None then ret ()
     else if card (active_members c) < cfg_quorum (config c) then assign become_follower
     else block
       [assign (\<lambda>c. c\<lparr>active_members := {cfg_local_id (config c)},
          progress := map (\<lambda>(node, p). (node, reset_activity p)) (progress c)\<rparr>),
        replicate_all])"

end
