(* ===== verification/Core_Append.thy ===== *)
theory Core_Append
  imports Core_Reads
begin

text \<open>
  AppendEntries (\<open>src/core.rs\<close>): the follower's handler, which checks the prefix,
  merges, commits and persists before it answers, and the leader's handler for
  the answer.
\<close>

section \<open>Follower side\<close>

text \<open>The middle part of \<open>on_append_entries\<close>: the decision on the prefix, the
  merge and the commit, up to the triple \<open>(success, conflict, appended)\<close>.\<close>

definition append_to_log ::
  "log_index \<Rightarrow> log_term \<Rightarrow> log_index \<Rightarrow> 'c entry list \<Rightarrow>
     ('c, 'h, bool \<times> conflict_hint option \<times> 'c entry list) action" where
  "append_to_log prev_log_index prev_log_term leader_commit entries = self (\<lambda>c.
     bnd (attempt Log (validate_prefix (rlog c) prev_log_index prev_log_term)) (\<lambda>decision.
       case decision of
         Reject conflict \<Rightarrow> ret (False, Some conflict, [])
       | Match \<Rightarrow>
           bnd (attempt Log (merge_from_leader (rlog c) entries)) (\<lambda>(l, appended).
           bnd (assign (\<lambda>c. c\<lparr>rlog := l\<rparr>)) (\<lambda>_.
           bnd (attempt Log (commit_to l (min leader_commit (last_index l)))) (\<lambda>l.
           bnd (assign (\<lambda>c. c\<lparr>rlog := l, last_log_index := last_index l\<rparr>)) (\<lambda>_.
           bnd (attempt Log (log_term_at l (last_index l))) (\<lambda>t.
           bnd (assign (\<lambda>c. c\<lparr>last_log_term := t\<rparr>)) (\<lambda>_.
           ret (True, None, appended)))))))))"

text \<open>Its last part: adopt the term and the commit index, and answer, after
  persisting what changed.\<close>

definition conclude_append ::
  "node_id \<Rightarrow> log_term \<Rightarrow> bool \<Rightarrow> log_index \<Rightarrow> read_context option \<Rightarrow>
     bool \<Rightarrow> conflict_hint option \<Rightarrow> 'c entry list \<Rightarrow> ('c, 'h, unit) action" where
  "conclude_append peer t term_changed prev_log_index ctx success conflict appended = self (\<lambda>c.
    (let commit_changed = commit_index (hard_state c) \<noteq> log_committed (rlog c) in
     bnd (if term_changed \<or> commit_changed
          then assign (\<lambda>c. c\<lparr>hard_state := hard_state_new t
                 (if term_changed then None else voted_for (hard_state c)) (log_committed (rlog c))\<rparr>)
          else ret ()) (\<lambda>_. self (\<lambda>c.
       let response = \<lparr>resp_term = current_term (hard_state c), resp_success = success,
             resp_conflict = conflict,
             resp_match_index = (if success then last_index (rlog c) else prev_log_index),
             resp_read_context = ctx\<rparr>
       in if term_changed \<or> commit_changed \<or> appended \<noteq> []
          then queue_persist
            \<lparr>batch_hard_state = (if term_changed \<or> commit_changed then Some (hard_state c) else None),
             batch_entries = appended, batch_snapshot = None\<rparr>
            (SendAppendEntriesResponse peer response)
          else send_append_entries_response peer response))))"

definition on_append_entries ::
  "node_id \<Rightarrow> log_term \<Rightarrow> log_index \<Rightarrow> log_term \<Rightarrow> log_index \<Rightarrow> read_context option \<Rightarrow>
     'c entry list \<Rightarrow> ('c, 'h, unit) action" where
  "on_append_entries peer t prev_log_index prev_log_term leader_commit ctx entries = self (\<lambda>c.
    (let cur = current_term (hard_state c) in
     if t < cur then
       send_append_entries_response peer \<lparr>resp_term = cur, resp_success = False,
         resp_conflict = None, resp_match_index = prev_log_index, resp_read_context = ctx\<rparr>
     else bnd (assign become_follower) (\<lambda>_.
       bnd (append_to_log prev_log_index prev_log_term leader_commit entries)
         (\<lambda>(success, conflict, appended).
           conclude_append peer t (t > cur) prev_log_index ctx success conflict appended))))"

section \<open>Leader side\<close>

definition on_append_entries_response ::
  "node_id \<Rightarrow> log_term \<Rightarrow> bool \<Rightarrow> log_index \<Rightarrow> conflict_hint option \<Rightarrow> read_context option \<Rightarrow>
     ('c, 'h, unit) action" where
  "on_append_entries_response peer t success matched conflict ctx = self (\<lambda>c.
     if t > current_term (hard_state c) then begin_term_transition t NoContinuation
     else if role c \<noteq> Leader \<or> t \<noteq> current_term (hard_state c) then ret ()
     else bnd (if success then ret None
               else bnd (attempt Log (rejected_next (rlog c)
                      (case conflict of Some h \<Rightarrow> h
                       | None \<Rightarrow> \<lparr>hint_index = matched, hint_term = None\<rparr>)))
                      (\<lambda>n. ret (Some n))) (\<lambda>next_idx.
       case bt_get (progress c) peer of
         None \<Rightarrow> ret ()
       | Some p \<Rightarrow>
           bnd (lift_res (case next_idx of
                  None \<Rightarrow> acknowledged p (min matched (last_index (rlog c)))
                | Some n \<Rightarrow> reject p matched n)) (\<lambda>(p', changed). block
             [assign (\<lambda>c. c\<lparr>progress := bt_insert peer p' (progress c)\<rparr>),
              case ctx of
                Some context \<Rightarrow> if success then acknowledge_read_context peer context else ret ()
              | None \<Rightarrow> ret (),
              if changed then block [replicate_to peer, advance_commit] else ret ()])))"

end
