(* ===== verification/Core_Snapshots.thy ===== *)
theory Core_Snapshots
  imports Core_Reads
begin

text \<open>
  The three snapshot pipelines (\<open>src/core.rs\<close>): local (build, persist, compact),
  incoming (receive chunks, persist, install) and outgoing (read a chunk, send
  it, read the next).
\<close>

section \<open>Local snapshots\<close>

definition request_local_snapshot :: "('c, 'h, unit) action" where
  "request_local_snapshot = self (\<lambda>c.
     if \<not> is_idle (local_snapshot c) \<or> applied_index c \<le> snapshot_index c then ret ()
     else bnd next_effect_id (\<lambda>i. block
       [assign (\<lambda>d. d\<lparr>local_snapshot := Building i (applied_index c)\<rparr>),
        emit (BuildSnapshot i (applied_index c))]))"

definition maybe_request_local_snapshot :: "('c, 'h, unit) action" where
  "maybe_request_local_snapshot = self (\<lambda>c.
     if saturating_sub (applied_index c) (snapshot_index c) \<ge> cfg_snapshot_after_entries (config c)
     then request_local_snapshot else ret ())"

definition validate_local_snapshot ::
  "('c, 'h) raft_core \<Rightarrow> snapshot_metadata \<Rightarrow> snapshot_ref \<Rightarrow> log_index \<Rightarrow>
     (snapshot_record, step_error) result" where
  "validate_local_snapshot c m body through =
    (if last_included_index m \<noteq> through then Err InvalidSnapshot
     else rbind (map_err Log (log_term_at (rlog c) through)) (\<lambda>t.
       if last_included_term m \<noteq> t \<or> snap_members m \<noteq> cfg_members (config c)
       then Err InvalidSnapshot
       else Ok \<lparr>metadata = m, body_ref = body\<rparr>))"

definition on_build_completion ::
  "effect_id \<Rightarrow> log_index \<Rightarrow> effect_outcome \<Rightarrow> ('c, 'h, bool) action" where
  "on_build_completion expected through outcome = (case outcome of
     SnapshotBuilt m body \<Rightarrow> self (\<lambda>c. case validate_local_snapshot c m body through of
         Ok record \<Rightarrow> bnd next_effect_id (\<lambda>i.
           bnd (assign (\<lambda>c. c\<lparr>local_snapshot := LocalPersisting i record\<rparr>)) (\<lambda>_.
           bnd (emit (Persist i \<lparr>batch_hard_state = None, batch_entries = [],
                                 batch_snapshot = Some record\<rparr>)) (\<lambda>_. ret True)))
       | Err e \<Rightarrow> bnd (assign (\<lambda>c. c\<lparr>local_snapshot := Building expected through\<rparr>)) (\<lambda>_. throw e)
       | Panic \<Rightarrow> lift_res Panic)
   | Failed \<Rightarrow> bnd (assign (\<lambda>c. c\<lparr>stopped := True\<rparr>)) (\<lambda>_. throw SnapshotFailed)
   | _ \<Rightarrow> bnd (assign (\<lambda>c. c\<lparr>local_snapshot := Building expected through\<rparr>))
            (\<lambda>_. throw (Input InvalidEffectOutcome)))"

definition on_record_completion ::
  "effect_id \<Rightarrow> snapshot_record \<Rightarrow> effect_outcome \<Rightarrow> ('c, 'h, bool) action" where
  "on_record_completion expected record outcome = (case outcome of
     Persisted \<Rightarrow> bnd next_effect_id (\<lambda>i.
       bnd (assign (\<lambda>c. c\<lparr>local_snapshot := Compacting i record\<rparr>)) (\<lambda>_.
       bnd (emit (CompactLog i (record_index record))) (\<lambda>_. ret True)))
   | Failed \<Rightarrow> bnd (assign (\<lambda>c. c\<lparr>stopped := True\<rparr>)) (\<lambda>_. throw PersistenceFailed)
   | _ \<Rightarrow> bnd (assign (\<lambda>c. c\<lparr>local_snapshot := LocalPersisting expected record\<rparr>))
            (\<lambda>_. throw (Input InvalidEffectOutcome)))"

definition on_compact_completion ::
  "effect_id \<Rightarrow> snapshot_record \<Rightarrow> effect_outcome \<Rightarrow> ('c, 'h, bool) action" where
  "on_compact_completion expected record outcome =
    (let unexpected = bnd (assign (\<lambda>c. c\<lparr>local_snapshot := Compacting expected record\<rparr>))
           (\<lambda>_. throw (Input InvalidEffectOutcome))
     in case outcome of
       CompactedThrough through \<Rightarrow>
         if through = record_index record
         then self (\<lambda>c. bnd (attempt Log (compact (rlog c) record)) (\<lambda>l.
                bnd (assign (\<lambda>c. c\<lparr>rlog := l, snapshot_index := through\<rparr>)) (\<lambda>_. ret True)))
         else unexpected
     | Failed \<Rightarrow> bnd (assign (\<lambda>c. c\<lparr>stopped := True\<rparr>)) (\<lambda>_. throw CompactionFailed)
     | _ \<Rightarrow> unexpected)"

definition on_snapshot_completion :: "effect_id \<Rightarrow> effect_outcome \<Rightarrow> ('c, 'h, bool) action" where
  "on_snapshot_completion i outcome = self (\<lambda>c.
     bnd (assign (\<lambda>c. c\<lparr>local_snapshot := Idle\<rparr>)) (\<lambda>_.
       let other = bnd (assign (\<lambda>d. d\<lparr>local_snapshot := local_snapshot c\<rparr>)) (\<lambda>_. ret False)
       in case local_snapshot c of
         Idle \<Rightarrow> ret False
       | Building expected through \<Rightarrow>
           if expected = i then on_build_completion expected through outcome else other
       | LocalPersisting expected record \<Rightarrow>
           if expected = i then on_record_completion expected record outcome else other
       | Compacting expected record \<Rightarrow>
           if expected = i then on_compact_completion expected record outcome else other))"

section \<open>Incoming snapshots\<close>

definition on_install_snapshot_chunk ::
  "'h sha256 \<Rightarrow> node_id \<Rightarrow> log_term \<Rightarrow> snapshot_metadata \<Rightarrow> u64 \<Rightarrow> u8 list \<Rightarrow> bool \<Rightarrow>
     ('c, 'h, unit) action" where
  "on_install_snapshot_chunk sha peer t m offset bytes final = self (\<lambda>c.
     if t < current_term (hard_state c) then
       emit (SendMessage peer (InstallSnapshotResponse (current_term (hard_state c)) False))
     else if length bytes > unat (cfg_snapshot_chunk_bytes (config c)) then throw InvalidSnapshot
     else if snap_members m \<noteq> cfg_members (config c) \<or> last_included_index m \<le> snapshot_index c
     then ret ()
     else bnd (if (case incoming_snapshot c of None \<Rightarrow> True
                   | Some r \<Rightarrow> snap_id (rcv_metadata r) \<noteq> snap_id m)
               then if offset \<noteq> 0 \<or> pending_chunk_store c \<noteq> None then throw InvalidSnapshot
                    else assign (\<lambda>c. c\<lparr>incoming_snapshot := Some (receiver_new sha m)\<rparr>)
               else ret ()) (\<lambda>_. self (\<lambda>c.
       bnd (lift_res (expect_some (incoming_snapshot c))) (\<lambda>receiver.
       if rcv_metadata receiver \<noteq> m then throw InvalidSnapshot
       else bnd (attempt (\<lambda>_. InvalidSnapshot) (accept_chunk sha receiver offset bytes final))
         (\<lambda>(receiver', fresh).
           bnd (assign (\<lambda>c. c\<lparr>incoming_snapshot := Some receiver'\<rparr>)) (\<lambda>_.
           if \<not> fresh then ret ()
           else bnd next_effect_id (\<lambda>i. block
             [assign (\<lambda>c. c\<lparr>pending_chunk_store := Some \<lparr>chunk_id = i, chunk_done = final,
                             chunk_from = peer, chunk_term = t\<rparr>\<rparr>),
              emit (StoreSnapshotChunk i m offset bytes)])))))))"

text \<open>The completion of an outstanding chunk store; \<open>restore\<close> puts the pending
  operation back before an error is returned.\<close>

definition on_chunk_stored ::
  "'h sha256 \<Rightarrow> pending_chunk_store \<Rightarrow> effect_outcome \<Rightarrow> ('c, 'h, bool) action" where
  "on_chunk_stored sha pending outcome =
    (let restore = (\<lambda>e. bnd (assign (\<lambda>c. c\<lparr>pending_chunk_store := Some pending\<rparr>)) (\<lambda>_. throw e))
     in case outcome of
       SnapshotChunkStored sid stored_to body \<Rightarrow> self (\<lambda>c.
         bnd (lift_res (expect_some (incoming_snapshot c))) (\<lambda>receiver.
         if sid \<noteq> snap_id (rcv_metadata receiver) \<or> stored_to \<noteq> next_offset receiver
         then restore (Input InvalidEffectOutcome)
         else if \<not> chunk_done pending then ret True
         else if \<not> is_complete_and_valid sha receiver then restore InvalidSnapshot
         else case body of
           None \<Rightarrow> restore InvalidSnapshot
         | Some ref \<Rightarrow> bnd next_effect_id (\<lambda>i.
             let record = receiver_record receiver ref in
             bnd (assign (\<lambda>c. c\<lparr>incoming_snapshot_state :=
                    Some (Persisting i record (chunk_from pending) (chunk_term pending))\<rparr>)) (\<lambda>_.
             bnd (emit (Persist i \<lparr>batch_hard_state = Some (hard_state_new (chunk_term pending) None
                                      (max (commit_index (hard_state c)) (record_index record))),
                                   batch_entries = [], batch_snapshot = Some record\<rparr>))
               (\<lambda>_. ret True)))))
     | Failed \<Rightarrow> bnd (assign (\<lambda>c. c\<lparr>stopped := True\<rparr>)) (\<lambda>_. throw PersistenceFailed)
     | _ \<Rightarrow> restore (Input InvalidEffectOutcome))"

definition install_now :: "snapshot_record \<Rightarrow> node_id \<Rightarrow> log_term \<Rightarrow> ('c, 'h, bool) action" where
  "install_now record peer t = self (\<lambda>c.
     bnd (attempt Log (install_snapshot (rlog c) record)) (\<lambda>l.
     bnd (assign (\<lambda>c. c\<lparr>rlog := l, snapshot_index := record_index record,
       applied_index := max (applied_index c) (record_index record),
       hard_state := hard_state_new (max (current_term (hard_state c)) t) None
         (max (commit_index (hard_state c)) (record_index record)),
       last_log_index := last_index l\<rparr>)) (\<lambda>_.
     bnd (attempt Log (log_term_at l (last_index l))) (\<lambda>last_t.
     bnd (assign (\<lambda>c. c\<lparr>last_log_term := last_t, incoming_snapshot := None\<rparr>)) (\<lambda>_.
     self (\<lambda>c. bnd (emit (SendMessage peer (InstallSnapshotResponse (current_term (hard_state c)) True)))
       (\<lambda>_. ret True)))))))"

definition on_incoming_persisted ::
  "effect_id \<Rightarrow> snapshot_record \<Rightarrow> node_id \<Rightarrow> log_term \<Rightarrow> effect_outcome \<Rightarrow> ('c, 'h, bool) action" where
  "on_incoming_persisted expected record peer t outcome = (case outcome of
     Persisted \<Rightarrow> bnd next_effect_id (\<lambda>i.
       bnd (assign (\<lambda>c. c\<lparr>incoming_snapshot_state := Some (Installing i record peer t)\<rparr>)) (\<lambda>_.
       bnd (emit (InstallSnapshotEffect i record)) (\<lambda>_. ret True)))
   | Failed \<Rightarrow> bnd (assign (\<lambda>c. c\<lparr>stopped := True\<rparr>)) (\<lambda>_. throw PersistenceFailed)
   | _ \<Rightarrow> bnd (assign (\<lambda>c. c\<lparr>incoming_snapshot_state := Some (Persisting expected record peer t)\<rparr>))
            (\<lambda>_. throw (Input InvalidEffectOutcome)))"

definition on_incoming_installed ::
  "effect_id \<Rightarrow> snapshot_record \<Rightarrow> node_id \<Rightarrow> log_term \<Rightarrow> effect_outcome \<Rightarrow> ('c, 'h, bool) action" where
  "on_incoming_installed expected record peer t outcome =
    (let unexpected = bnd (assign (\<lambda>c. c\<lparr>incoming_snapshot_state :=
           Some (Installing expected record peer t)\<rparr>)) (\<lambda>_. throw (Input InvalidEffectOutcome))
     in case outcome of
       SnapshotInstalled sid \<Rightarrow>
         if sid = snap_id (metadata record) then install_now record peer t else unexpected
     | Failed \<Rightarrow> bnd (assign (\<lambda>c. c\<lparr>stopped := True\<rparr>)) (\<lambda>_. throw ApplyFailed)
     | _ \<Rightarrow> unexpected)"

definition on_incoming_state :: "effect_id \<Rightarrow> effect_outcome \<Rightarrow> ('c, 'h, bool) action" where
  "on_incoming_state i outcome = self (\<lambda>c.
     case incoming_snapshot_state c of
       None \<Rightarrow> ret False
     | Some state \<Rightarrow> bnd (assign (\<lambda>c. c\<lparr>incoming_snapshot_state := None\<rparr>)) (\<lambda>_.
         let other = bnd (assign (\<lambda>c. c\<lparr>incoming_snapshot_state := Some state\<rparr>)) (\<lambda>_. ret False)
         in case state of
           Persisting expected record peer t \<Rightarrow>
             if expected = i then on_incoming_persisted expected record peer t outcome else other
         | Installing expected record peer t \<Rightarrow>
             if expected = i then on_incoming_installed expected record peer t outcome else other))"

definition on_incoming_snapshot_completion ::
  "'h sha256 \<Rightarrow> effect_id \<Rightarrow> effect_outcome \<Rightarrow> ('c, 'h, bool) action" where
  "on_incoming_snapshot_completion sha i outcome = self (\<lambda>c.
     case pending_chunk_store c of
       None \<Rightarrow> on_incoming_state i outcome
     | Some pending \<Rightarrow>
         bnd (assign (\<lambda>c. c\<lparr>pending_chunk_store := None\<rparr>)) (\<lambda>_.
         if chunk_id pending \<noteq> i
         then bnd (assign (\<lambda>c. c\<lparr>pending_chunk_store := Some pending\<rparr>)) (\<lambda>_. on_incoming_state i outcome)
         else on_chunk_stored sha pending outcome))"

section \<open>Outgoing snapshots\<close>

definition on_outgoing_snapshot_completion ::
  "effect_id \<Rightarrow> effect_outcome \<Rightarrow> ('c, 'h, bool) action" where
  "on_outgoing_snapshot_completion i outcome = self (\<lambda>c.
     case bt_get (pending_snapshot_reads c) i of
       None \<Rightarrow> ret False
     | Some to \<Rightarrow>
         bnd (assign (\<lambda>c. c\<lparr>pending_snapshot_reads := bt_remove i (pending_snapshot_reads c)\<rparr>)) (\<lambda>_.
         bnd (lift_res (expect_some (bt_get (snapshot_senders c) to))) (\<lambda>sender.
         let unexpected = bnd (assign (\<lambda>c. c\<lparr>pending_snapshot_reads :=
               bt_insert i to (pending_snapshot_reads c)\<rparr>)) (\<lambda>_. throw (Input InvalidEffectOutcome))
         in case outcome of
           SnapshotChunkRead sid offset bytes final \<Rightarrow>
             if \<not> (sid = snap_id (metadata (send_snapshot sender)) \<and> offset = send_offset sender)
             then unexpected
             else if length bytes > unat (cfg_snapshot_chunk_bytes (config c)) then unexpected
             else (case advance sender (length bytes) of
               Ok sender' \<Rightarrow>
                 bnd (assign (\<lambda>c. c\<lparr>snapshot_senders := bt_insert to sender' (snapshot_senders c)\<rparr>)) (\<lambda>_.
                 bnd (emit (SendMessage to (InstallSnapshot (current_term (hard_state c))
                        (metadata (send_snapshot sender)) offset bytes final))) (\<lambda>_.
                 bnd (if final then ret () else read_snapshot_chunk to) (\<lambda>_. ret True)))
             | Err _ \<Rightarrow> unexpected
             | Panic \<Rightarrow> lift_res Panic)
         | Failed \<Rightarrow> bnd (assign (\<lambda>c. c\<lparr>stopped := True\<rparr>)) (\<lambda>_. throw PersistenceFailed)
         | _ \<Rightarrow> unexpected)))"

definition on_install_snapshot_response ::
  "node_id \<Rightarrow> log_term \<Rightarrow> bool \<Rightarrow> ('c, 'h, unit) action" where
  "on_install_snapshot_response peer t success = self (\<lambda>c.
     if t > current_term (hard_state c) then begin_term_transition t NoContinuation
     else if role c \<noteq> Leader \<or> t \<noteq> current_term (hard_state c) \<or> \<not> success then ret ()
     else case bt_get (snapshot_senders c) peer of
       None \<Rightarrow> ret ()
     | Some sender \<Rightarrow>
         bnd (assign (\<lambda>c. c\<lparr>snapshot_senders := bt_remove peer (snapshot_senders c)\<rparr>)) (\<lambda>_.
         bnd (attempt Arithmetic (checked_next (record_index (send_snapshot sender)))) (\<lambda>next_idx. block
           [case bt_get (progress c) peer of
              None \<Rightarrow> ret ()
            | Some p \<Rightarrow> assign (\<lambda>c. c\<lparr>progress := bt_insert peer (restore_probe p next_idx) (progress c)\<rparr>),
            replicate_to peer])))"

end
