(* ===== verification/Core_Step.thy ===== *)
theory Core_Step
  imports Core_Election Core_Append Core_Snapshots
begin

text \<open>
  Dispatch (\<open>src/core.rs\<close>): effect completions to the pipelines and to the
  continuation of the persistence barrier, messages to their handlers, and
  \<open>step\<close>, the only entry point of the core.
\<close>

section \<open>Effect completions\<close>

definition run_continuation :: "persist_continuation \<Rightarrow> ('c, 'h, unit) action" where
  "run_continuation k = (case k of
     BroadcastVoteRequests \<Rightarrow> self (\<lambda>c.
       if (case votes c of None \<Rightarrow> False | Some q \<Rightarrow> has_quorum q) then persist_leader_noop
       else broadcast_vote_request (current_term (hard_state c)))
   | SendVoteResponse to t grant \<Rightarrow> send_vote_response to t grant
   | SendAppendEntriesResponse to response \<Rightarrow> block
       [send_append_entries_response to response, emit_apply_if_needed]
   | ReplicateProposal \<Rightarrow> block [replicate_all, advance_commit, start_pending_reads]
   | ApplyCommitted \<Rightarrow> block [emit_apply_if_needed, start_pending_reads]
   | ActivateLeader \<Rightarrow> block
       [assign (\<lambda>c. c\<lparr>role := Leader, votes := None, active_members := {cfg_local_id (config c)}\<rparr>),
        initialize_progress, replicate_all, advance_commit]
   | NoContinuation \<Rightarrow> ret ())"

definition on_apply_completion :: "pending_apply \<Rightarrow> effect_id \<Rightarrow> effect_outcome \<Rightarrow> ('c, 'h, unit) action" where
  "on_apply_completion pending i outcome =
    (let restore = (\<lambda>e. bnd (assign (\<lambda>c. c\<lparr>pending_apply := Some pending\<rparr>)) (\<lambda>_. throw e)) in
     if apply_id pending \<noteq> i then restore (Input UnknownEffect)
     else case outcome of
       AppliedThrough through \<Rightarrow>
         if through = apply_through pending then block
           [assign (\<lambda>c. c\<lparr>applied_index := through\<rparr>), finish_apply through, release_read_round,
            start_pending_reads, emit_apply_if_needed, maybe_request_local_snapshot]
         else restore (Input InvalidEffectOutcome)
     | Failed \<Rightarrow> bnd (assign (\<lambda>c. c\<lparr>stopped := True\<rparr>)) (\<lambda>_. throw ApplyFailed)
     | _ \<Rightarrow> restore (Input InvalidEffectOutcome))"

definition on_persist_completion ::
  "pending_persist \<Rightarrow> effect_id \<Rightarrow> effect_outcome \<Rightarrow> ('c, 'h, unit) action" where
  "on_persist_completion pending i outcome =
    (let restore = (\<lambda>e. bnd (assign (\<lambda>c. c\<lparr>pending_persist := Some pending\<rparr>)) (\<lambda>_. throw e)) in
     if persist_id pending \<noteq> i then restore (Input UnknownEffect)
     else if outcome = Failed then bnd (assign (\<lambda>c. c\<lparr>stopped := True\<rparr>)) (\<lambda>_. throw PersistenceFailed)
     else if outcome \<noteq> Persisted then restore (Input InvalidEffectOutcome)
     else block
       [case stable_through pending of
          None \<Rightarrow> ret ()
        | Some index \<Rightarrow> self (\<lambda>c. bnd (attempt Log (mark_stable (rlog c) index)) (\<lambda>l.
            assign (\<lambda>c. c\<lparr>rlog := l\<rparr>))),
        run_continuation (continuation pending)])"

text \<open>The two barriers: the outstanding apply, and without one the outstanding persist.\<close>

definition on_barrier_completion :: "effect_id \<Rightarrow> effect_outcome \<Rightarrow> ('c, 'h, unit) action" where
  "on_barrier_completion i outcome = self (\<lambda>c. case pending_apply c of
       Some pending \<Rightarrow> bnd (assign (\<lambda>c. c\<lparr>pending_apply := None\<rparr>)) (\<lambda>_.
         on_apply_completion pending i outcome)
     | None \<Rightarrow> (case pending_persist c of
         None \<Rightarrow> throw (Input UnknownEffect)
       | Some pending \<Rightarrow> bnd (assign (\<lambda>c. c\<lparr>pending_persist := None\<rparr>)) (\<lambda>_.
           on_persist_completion pending i outcome)))"

definition on_effect_completed ::
  "'h sha256 \<Rightarrow> effect_id \<Rightarrow> effect_outcome \<Rightarrow> ('c, 'h, unit) action" where
  "on_effect_completed sha i outcome = self (\<lambda>c.
     if generation i \<noteq> cfg_generation (config c) then throw (Input StaleEffectGeneration)
     else bnd (on_outgoing_snapshot_completion i outcome) (\<lambda>consumed. if consumed then ret ()
     else bnd (on_incoming_snapshot_completion sha i outcome) (\<lambda>consumed. if consumed then ret ()
     else bnd (on_snapshot_completion i outcome) (\<lambda>consumed. if consumed then ret ()
     else on_barrier_completion i outcome))))"

section \<open>Messages\<close>

definition validate_envelope :: "('c, 'h) raft_core \<Rightarrow> 'c envelope \<Rightarrow> (unit, step_error) result" where
  "validate_envelope c env =
    (if env_cluster_id env \<noteq> cfg_cluster_id (config c) then Err (Input WrongCluster)
     else if env_to env \<noteq> cfg_local_id (config c) then Err (Input WrongRecipient)
     else if env_from env \<notin> set (cfg_members (config c)) then Err (Input UnknownSender)
     else Ok ())"

definition on_message :: "'h sha256 \<Rightarrow> node_id \<Rightarrow> 'c message \<Rightarrow> ('c, 'h, unit) action" where
  "on_message sha peer m = (case m of
     PreVote t index log_t \<Rightarrow> self (\<lambda>c. send_pre_vote_response peer
       (t > current_term (hard_state c) \<and>
        is_log_up_to_date index log_t (last_log_index c) (last_log_term c)))
   | RequestVote t index log_t \<Rightarrow> on_vote_request peer t index log_t
   | PreVoteResponse t grant \<Rightarrow> on_pre_vote_response peer t grant
   | VoteResponse t grant \<Rightarrow> on_vote_response peer t grant
   | AppendEntries t prev_log_index prev_log_term leader_commit ctx entries \<Rightarrow>
       on_append_entries peer t prev_log_index prev_log_term leader_commit ctx entries
   | InstallSnapshot t m offset bytes final \<Rightarrow>
       on_install_snapshot_chunk sha peer t m offset bytes final
   | InstallSnapshotResponse t success \<Rightarrow> on_install_snapshot_response peer t success
   | AppendEntriesResponse t success matched conflict ctx \<Rightarrow>
       on_append_entries_response peer t success matched conflict ctx
   | Heartbeat \<Rightarrow> ret ())"

section \<open>One step\<close>

definition on_event :: "'h sha256 \<Rightarrow> 'c event \<Rightarrow> ('c, 'h, unit) action" where
  "on_event sha event = (case event of
     Tick ElectionTick \<Rightarrow> start_pre_vote
   | Tick HeartbeatTick \<Rightarrow> on_heartbeat_tick
   | MessageReceived env \<Rightarrow> self (\<lambda>c. block
       [lift_res (validate_envelope c env),
        if role c = Leader
        then assign (\<lambda>c. c\<lparr>active_members := insert (env_from env) (active_members c)\<rparr>) else ret (),
        on_message sha (env_from env) (env_message env)])
   | EffectCompleted i outcome \<Rightarrow> self (\<lambda>c. block
       [lift_res (validate_completion c i outcome),
        on_effect_completed sha i outcome,
        assign (record_completion i outcome)])
   | Shutdown \<Rightarrow> assign (stop StoppedShutdown)
   | Propose pid cmd len \<Rightarrow> on_propose pid cmd len
   | Read rid _ \<Rightarrow> on_read rid
   | SnapshotRequested \<Rightarrow> request_local_snapshot)"

definition handle :: "'h sha256 \<Rightarrow> 'c event \<Rightarrow> ('c, 'h, unit) action" where
  "handle sha event = block [on_event sha event, emit_apply_if_needed]"

definition no_output :: "'c step_output" where
  "no_output = \<lparr>out_effects = [], soft_state_changed = False\<rparr>"

definition step_stopped ::
  "('c, 'h) raft_core \<Rightarrow> 'c event \<Rightarrow> ('c step_output, step_error) result" where
  "step_stopped c event = (case event of
     Shutdown \<Rightarrow> Ok no_output
   | Tick _ \<Rightarrow> Ok no_output
   | MessageReceived _ \<Rightarrow> Ok no_output
   | _ \<Rightarrow> rbind (expect_some (stopped_reason c)) (\<lambda>reason. Err (Stopped reason)))"

definition finish_step ::
  "role \<Rightarrow> ('c, 'h) run \<Rightarrow> ('c step_output, step_error) result \<times> ('c, 'h) raft_core" where
  "finish_step previous_role s =
    (let (c, fx) = (if previous_role = Leader \<and> role (fst s) \<noteq> Leader
                    then snd (fail_uncommitted_proposals s) else s)
     in case validate_invariants c of
       Ok _ \<Rightarrow> (Ok \<lparr>out_effects = fx, soft_state_changed = (previous_role \<noteq> role c)\<rparr>, c)
     | Err violation \<Rightarrow> (let (e, c) = fatal (Invariant violation) c in (Err e, c))
     | Panic \<Rightarrow> (Panic, c))"

definition step ::
  "'h sha256 \<Rightarrow> ('c, 'h) raft_core \<Rightarrow> 'c event \<Rightarrow>
     ('c step_output, step_error) result \<times> ('c, 'h) raft_core" where
  "step sha c event =
    (if stopped c then (step_stopped c event, c)
     else case handle sha event (c, []) of
       (Ok _, s) \<Rightarrow> finish_step (role c) s
     | (Err e, s) \<Rightarrow> (let (e, c) = fatalize e (fst s) in (Err e, c))
     | (Panic, s) \<Rightarrow> (Panic, fst s))"

end
