(* ===== verification/Core_Spec.thy ===== *)
theory Core_Spec
  imports Core_Step
begin

text \<open>
  An abstract machine for the protected part of the core and the proof that every step of
  the implementation is a sequence of its moves. Protected are the role and the vote tallies,
  the hard state, the log with its caches, what each follower has acknowledged, the apply point,
  the reads, the effect counter, the completion history and the stop flag. The moves are
  guarded by the rules of Raft and by the event of the step: a term is adopted from a message
  that carries it, a vote is given to the sender of a vote request whose log is up to date and
  only where none was given, a candidate needs a quorum of pre-votes and counts votes of its own
  term, a leader comes from a quorum of votes whose no-op is durable, entries are appended by
  a node with a quorum of votes or by a leader, a follower merges a leader's batch behind a
  matching prefix, commits follow the quorum rule over what was acknowledged, applying covers
  what is committed, and a read round is confirmed by a quorum and released when its index
  is applied. Everything shown of steps in \<open>Core_Safety\<close> is shown of the moves.

  Two moves are wider than the rules of Raft because the code is: the installation of a leader's
  snapshot drops the vote of the term, and the commit rule is also run when a persist
  completes, whatever the role by then. What messages say is not constrained here, except
  that a read is only reported ready out of a confirmed round.

  \<open>micro\<close> has the moves of one handler, \<open>macro\<close> adds the recording of a completion
  and the stop.
\<close>

section \<open>The machine\<close>

text \<open>What causes a step: the event, unless it is a message or a completion that is refused.\<close>

definition cause :: "('c, 'h) raft_core \<Rightarrow> 'c event \<Rightarrow> 'c event option" where
  "cause c event = (case event of
     MessageReceived env \<Rightarrow> if validate_envelope c env = Ok () then Some event else None
   | EffectCompleted i outcome \<Rightarrow> if validate_completion c i outcome = Ok () then Some event else None
   | _ \<Rightarrow> Some event)"

definition heard :: "'c event option \<Rightarrow> node_id \<Rightarrow> 'c message \<Rightarrow> bool" where
  "heard ev peer m \<longleftrightarrow> (\<exists>env. ev = Some (MessageReceived env) \<and> env_from env = peer \<and> env_message env = m)"

definition completes :: "'c event option \<Rightarrow> effect_id \<Rightarrow> effect_outcome \<Rightarrow> bool" where
  "completes ev i outcome \<longleftrightarrow> ev = Some (EffectCompleted i outcome)"

definition installs_snapshot :: "'c event \<Rightarrow> bool" where
  "installs_snapshot event = (case event of EffectCompleted _ (SnapshotInstalled _) \<Rightarrow> True | _ \<Rightarrow> False)"

definition installing :: "'c event option \<Rightarrow> bool" where
  "installing ev \<longleftrightarrow> (\<exists>i sid. completes ev i (SnapshotInstalled sid))"

lemma installing_cause: "installing (cause c event) \<Longrightarrow> installs_snapshot event"
  by (auto simp: installing_def completes_def cause_def installs_snapshot_def split: event.splits if_splits)

fun message_term :: "'c message \<Rightarrow> log_term option" where
  "message_term (RequestVote t _ _) = Some t"
| "message_term (PreVoteResponse t _) = Some t"
| "message_term (VoteResponse t _) = Some t"
| "message_term (AppendEntriesResponse t _ _ _ _) = Some t"
| "message_term (InstallSnapshotResponse t _) = Some t"
| "message_term _ = None"

text \<open>What each follower has acknowledged, and the persist whose completion makes the node
  leader.\<close>

definition matching :: "('c, 'h) raft_core \<Rightarrow> node_id \<Rightarrow> log_index option" where
  "matching c n = map_option match_index (bt_get (progress c) n)"

definition claim :: "('c, 'h) raft_core \<Rightarrow> effect_id option" where
  "claim c = (case pending_persist c of
     Some p \<Rightarrow> if continuation p = ActivateLeader then Some (persist_id p) else None | None \<Rightarrow> None)"

text \<open>What the machine leaves to the implementation: the send windows of the followers,
  proposals, the snapshot pipelines and the persistence barrier, as long as its maps stay in
  key order and no claim to leadership appears. The rest of the core is its protected part.\<close>

definition protected_part where
  "protected_part c = (config c, hard_state c, rlog c, last_log_index c, last_log_term c,
     (applied_index c, pending_apply c), next_effect_sequence c, (stopped c, stopped_reason c),
     (completed_frontier c, completed_sparse c, completed_outcomes c, completion_order c),
     (role c, pre_votes c, votes c, matching c), (leader_noop_index c, pending_reads c, read_round c))"

definition frame :: "('c, 'h) raft_core \<Rightarrow> ('c, 'h) raft_core \<Rightarrow> bool" where
  "frame c c' \<longleftrightarrow> protected_part c' = protected_part c \<and> claim c' \<in> {claim c, None} \<and>
     (bt_ordered (progress c) \<longrightarrow> bt_ordered (progress c')) \<and>
     (bt_ordered (proposals c) \<longrightarrow> bt_ordered (proposals c')) \<and>
     (bt_ordered (snapshot_senders c) \<longrightarrow> bt_ordered (snapshot_senders c')) \<and>
     (bt_ordered (pending_snapshot_reads c) \<longrightarrow> bt_ordered (pending_snapshot_reads c'))"

lemma matching_same: "progress c' = progress c \<Longrightarrow> matching c' = matching c"
  by (simp add: matching_def fun_eq_iff)

lemma claim_same: "pending_persist c' = pending_persist c \<Longrightarrow> claim c' = claim c"
  by (simp add: claim_def)

lemma claim_None [simp]: "pending_persist c = None \<Longrightarrow> claim c = None"
  by (simp add: claim_def)

lemma frame_iff:
  "frame c c' \<longleftrightarrow> config c' = config c \<and> hard_state c' = hard_state c \<and> rlog c' = rlog c \<and>
     last_log_index c' = last_log_index c \<and> last_log_term c' = last_log_term c \<and>
     applied_index c' = applied_index c \<and> pending_apply c' = pending_apply c \<and>
     next_effect_sequence c' = next_effect_sequence c \<and> stopped c' = stopped c \<and>
     stopped_reason c' = stopped_reason c \<and> completed_frontier c' = completed_frontier c \<and>
     completed_sparse c' = completed_sparse c \<and> completed_outcomes c' = completed_outcomes c \<and>
     completion_order c' = completion_order c \<and>
     role c' = role c \<and> pre_votes c' = pre_votes c \<and> votes c' = votes c \<and>
     leader_noop_index c' = leader_noop_index c \<and> pending_reads c' = pending_reads c \<and> read_round c' = read_round c \<and>
     (progress c' = progress c \<or> matching c' = matching c) \<and>
     (pending_persist c' = pending_persist c \<or> pending_persist c' = None \<or> claim c' \<in> {claim c, None}) \<and>
     (bt_ordered (progress c) \<longrightarrow> bt_ordered (progress c')) \<and>
     (bt_ordered (proposals c) \<longrightarrow> bt_ordered (proposals c')) \<and>
     (bt_ordered (snapshot_senders c) \<longrightarrow> bt_ordered (snapshot_senders c')) \<and>
     (bt_ordered (pending_snapshot_reads c) \<longrightarrow> bt_ordered (pending_snapshot_reads c'))"
  using matching_same [of c' c] claim_same [of c' c] claim_None [of c']
  by (auto simp: frame_def protected_part_def)

lemma frame_fields: "frame c c' \<Longrightarrow> config c' = config c \<and> hard_state c' = hard_state c \<and> rlog c' = rlog c \<and>
     last_log_index c' = last_log_index c \<and> last_log_term c' = last_log_term c \<and>
     applied_index c' = applied_index c \<and> pending_apply c' = pending_apply c \<and>
     next_effect_sequence c' = next_effect_sequence c \<and> stopped c' = stopped c \<and>
     stopped_reason c' = stopped_reason c \<and> completed_frontier c' = completed_frontier c \<and>
     completed_sparse c' = completed_sparse c \<and> completed_outcomes c' = completed_outcomes c \<and>
     completion_order c' = completion_order c"
  by (simp add: frame_iff)

text \<open>The hard state a follower adopts with a leader's batch.\<close>

definition adopt :: "log_term \<Rightarrow> hard_state \<Rightarrow> log_index \<Rightarrow> hard_state" where
  "adopt t hs commit =
    (if t > current_term hs \<or> commit \<noteq> commit_index hs
     then hard_state_new t (if t > current_term hs then None else voted_for hs) commit else hs)"

text \<open>Who may append which entry: the no-op of a node with a quorum of votes, which starts its
  reign, and a command proposed to a leader.\<close>

definition entitled :: "'c event option \<Rightarrow> ('c, 'h) raft_core \<Rightarrow> 'c entry \<Rightarrow> log_index option \<Rightarrow> bool" where
  "entitled ev c e noop \<longleftrightarrow>
     payload e = LeaderNoop \<and> noop = Some (entry_index e) \<and> (\<exists>q. votes c = Some q \<and> has_quorum q) \<or>
     role c = Leader \<and> noop = leader_noop_index c \<and>
       (\<exists>pid cmd. ev = Some (Propose pid cmd (encoded_len e)) \<and> payload e = Command cmd)"

text \<open>The vote a node may give together with a term it adopts from a message.\<close>

definition votable :: "('c, 'h) raft_core \<Rightarrow> node_id \<Rightarrow> 'c message \<Rightarrow> node_id option \<Rightarrow> bool" where
  "votable c peer m v \<longleftrightarrow> v = None \<or> v = Some peer \<and>
     (\<exists>t index log_t. m = RequestVote t index log_t \<and> is_log_up_to_date index log_t (last_log_index c) (last_log_term c))"

text \<open>What a new leader knows of its followers: nothing.\<close>

definition unmatched :: "(node_id, progress) btree_map \<Rightarrow> bool" where
  "unmatched prog \<longleftrightarrow> bt_ordered prog \<and> (\<forall>n p. bt_get prog n = Some p \<longrightarrow> match_index p = 0)"

inductive micro :: "'c event option \<Rightarrow> ('c, 'h) run \<Rightarrow> ('c, 'h) run \<Rightarrow> bool" for ev where
  soft: "frame c c' \<Longrightarrow> micro ev (c, fx) (c', fx)"
| tell: "effect_key e = None \<Longrightarrow> (\<And>rid i. e \<noteq> ReadReady rid i) \<Longrightarrow> micro ev (c, fx) (c, fx @ [e])"
| issue: "checked_add (next_effect_sequence c) 1 = Some n \<Longrightarrow>
    effect_key e = Some (EffectId (cfg_generation (config c)) n) \<Longrightarrow>
    frame (c\<lparr>next_effect_sequence := n\<rparr>) c' \<Longrightarrow> micro ev (c, fx) (c', fx @ [e])"
| retire: "v \<in> {None, votes c} \<Longrightarrow> pv \<in> {None, pre_votes c} \<Longrightarrow>
    frame (c\<lparr>role := Follower, pre_votes := pv, votes := v\<rparr>) c' \<Longrightarrow> micro ev (c, fx) (c', fx)"
| abandon: "role c = Follower \<Longrightarrow>
    frame (c\<lparr>progress := [], leader_noop_index := None, pending_reads := [], read_round := None\<rparr>) c' \<Longrightarrow>
    micro ev (c, fx) (c', fx)"
| new_term: "role c = Follower \<Longrightarrow> heard ev peer m \<Longrightarrow> message_term m = Some t \<Longrightarrow> votable c peer m v \<Longrightarrow>
    current_term (hard_state c) < t \<Longrightarrow>
    frame (c\<lparr>hard_state := hard_state_new t v (commit_index (hard_state c))\<rparr>) c' \<Longrightarrow>
    micro ev (c, fx) (c', fx)"
| cast_vote: "heard ev peer (RequestVote (current_term (hard_state c)) index log_t) \<Longrightarrow>
    is_log_up_to_date index log_t (last_log_index c) (last_log_term c) \<Longrightarrow> voted_for (hard_state c) = None \<Longrightarrow>
    frame (c\<lparr>hard_state := hard_state_new (current_term (hard_state c)) (Some peer)
                            (commit_index (hard_state c))\<rparr>) c' \<Longrightarrow>
    micro ev (c, fx) (c', fx)"
| canvass: "role c \<noteq> Leader \<Longrightarrow> ev = Some (Tick ElectionTick) \<Longrightarrow>
    frame (c\<lparr>role := PreCandidate, votes := None,
      pre_votes := Some (with_local_vote (cfg_members (config c)) (cfg_local_id (config c)))\<rparr>) c' \<Longrightarrow>
    micro ev (c, fx) (c', fx)"
| poll: "role c = PreCandidate \<Longrightarrow> heard ev peer (PreVoteResponse t grant) \<Longrightarrow> t \<le> current_term (hard_state c) \<Longrightarrow>
    pre_votes c = Some q \<Longrightarrow> frame (c\<lparr>pre_votes := Some (record_vote q peer grant)\<rparr>) c' \<Longrightarrow> micro ev (c, fx) (c', fx)"
| stand: "role c = PreCandidate \<Longrightarrow> pre_votes c = Some q \<Longrightarrow> has_quorum q \<Longrightarrow>
    checked_next (current_term (hard_state c)) = Ok t \<Longrightarrow>
    frame (c\<lparr>role := Candidate, pre_votes := None,
      votes := Some (with_local_vote (cfg_members (config c)) (cfg_local_id (config c))),
      hard_state := hard_state_new t (Some (cfg_local_id (config c))) (commit_index (hard_state c))\<rparr>) c' \<Longrightarrow>
    micro ev (c, fx) (c', fx)"
| tally: "role c = Candidate \<Longrightarrow> heard ev peer (VoteResponse (current_term (hard_state c)) grant) \<Longrightarrow>
    votes c = Some q \<Longrightarrow> frame (c\<lparr>votes := Some (record_vote q peer grant)\<rparr>) c' \<Longrightarrow> micro ev (c, fx) (c', fx)"
| leader_append: "entitled ev c e noop \<Longrightarrow> checked_next (last_log_index c) = Ok (entry_index e) \<Longrightarrow>
    entry_term e = current_term (hard_state c) \<Longrightarrow> log_append (rlog c) [e] = Ok l \<Longrightarrow>
    frame (c\<lparr>rlog := l, last_log_index := entry_index e, last_log_term := entry_term e, leader_noop_index := noop\<rparr>) c' \<Longrightarrow>
    micro ev (c, fx) (c', fx)"
| stake: "votes c = Some q \<Longrightarrow> has_quorum q \<Longrightarrow> checked_add (next_effect_sequence c) 1 = Some n \<Longrightarrow>
    frame (c\<lparr>next_effect_sequence := n, pending_persist := Some \<lparr>persist_id = EffectId (cfg_generation (config c)) n,
      stable_through = x, continuation = ActivateLeader\<rparr>\<rparr>) c' \<Longrightarrow>
    micro ev (c, fx) (c', fx @ [Persist (EffectId (cfg_generation (config c)) n) b])"
| lead: "claim c = Some i \<Longrightarrow> completes ev i Persisted \<Longrightarrow>
    frame (c\<lparr>role := Leader, votes := None, pending_persist := None\<rparr>) c' \<Longrightarrow> micro ev (c, fx) (c', fx)"
| restart: "role c = Leader \<Longrightarrow> completes ev i Persisted \<Longrightarrow> unmatched prog \<Longrightarrow>
    frame (c\<lparr>progress := prog\<rparr>) c' \<Longrightarrow> micro ev (c, fx) (c', fx)"
| acked: "role c = Leader \<Longrightarrow>
    heard ev peer (AppendEntriesResponse (current_term (hard_state c)) True matched hint ctx) \<Longrightarrow>
    bt_get (progress c) peer = Some p \<Longrightarrow> acknowledged p (min matched (last_index (rlog c))) = (Ok (p', b) :: (progress \<times> bool, step_error) result) \<Longrightarrow>
    frame (c\<lparr>progress := bt_insert peer p' (progress c)\<rparr>) c' \<Longrightarrow> micro ev (c, fx) (c', fx)"
| leader_commit: "role c = Leader \<or> (\<exists>i. completes ev i Persisted) \<Longrightarrow>
    quorum_commit (rlog c) (progress c) (cfg_quorum (config c))
      (current_term (hard_state c)) = Ok (Some i) \<Longrightarrow> commit_to (rlog c) i = Ok l \<Longrightarrow>
    frame (c\<lparr>rlog := l, hard_state := hard_state_new (current_term (hard_state c))
                            (voted_for (hard_state c)) i\<rparr>) c' \<Longrightarrow>
    micro ev (c, fx) (c', fx)"
| follow: "role c = Follower \<Longrightarrow> heard ev peer (AppendEntries t prev_log_index prev_log_term leader_commit ctx es) \<Longrightarrow>
    validate_prefix (rlog c) prev_log_index prev_log_term = Ok Match \<Longrightarrow>
    current_term (hard_state c) \<le> t \<Longrightarrow> merge_from_leader (rlog c) es = Ok (l, appended) \<Longrightarrow>
    commit_to l (min leader_commit (last_index l)) = Ok l' \<Longrightarrow>
    log_term_at l' (last_index l') = Ok last_t \<Longrightarrow>
    frame (c\<lparr>rlog := l', last_log_index := last_index l', last_log_term := last_t,
             hard_state := adopt t (hard_state c) (log_committed l')\<rparr>) c' \<Longrightarrow>
    micro ev (c, fx) (c', fx)"
| reaffirm: "role c = Follower \<Longrightarrow> heard ev peer (AppendEntries t prev_log_index prev_log_term leader_commit ctx es) \<Longrightarrow>
    validate_prefix (rlog c) prev_log_index prev_log_term = Ok (Reject hint) \<Longrightarrow>
    current_term (hard_state c) \<le> t \<Longrightarrow>
    frame (c\<lparr>hard_state := adopt t (hard_state c) (log_committed (rlog c))\<rparr>) c' \<Longrightarrow>
    micro ev (c, fx) (c', fx)"
| follow_stuck: "role c = Follower \<Longrightarrow> heard ev peer (AppendEntries t prev_log_index prev_log_term leader_commit ctx es) \<Longrightarrow>
    validate_prefix (rlog c) prev_log_index prev_log_term = Ok Match \<Longrightarrow>
    merge_from_leader (rlog c) es = Ok (l, appended) \<Longrightarrow>
    commit_to l (min leader_commit (last_index l)) = Ok l' \<Longrightarrow>
    \<not> is_ok (log_term_at l' (last_index l')) \<Longrightarrow>
    frame (c\<lparr>rlog := l', last_log_index := last_index l'\<rparr>) c' \<Longrightarrow>
    micro ev (c, fx) (c', fx)"
| stabilize: "completes ev j Persisted \<Longrightarrow> mark_stable (rlog c) i = Ok l \<Longrightarrow> frame (c\<lparr>rlog := l\<rparr>) c' \<Longrightarrow>
    micro ev (c, fx) (c', fx)"
| compaction: "completes ev j (CompactedThrough (record_index record)) \<Longrightarrow> compact (rlog c) record = Ok l \<Longrightarrow>
    frame (c\<lparr>rlog := l\<rparr>) c' \<Longrightarrow> micro ev (c, fx) (c', fx)"
| begin_apply: "pending_persist c = None \<Longrightarrow> checked_add (next_effect_sequence c) 1 = Some n \<Longrightarrow>
    pending_apply c = None \<Longrightarrow> checked_next (applied_index c) = Ok start \<Longrightarrow>
    log_range (rlog c) start (commit_index (hard_state c)) = Ok es \<Longrightarrow>
    frame (c\<lparr>next_effect_sequence := n, pending_apply := Some \<lparr>
             apply_id = EffectId (cfg_generation (config c)) n,
             apply_through = commit_index (hard_state c)\<rparr>\<rparr>) c' \<Longrightarrow>
    micro ev (c, fx) (c', fx @ [Apply (EffectId (cfg_generation (config c)) n) es])"
| end_apply: "pending_apply c = Some p \<Longrightarrow> completes ev (apply_id p) (AppliedThrough (apply_through p)) \<Longrightarrow>
    frame (c\<lparr>applied_index := apply_through p, pending_apply := None\<rparr>) c' \<Longrightarrow>
    micro ev (c, fx) (c', fx)"
| fail_apply: "completes ev i Failed \<Longrightarrow> frame (c\<lparr>stopped := True, pending_apply := None\<rparr>) c' \<Longrightarrow> micro ev (c, fx) (c', fx)"
| halt: "completes ev i Failed \<Longrightarrow> frame (c\<lparr>stopped := True\<rparr>) c' \<Longrightarrow> micro ev (c, fx) (c', fx)"
| install: "completes ev i (SnapshotInstalled (snap_id (metadata record))) \<Longrightarrow> install_snapshot (rlog c) record = Ok l \<Longrightarrow>
    last_t = (case log_term_at l (last_index l) of Ok t \<Rightarrow> t | _ \<Rightarrow> last_log_term c) \<Longrightarrow>
    frame (c\<lparr>rlog := l, last_log_index := last_index l, last_log_term := last_t,
             applied_index := max (applied_index c) (record_index record),
             hard_state := hard_state_new (max (current_term (hard_state c)) t) None
               (max (commit_index (hard_state c)) (record_index record))\<rparr>) c' \<Longrightarrow>
    micro ev (c, fx) (c', fx)"
| read_queue: "role c = Leader \<Longrightarrow> ev = Some (Read rid x) \<Longrightarrow>
    frame (c\<lparr>pending_reads := pending_reads c @ [rid]\<rparr>) c' \<Longrightarrow> micro ev (c, fx) (c', fx)"
| read_join: "role c = Leader \<Longrightarrow> ev = Some (Read rid x) \<Longrightarrow> read_round c = Some r \<Longrightarrow>
    frame (c\<lparr>read_round := Some (round_push r rid)\<rparr>) c' \<Longrightarrow> micro ev (c, fx) (c', fx)"
| read_drop: "pending_reads c = rid # rest \<Longrightarrow> frame (c\<lparr>pending_reads := rest\<rparr>) c' \<Longrightarrow> micro ev (c, fx) (c', fx)"
| read_open: "role c = Leader \<Longrightarrow> current_leader_noop_is_committed c \<Longrightarrow> read_round c = None \<Longrightarrow>
    pending_reads c = rid # rest \<or> (\<exists>x. ev = Some (Read rid x)) \<and> rest = pending_reads c \<Longrightarrow>
    frame (c\<lparr>pending_reads := rest, read_round := Some (fresh_round c n rid)\<rparr>) c' \<Longrightarrow> micro ev (c, fx) (c', fx)"
| read_count: "role c = Leader \<Longrightarrow>
    heard ev peer (AppendEntriesResponse (current_term (hard_state c)) True matched hint (Some (round_context r))) \<Longrightarrow>
    read_round c = Some r \<Longrightarrow> frame (c\<lparr>read_round := Some (acknowledge r peer)\<rparr>) c' \<Longrightarrow> micro ev (c, fx) (c', fx)"
| read_confirm: "read_round c = Some r \<Longrightarrow> safe_index r = None \<Longrightarrow> round_has_quorum r \<Longrightarrow>
    frame (c\<lparr>read_round := Some (set_safe_index r (commit_index (hard_state c)))\<rparr>) c' \<Longrightarrow> micro ev (c, fx) (c', fx)"
| read_release: "read_round c = Some r \<Longrightarrow> safe_index r = Some i \<Longrightarrow> i \<le> applied_index c \<Longrightarrow>
    frame (c\<lparr>read_round := None\<rparr>) c' \<Longrightarrow> micro ev (c, fx) (c', fx @ map (\<lambda>rid. ReadReady rid i) (requests r))"

abbreviation micros :: "'c event option \<Rightarrow> ('c, 'h) run \<Rightarrow> ('c, 'h) run \<Rightarrow> bool" where
  "micros ev \<equiv> (micro ev)\<^sup>*\<^sup>*"

interpretation spec: state_relation "micros ev"
  by unfold_locales (auto intro: rtranclp_trans)

lemma micro_micros: "micro ev s t \<Longrightarrow> micros ev s t"
  by (rule r_into_rtranclp)

text \<open>Most methods leave the role alone as well.\<close>

definition steady :: "'c event option \<Rightarrow> ('c, 'h) run \<Rightarrow> ('c, 'h) run \<Rightarrow> bool" where
  "steady ev s t \<longleftrightarrow> micros ev s t \<and> role (fst t) = role (fst s) \<and> hard_state (fst t) = hard_state (fst s)"

interpretation calm: state_relation "steady ev"
  by unfold_locales (auto simp: steady_def intro: rtranclp_trans)

lemma keeps_steady: "keeps (steady ev) m \<Longrightarrow> keeps (micros ev) m"
  by (auto simp: keeps_def steady_def)

section \<open>Refinement\<close>

lemma frame_refl [simp]: "frame c c"
  by (simp add: frame_def)

lemma steady_soft: "frame c c' \<Longrightarrow> steady ev (c, fx) (c', fx)"
  by (auto simp: steady_def frame_iff intro!: micro_micros [OF micro.soft])

lemma keeps_assign: "(\<And>c. frame c (f c)) \<Longrightarrow> keeps (steady ev) (assign f)"
  by (auto simp: keeps_post post_simps intro: steady_soft)

lemma keeps_emit: "effect_key e = None \<Longrightarrow> (\<And>rid i. e \<noteq> ReadReady rid i) \<Longrightarrow> keeps (steady ev) (emit e)"
  by (auto simp: keeps_post post_simps steady_def intro: micro_micros [OF micro.tell])

lemma keeps_attempt: "keeps (steady ev) (attempt g r)"
  by (simp add: attempt_def calm.keeps_pure)

lemmas calm_intros = calm.keeps_pure calm.keeps_bnd calm.keeps_andThen calm.keeps_block
  calm.keeps_for_each keeps_self keeps_assign keeps_emit keeps_attempt

lemmas spec_intros = spec.keeps_pure spec.keeps_bnd spec.keeps_andThen spec.keeps_block
  spec.keeps_for_each keeps_self keeps_assign [THEN keeps_steady] keeps_emit [THEN keeps_steady] keeps_attempt [THEN keeps_steady]

lemma keeps_issue:
  assumes "\<And>c n. frame (c\<lparr>next_effect_sequence := n\<rparr>) (f (EffectId (cfg_generation (config c)) n) (c\<lparr>next_effect_sequence := n\<rparr>))"
    and "\<And>i. effect_key (e i) = Some i"
  shows "keeps (steady ev) (bnd next_effect_id (\<lambda>i. block [assign (f i), emit (e i)]))"
  unfolding keeps_post
proof
  fix s :: "('a, 'b) run"
  obtain c fx where s: "s = (c, fx)" by (cases s)
  have "steady ev (c, fx) (f (EffectId (cfg_generation (config c)) n) (c\<lparr>next_effect_sequence := n\<rparr>),
      fx @ [e (EffectId (cfg_generation (config c)) n)])" if "checked_add (next_effect_sequence c) 1 = Some n" for n
    using micro.issue [OF that assms(2) assms(1)] assms(1) [of n c] by (auto simp: steady_def frame_iff)
  then show "post (bnd next_effect_id (\<lambda>i. block [assign (f i), emit (e i)])) s (\<lambda>_ t. steady ev s t)"
    by (cases "checked_add (next_effect_sequence c) 1")
     (auto simp: next_effect_id_def post_simps chain_iff s calm.rel_refl)
qed

lemma keeps_issue_then:
  assumes "\<And>c n. frame (c\<lparr>next_effect_sequence := n\<rparr>)
      (f (EffectId (cfg_generation (config c)) n) (c\<lparr>next_effect_sequence := n\<rparr>))"
    and "\<And>i. effect_key (e i) = Some i"
  shows "keeps (steady ev)
    (bnd next_effect_id (\<lambda>i. bnd (assign (f i)) (\<lambda>_. bnd (emit (e i)) (\<lambda>_. ret x))))"
  using keeps_issue [of f e ev, OF assms]
  by (auto simp: keeps_post post_simps next_effect_id_def chain_iff)

text \<open>Methods without a guard of their own.\<close>

lemma keeps_queue_persist: "k \<noteq> ActivateLeader \<Longrightarrow> keeps (steady ev) (queue_persist batch k)"
  unfolding queue_persist_def by (rule keeps_issue) (simp_all add: frame_iff claim_def)

lemma keeps_responses:
  "keeps (steady ev) (send_vote_response to t grant)"
  "keeps (steady ev) (send_append_entries_response to response)"
  "keeps (steady ev) (send_pre_vote_response to grant)"
  by (auto simp: send_vote_response_def send_append_entries_response_def send_pre_vote_response_def
      intro!: calm_intros)

lemma keeps_read_snapshot_chunk: "keeps (steady ev) (read_snapshot_chunk to)"
  by (auto simp: read_snapshot_chunk_def frame_iff intro!: calm_intros keeps_issue simp del: block.simps
      split: option.splits)

lemma frame_progress:
  "bt_get (progress c) to = Some p \<Longrightarrow> match_index p' = match_index p \<Longrightarrow> frame c (c\<lparr>progress := bt_insert to p' (progress c)\<rparr>)"
  by (simp add: frame_iff matching_def [abs_def] fun_eq_iff)

lemma progress_match:
  "sent p i = Ok p' \<Longrightarrow> match_index p' = match_index p" "reject p i n = Ok (p', b) \<Longrightarrow> match_index p' = match_index p"
  "match_index (enter_snapshot p) = match_index p" "match_index (restore_probe p n) = match_index p"
  "match_index (reset_activity p) = match_index p"
  by (auto simp: sent_def reject_def enter_snapshot_def restore_probe_def reset_activity_def Let_def rbind_Ok_iff split: if_splits)

lemma post_steady: "keeps (steady ev) m \<Longrightarrow> steady ev s t \<Longrightarrow> post m t (\<lambda>_ u. steady ev s u)"
  by (rule calm.post_keeps)

lemma steady_tell:
  "steady ev s (c, fx) \<Longrightarrow> effect_key e = None \<Longrightarrow> (\<And>rid i. e \<noteq> ReadReady rid i) \<Longrightarrow> steady ev s (c, fx @ [e])"
  by (auto simp: steady_def intro: rtranclp.rtrancl_into_rtrancl micro.tell)

lemma keeps_replicate_to: "keeps (steady ev) (replicate_to to)"
  unfolding keeps_post
proof
  fix s :: "('a, 'b) run"
  have "steady ev s ((fst s)\<lparr>progress := bt_insert to p' (progress (fst s))\<rparr>, snd s)"
    if "bt_get (progress (fst s)) to = Some p" "match_index p' = match_index p" for p p'
    using steady_soft [OF frame_progress [OF that], of ev "snd s"] by simp
  then show "post (replicate_to to) s (\<lambda>_ t. steady ev s t)"
    by (auto simp: replicate_to_def post_simps chain_iff calm.rel_refl
        intro!: steady_tell post_steady keeps_read_snapshot_chunk simp: progress_match split: option.splits)
qed

lemma keeps_replicate_all: "keeps (steady ev) replicate_all"
  by (auto simp: replicate_all_def intro!: calm_intros keeps_replicate_to)

lemma keeps_reports:
  "keeps (steady ev) (finish_apply through)" "keeps (steady ev) fail_uncommitted_proposals"
  by (auto simp: finish_apply_def fail_uncommitted_proposals_def report_at_def frame_iff
      intro!: calm_intros simp del: block.simps split: option.splits)

lemma keeps_broadcasts:
  "keeps (steady ev) (broadcast_pre_vote t)" "keeps (steady ev) (broadcast_vote_request t)"
  by (auto simp: broadcast_pre_vote_def broadcast_vote_request_def intro!: calm_intros)

lemma keeps_send_read_heartbeats: "keeps (steady ev) send_read_heartbeats"
  by (auto simp: send_read_heartbeats_def intro!: calm_intros)

lemma keeps_request_local_snapshot: "keeps (steady ev) request_local_snapshot"
  by (auto simp: request_local_snapshot_def frame_iff intro!: calm_intros keeps_issue simp del: block.simps)

lemma keeps_maybe_request_local_snapshot: "keeps (steady ev) maybe_request_local_snapshot"
  by (auto simp: maybe_request_local_snapshot_def intro!: calm_intros keeps_request_local_snapshot)

lemma keeps_on_install_snapshot_chunk:
  "keeps (steady ev) (on_install_snapshot_chunk sha peer t m offset bytes final)"
  by (auto simp: on_install_snapshot_chunk_def frame_iff intro!: calm_intros keeps_issue
      simp del: block.simps)

text \<open>Reads.\<close>

lemma steady_micro: "micro ev s t \<Longrightarrow> role (fst t) = role (fst s) \<Longrightarrow> hard_state (fst t) = hard_state (fst s) \<Longrightarrow> steady ev s t"
  by (auto simp: steady_def)

lemma steady_release: "steady ev s (release_round s)"
proof (cases s)
  case (Pair c fx)
  have "steady ev (c, fx) (c\<lparr>read_round := None\<rparr>, fx @ map (\<lambda>rid. ReadReady rid i) (requests r))"
    if "read_round c = Some r" "safe_index r = Some i" "i \<le> applied_index c" for r i
    by (rule steady_micro [OF micro.read_release [OF that]]) simp_all
  then show ?thesis by (auto simp: Pair release_round_def calm.rel_refl split: option.splits)
qed

lemma keeps_release: "keeps (steady ev) release_read_round"
  by (simp add: release_read_round_def keeps_post post_simps steady_release)

lemma steady_open:
  assumes "role c = Leader" "current_leader_noop_is_committed c" "read_round c = None"
    and "pending_reads c = rid # rest \<or> (\<exists>x. ev = Some (Read rid x)) \<and> rest = pending_reads c"
  shows "steady ev (c, fx) (c\<lparr>pending_reads := rest, next_read_context := n, read_round := Some (fresh_round c n rid)\<rparr>, fx)"
    and "round_has_quorum (fresh_round c n rid) \<Longrightarrow> steady ev (c, fx) (c\<lparr>pending_reads := rest, next_read_context := n,
      read_round := Some (set_safe_index (fresh_round c n rid) (commit_index (hard_state c)))\<rparr>, fx)"
proof -
  let ?d = "c\<lparr>pending_reads := rest, next_read_context := n, read_round := Some (fresh_round c n rid)\<rparr>"
  show opened: "steady ev (c, fx) (?d, fx)"
    by (rule steady_micro [OF micro.read_open [OF assms]]) (simp_all add: frame_iff)
  assume "round_has_quorum (fresh_round c n rid)"
  then have "steady ev (?d, fx) (?d\<lparr>read_round := Some (set_safe_index (fresh_round c n rid) (commit_index (hard_state c)))\<rparr>, fx)"
    by (intro steady_micro [OF micro.read_confirm [of ?d "fresh_round c n rid"]]) (simp_all add: fresh_round_def read_round_new_def)
  then show "steady ev (c, fx) (c\<lparr>pending_reads := rest, next_read_context := n,
      read_round := Some (set_safe_index (fresh_round c n rid) (commit_index (hard_state c)))\<rparr>, fx)"
    using calm.rel_trans [OF opened] by simp
qed

lemma steady_drop: "pending_reads c = rid # rest \<Longrightarrow> steady ev (c, fx) (c\<lparr>pending_reads := rest\<rparr>, fx)"
  by (rule steady_micro [OF micro.read_drop [OF _ frame_refl]]) simp_all

lemmas steady_start = start_reads_rel [OF calm.state_relation_axioms steady_drop steady_open(1) steady_open(2)
  keeps_send_read_heartbeats steady_release]

lemma keeps_start_pending_reads: "keeps (steady ev) start_pending_reads"
  unfolding keeps_def by (auto intro!: steady_start(2))

lemma steady_read_moves:
  assumes "role c = Leader"
  shows "ev = Some (Read rid x) \<Longrightarrow> steady ev (c, fx) (c\<lparr>pending_reads := pending_reads c @ [rid]\<rparr>, fx)"
    "ev = Some (Read rid x) \<Longrightarrow> read_round c = Some r \<Longrightarrow> steady ev (c, fx) (c\<lparr>read_round := Some (round_push r rid)\<rparr>, fx)"
    "heard ev peer (AppendEntriesResponse (current_term (hard_state c)) True matched hint (Some (round_context r))) \<Longrightarrow>
      read_round c = Some r \<Longrightarrow> steady ev (c, fx) (c\<lparr>read_round := Some (acknowledge r peer)\<rparr>, fx)"
  using assms by (auto intro!: steady_micro intro: micro.read_queue [OF _ _ frame_refl] micro.read_join [OF _ _ _ frame_refl]
      micro.read_count [OF _ _ _ frame_refl])

lemma keeps_on_read:
  assumes "ev = Some (Read rid x)"
  shows "keeps (steady ev) (on_read rid)"
  unfolding keeps_post
proof
  fix s :: "('a, 'b) run"
  obtain c fx where s: "s = (c, fx)" by (cases s)
  have "steady ev s (snd (start_read_round rid s))"
    if c: "role c = Leader" "current_leader_noop_is_committed c" "read_round c = None"
  proof -
    have "c\<lparr>pending_reads := pending_reads c, next_read_context := n, read_round := r\<rparr> = c\<lparr>next_read_context := n, read_round := r\<rparr>" for n r
      by (cases c) simp
    then show ?thesis
      using steady_open [OF c, where rid = rid and rest = "pending_reads c" and ev = ev] assms unfolding s
      by (intro steady_start(1) calm.rel_refl) auto
  qed
  then show "post (on_read rid) s (\<lambda>_ t. steady ev s t)"
    using steady_read_moves(1,2) [OF _ assms] s
    by (auto simp: on_read_def post_simps calm.rel_refl post_def [of "start_read_round rid"] split: option.splits)
qed

text \<open>An acknowledgement of the round in flight, from the current term of a leader.\<close>

lemma post_acknowledge_read_context:
  assumes "role (fst s) = Leader"
    and "heard ev peer (AppendEntriesResponse (current_term (hard_state (fst s))) True matched hint (Some ctx))"
  shows "post (acknowledge_read_context peer ctx) s (\<lambda>_ t. steady ev s t)"
proof -
  obtain c fx where s: "s = (c, fx)" by (cases s)
  have count: "steady ev s (c\<lparr>read_round := Some (acknowledge r peer)\<rparr>, fx)" if "read_round c = Some r" "round_context r = ctx" for r
    using steady_read_moves(3) [of c ev peer matched hint r fx] assms that by (simp add: s)
  have confirm: "steady ev s (c\<lparr>read_round := Some (set_safe_index (acknowledge r peer) (commit_index (hard_state c)))\<rparr>, fx)"
    if r: "read_round c = Some r" "round_context r = ctx" "round_has_quorum (acknowledge r peer)" "safe_index (acknowledge r peer) = None" for r
  proof -
    let ?d = "c\<lparr>read_round := Some (acknowledge r peer)\<rparr>"
    have "steady ev (?d, fx) (?d\<lparr>read_round := Some (set_safe_index (acknowledge r peer) (commit_index (hard_state ?d)))\<rparr>, fx)"
      by (rule steady_micro [OF micro.read_confirm [OF _ _ _ frame_refl]]) (simp_all add: r)
    then show ?thesis using calm.rel_trans [OF count [OF r(1,2)]] by simp
  qed
  show ?thesis
    using count confirm
    by (auto simp: acknowledge_read_context_def Let_def post_simps s calm.rel_refl intro!: calm.post_then keeps_release
        keeps_start_pending_reads calm.keeps_block simp del: block.simps split: option.splits)
qed

text \<open>Methods whose writes are guarded.\<close>

lemma post_spec: "keeps (micros ev) m \<Longrightarrow> micros ev s t \<Longrightarrow> post m t (\<lambda>_ u. micros ev s u)"
  by (rule spec.post_keeps)

lemma micros_step: "micros ev s (c, fx) \<Longrightarrow> micro ev (c, fx) t \<Longrightarrow> micros ev s t"
  by (rule rtranclp.rtrancl_into_rtrancl)

lemma micros_retire:
  "micros ev s (c, fx) \<Longrightarrow> v \<in> {None, votes c} \<Longrightarrow> pv \<in> {None, pre_votes c} \<Longrightarrow>
   micros ev s (c\<lparr>role := Follower, pre_votes := pv, votes := v\<rparr>, fx)"
  by (rule micros_step, assumption) (rule micro.retire [OF _ _ frame_refl])

lemma micros_become_follower: "micros ev s (c, fx) \<Longrightarrow> micros ev s (become_follower c, fx)"
proof -
  assume "micros ev s (c, fx)"
  then have "micros ev s (c\<lparr>role := Follower, pre_votes := None, votes := None\<rparr>, fx)" by (rule micros_retire) simp_all
  then show ?thesis
    by (rule micros_step) (auto intro!: micro.abandon simp: become_follower_def frame_iff)
qed

lemma micros_new_term:
  assumes "micros ev s (c, fx)" "role c = Follower" "heard ev peer m" "message_term m = Some t" "votable c peer m v"
    and "current_term (hard_state c) < t"
  shows "micros ev s (c\<lparr>hard_state := hard_state_new t v (commit_index (hard_state c))\<rparr>, fx)"
  by (rule micros_step [OF assms(1)]) (rule micro.new_term [OF assms(2-6) frame_refl])

lemma post_begin_term_transition:
  assumes "heard ev peer m" "message_term m = Some t" "current_term (hard_state (fst s)) < t"
  shows "post (begin_term_transition t NoContinuation) s (\<lambda>_ u. micros ev s u)"
proof -
  obtain c fx where s: "s = (c, fx)" by (cases s)
  have "micros ev s ((become_follower c)\<lparr>hard_state := hard_state_new t None (commit_index (hard_state (become_follower c)))\<rparr>, fx)"
    by (rule micros_new_term [OF micros_become_follower _ assms(1,2)])
      (use assms(3) in \<open>simp_all add: s become_follower_def votable_def\<close>)
  then show ?thesis
    by (auto simp: begin_term_transition_def post_simps s chain_iff
        intro!: spec.post_then keeps_queue_persist [THEN keeps_steady] spec_intros simp del: block.simps)
qed

lemma keeps_emit_apply: "keeps (steady ev) emit_apply_if_needed"
  by (auto simp: keeps_post emit_apply_if_needed_def post_simps chain_iff next_effect_id_def calm.rel_refl
      intro!: steady_micro micro.begin_apply [OF _ _ _ _ _ frame_refl] split: option.splits simp del: block.simps)

lemma post_advance_commit:
  assumes "role (fst s) = Leader \<or> (\<exists>i. completes ev i Persisted)"
  shows "post advance_commit s (\<lambda>_ u. micros ev s u)"
proof -
  obtain c fx where s: "s = (c, fx)" by (cases s)
  have "micros ev s (c\<lparr>rlog := l, hard_state := hard_state_new (current_term (hard_state c)) (voted_for (hard_state c)) i\<rparr>, fx)"
    if "quorum_commit (rlog c) (progress c) (cfg_quorum (config c)) (current_term (hard_state c)) = Ok (Some i)"
      "commit_to (rlog c) i = Ok l" for i l
    using micro.leader_commit [OF assms [unfolded s fst_conv] that frame_refl] by (auto simp: s)
  then show ?thesis
    by (auto simp: advance_commit_def post_simps s chain_iff
        intro!: spec.post_then keeps_queue_persist [THEN keeps_steady] spec_intros split: option.splits simp del: block.simps)
qed

lemma minted_fields:
  "entry_command i t cmd len = Ok e \<Longrightarrow> entry_index e = i \<and> entry_term e = t \<and> encoded_len e = len \<and> payload e = Command cmd"
  "leader_noop i t = Ok e' \<Longrightarrow> entry_index e' = i \<and> entry_term e' = t \<and> payload e' = LeaderNoop"
  by (auto simp: entry_command_Ok_iff leader_noop_Ok_iff)

lemma keeps_on_propose:
  assumes "ev = Some (Propose pid cmd len)"
  shows "keeps (micros ev) (on_propose pid cmd len)"
  unfolding keeps_post
proof
  fix s :: "('a, 'b) run"
  obtain c fx where s: "s = (c, fx)" by (cases s)
  have "micros ev s (c\<lparr>rlog := l, last_log_index := i, last_log_term := current_term (hard_state c), proposals := v\<rparr>, fx)"
    if "role c = Leader" "checked_next (last_log_index c) = Ok i" "entry_command i (current_term (hard_state c)) cmd len = Ok e"
      "log_append (rlog c) [e] = Ok l" "bt_ordered (proposals c) \<longrightarrow> bt_ordered v" for e i l v
    unfolding s using minted_fields(1) [OF that(3)] that(1,2,5) assms
    by (intro micro_micros micro.leader_append [OF _ _ _ that(4), of ev "leader_noop_index c"]) (auto simp: entitled_def frame_iff)
  then show "post (on_propose pid cmd len) s (\<lambda>_ u. micros ev s u)"
    by (auto simp: on_propose_def post_simps s chain_iff
        intro!: spec.post_then keeps_queue_persist [THEN keeps_steady] spec_intros micro_micros [OF micro.tell]
        simp del: block.simps)
qed

lemma micros_persist_leader_noop:
  assumes "votes (fst s) = Some q" "has_quorum q"
  shows "post persist_leader_noop s (\<lambda>_ u. micros ev s u)"
proof -
  obtain c fx where s: "s = (c, fx)" by (cases s)
  let ?d = "\<lambda>l i. c\<lparr>rlog := l, last_log_index := i, last_log_term := current_term (hard_state c), leader_noop_index := Some i\<rparr>"
  have noop: "micros ev s (?d l i, fx)"
    if "checked_next (last_log_index c) = Ok i" "leader_noop i (current_term (hard_state c)) = Ok e"
      "log_append (rlog c) [e] = Ok l" for e i l
    unfolding s using minted_fields(2) [OF that(2)] that(1) assms
    by (intro micro_micros micro.leader_append [OF _ _ _ that(3), of ev "Some i"]) (auto simp: s entitled_def frame_iff)
  have "micros ev s ((?d l i)\<lparr>next_effect_sequence := n, pending_persist := Some \<lparr>persist_id = EffectId (cfg_generation (config c)) n,
      stable_through = x, continuation = ActivateLeader\<rparr>\<rparr>, fx @ [Persist (EffectId (cfg_generation (config c)) n) b])"
    if "micros ev s (?d l i, fx)" "checked_add (next_effect_sequence c) 1 = Some n" for l i n x b
    using micros_step [OF that(1) micro.stake [OF _ assms(2) _ frame_refl]] that(2) assms(1) by (simp add: s)
  then show ?thesis using noop
    by (auto simp: persist_leader_noop_def queue_persist_def next_effect_id_def post_simps s chain_iff)
qed

lemma post_become_candidate:
  assumes "role (fst s) = PreCandidate" "pre_votes (fst s) = Some q" "has_quorum q"
  shows "post become_candidate s (\<lambda>_ u. micros ev s u)"
proof -
  obtain c fx where s: "s = (c, fx)" by (cases s)
  have "micros ev s (c\<lparr>role := Candidate, pre_votes := None,
      votes := Some (with_local_vote (cfg_members (config c)) (cfg_local_id (config c))),
      hard_state := hard_state_new t (Some (cfg_local_id (config c))) (commit_index (hard_state c))\<rparr>, fx)"
    if "checked_next (current_term (hard_state c)) = Ok t" for t
    using micro.stand [OF _ _ assms(3) that frame_refl] assms(1,2) by (auto simp: s)
  then show ?thesis
    by (auto simp: become_candidate_def post_simps s chain_iff
        intro!: spec.post_then keeps_queue_persist [THEN keeps_steady] spec_intros simp del: block.simps)
qed

lemma keeps_start_pre_vote:
  assumes "ev = Some (Tick ElectionTick)"
  shows "keeps (micros ev) start_pre_vote"
  unfolding keeps_post
proof
  fix s :: "('a, 'b) run"
  obtain c fx where s: "s = (c, fx)" by (cases s)
  let ?d = "c\<lparr>role := PreCandidate, votes := None, pre_votes := Some (with_local_vote (cfg_members (config c)) (cfg_local_id (config c)))\<rparr>"
  have canvass: "micros ev s (?d, fx)" if "role c \<noteq> Leader"
    using micro.canvass [OF that assms frame_refl] by (auto simp: s)
  have "post become_candidate (?d, fx) (\<lambda>_ u. micros ev s u)"
    if "role c \<noteq> Leader" "has_quorum (with_local_vote (cfg_members (config c)) (cfg_local_id (config c)))"
    by (rule post_weaken [OF post_become_candidate [OF _ _ that(2)]]) (use spec.rel_trans [OF canvass [OF that(1)]] in auto)
  then show "post start_pre_vote s (\<lambda>_ u. micros ev s u)"
    using canvass by (auto simp: start_pre_vote_def post_simps s chain_iff intro!: post_spec keeps_broadcasts [THEN keeps_steady])
qed

lemma keeps_on_vote_request:
  assumes "heard ev peer (RequestVote t index log_t)"
  shows "keeps (micros ev) (on_vote_request peer t index log_t)"
  unfolding keeps_post
proof
  fix s :: "('a, 'b) run"
  obtain c fx where s: "s = (c, fx)" by (cases s)
  let ?cur = "current_term (hard_state c)" and ?f = "c\<lparr>role := Follower, pre_votes := None, votes := None\<rparr>"
  have risen: "micros ev s (?f\<lparr>hard_state := hard_state_new t v (commit_index (hard_state c))\<rparr>, fx)" if "?cur < t" "votable c peer (RequestVote t index log_t :: 'a message) v" for v
    using micros_new_term [OF micros_retire [of ev s c fx None None] _ assms, of t v] that s by (simp add: votable_def)
  have vote: "micros ev s (c\<lparr>hard_state := hard_state_new ?cur (Some peer) (commit_index (hard_state c))\<rparr>, fx)"
    if "t = ?cur" "is_log_up_to_date index log_t (last_log_index c) (last_log_term c)" "voted_for (hard_state c) = None"
    using micro.cast_vote [OF _ that(2,3) frame_refl] assms that(1) by (auto simp: s)
  consider "t < ?cur" | "?cur < t" | "t = ?cur" by fastforce
  then show "post (on_vote_request peer t index log_t) s (\<lambda>_ u. micros ev s u)"
  proof cases
    case 3
    then show ?thesis using vote
      by (auto simp: on_vote_request_def post_simps s Let_def chain_iff
          intro!: spec.post_then post_spec keeps_queue_persist [THEN keeps_steady] spec_intros keeps_responses [THEN keeps_steady]
          simp del: block.simps split: option.splits)
  qed (use risen in \<open>auto simp: on_vote_request_def post_simps s Let_def chain_iff votable_def
      intro!: spec.post_then post_spec keeps_queue_persist [THEN keeps_steady] spec_intros keeps_responses [THEN keeps_steady]
      simp del: block.simps\<close>)
qed

text \<open>A response from a higher term makes the node step down; otherwise the rest
  of the handler decides.\<close>

lemma keeps_term_guard:
  assumes "heard ev peer m" "message_term m = Some t"
    and "\<And>s. t \<le> current_term (hard_state (fst s)) \<Longrightarrow> post (rest (fst s)) s (\<lambda>_ u. micros ev s u)"
  shows "keeps (micros ev)
    (self (\<lambda>c. if t > current_term (hard_state c) then begin_term_transition t NoContinuation else rest c))"
  using assms by (auto simp: keeps_post post_simps not_less intro: post_begin_term_transition)

lemma keeps_on_pre_vote_response:
  assumes "heard ev peer (PreVoteResponse t grant)"
  shows "keeps (micros ev) (on_pre_vote_response peer t grant)"
  unfolding on_pre_vote_response_def
proof (rule keeps_term_guard [OF assms])
  fix s :: "('a, 'b) run"
  obtain c fx where s: "s = (c, fx)" by (cases s)
  assume t: "t \<le> current_term (hard_state (fst s))"
  have poll: "micros ev s (c\<lparr>pre_votes := Some (record_vote q peer grant)\<rparr>, fx)" if "role c = PreCandidate" "pre_votes c = Some q" for q
    using micro.poll [OF that(1) assms _ that(2) frame_refl] t by (auto simp: s)
  have "post become_candidate (c\<lparr>pre_votes := Some (record_vote q peer grant)\<rparr>, fx) (\<lambda>_ u. micros ev s u)"
    if "role c = PreCandidate" "pre_votes c = Some q" "has_quorum (record_vote q peer grant)" for q
    by (rule post_weaken [OF post_become_candidate [OF _ _ that(3)]]) (use that(1) spec.rel_trans [OF poll [OF that(1,2)]] in auto)
  moreover have "micros ev s (c\<lparr>role := Follower, pre_votes := None\<rparr>, fx)" if "role c = PreCandidate" "pre_votes c = Some q" for q
    using micros_retire [OF poll [OF that], of "votes c" None] by simp
  ultimately show "post (if role (fst s) \<noteq> PreCandidate then ret () else case pre_votes (fst s) of None \<Rightarrow> ret ()
     | Some q \<Rightarrow> let q = record_vote q peer grant in block
         [assign (\<lambda>c. c\<lparr>pre_votes := Some q\<rparr>),
          if has_quorum q then become_candidate
          else if cannot_win q then assign (\<lambda>c. c\<lparr>role := Follower, pre_votes := None\<rparr>)
          else ret ()]) s (\<lambda>_ u. micros ev s u)"
    using poll by (auto simp: s post_simps Let_def chain_iff split: option.splits)
qed simp

lemma keeps_on_vote_response:
  assumes "heard ev peer (VoteResponse t grant)"
  shows "keeps (micros ev) (on_vote_response peer t grant)"
  unfolding on_vote_response_def
proof (rule keeps_term_guard [OF assms])
  fix s :: "('a, 'b) run"
  obtain c fx where s: "s = (c, fx)" by (cases s)
  have tally: "micros ev s (c\<lparr>votes := Some (record_vote q peer grant)\<rparr>, fx)"
    if "t = current_term (hard_state c)" "role c = Candidate" "votes c = Some q" for q
    using micro.tally [OF that(2) _ that(3) frame_refl] assms that(1) by (auto simp: s)
  have "post persist_leader_noop (c\<lparr>votes := Some (record_vote q peer grant)\<rparr>, fx) (\<lambda>_ u. micros ev s u)"
    if "t = current_term (hard_state c)" "role c = Candidate" "votes c = Some q" "has_quorum (record_vote q peer grant)" for q
    by (rule post_weaken [OF micros_persist_leader_noop [OF _ that(4)]]) (use spec.rel_trans [OF tally [OF that(1-3)]] in auto)
  moreover have "micros ev s (c\<lparr>role := Follower, votes := None\<rparr>, fx)"
    if "t = current_term (hard_state c)" "role c = Candidate" "votes c = Some q" for q
  proof -
    have "c\<lparr>role := Follower, pre_votes := pre_votes c, votes := None\<rparr> = c\<lparr>role := Follower, votes := None\<rparr>" by (cases c) simp
    then show ?thesis using micros_retire [OF tally [OF that], of None "pre_votes c"] by simp
  qed
  ultimately show "post (if t \<noteq> current_term (hard_state (fst s)) \<or> role (fst s) \<noteq> Candidate then ret () else case votes (fst s) of None \<Rightarrow> ret ()
     | Some q \<Rightarrow> let q = record_vote q peer grant in block
         [assign (\<lambda>c. c\<lparr>votes := Some q\<rparr>),
          if has_quorum q then persist_leader_noop
          else if cannot_win q then assign (\<lambda>c. c\<lparr>role := Follower, votes := None\<rparr>)
          else ret ()]) s (\<lambda>_ u. micros ev s u)"
    using tally by (auto simp: s post_simps Let_def chain_iff split: option.splits)
qed simp

lemma bt_get_map_values: "bt_get (map (\<lambda>(k, v). (k, f v)) m) k = map_option f (bt_get m k)"
  by (induction m) (auto simp: bt_get_def)

lemma keeps_on_heartbeat_tick: "keeps (micros ev) on_heartbeat_tick"
  unfolding keeps_post
proof
  fix s :: "('a, 'b) run"
  have "frame c (c\<lparr>active_members := a, progress := map (\<lambda>(node, p). (node, reset_activity p)) (progress c)\<rparr>)" for c :: "('a, 'b) raft_core" and a
    by (auto simp: frame_iff matching_def [abs_def] bt_get_map_values option.map_comp comp_def progress_match)
  then have "micros ev s ((fst s)\<lparr>active_members := a, progress := map (\<lambda>(node, p). (node, reset_activity p)) (progress (fst s))\<rparr>, snd s)" for a
    using micro.soft [of "fst s" _ ev "snd s"] by auto
  moreover have "micros ev s (become_follower (fst s), snd s)" by (rule micros_become_follower) simp
  ultimately show "post on_heartbeat_tick s (\<lambda>_ u. micros ev s u)"
    by (auto simp: on_heartbeat_tick_def post_simps chain_iff intro!: post_spec keeps_replicate_all [THEN keeps_steady])
qed

lemma chain_nothing: "chain (\<lambda>_. block []) (\<lambda>_. P) = (\<lambda>_. P)"
  by (auto simp: fun_eq_iff chain_def post_simps split: result.splits)

lemma keeps_on_append_entries_response:
  assumes "heard ev peer (AppendEntriesResponse t success matched conflict ctx)"
  shows "keeps (micros ev) (on_append_entries_response peer t success matched conflict ctx)"
  unfolding on_append_entries_response_def
proof (rule keeps_term_guard [OF assms])
  fix s :: "('a, 'b) run"
  obtain c fx where s: "s = (c, fx)" by (cases s)
  let ?d = "\<lambda>p'. c\<lparr>progress := bt_insert peer p' (progress c)\<rparr>"
  assume "t \<le> current_term (hard_state (fst s))"
  have upd: "steady ev s (?d p', fx)" if "role c = Leader" "t = current_term (hard_state c)" "bt_get (progress c) peer = Some p"
      "(case n of None \<Rightarrow> acknowledged p (min matched (last_index (rlog c))) | Some n \<Rightarrow> reject p matched n) = (Ok (p', b) :: (progress \<times> bool, step_error) result)"
      "n = None \<longleftrightarrow> success" for p p' n b
  proof (cases n)
    case None
    then have "heard ev peer (AppendEntriesResponse (current_term (hard_state c)) True matched conflict ctx)"
      using assms that(2,5) by simp
    from micro.acked [OF that(1) this that(3) _ frame_refl] show ?thesis
      using that(4) None by (auto simp: s intro!: steady_micro)
  next
    case (Some m)
    then have "reject p matched m = (Ok (p', b) :: (progress \<times> bool, step_error) result)" using that(4) by simp
    then have "match_index p' = match_index p" by (auto simp: reject_def Let_def rbind_Ok_iff split: if_splits)
    then show ?thesis using steady_soft [OF frame_progress [OF that(3)]] by (simp add: s)
  qed
  have tail: "post (block [case ctx of Some context \<Rightarrow> if success then acknowledge_read_context peer context else ret () | None \<Rightarrow> ret (),
      if changed then block [replicate_to peer, advance_commit] else ret ()]) u (\<lambda>_ v. micros ev s v)"
    if u: "steady ev s u" "role c = Leader" "t = current_term (hard_state c)" for u changed
  proof -
    have lead: "role (fst v) = Leader" if "steady ev s v" for v using that u(2) by (simp add: steady_def s)
    have ack: "post (acknowledge_read_context peer x) u (\<lambda>_ v. steady ev s v)" if "ctx = Some x" "success" for x
      using assms that u(3) lead [OF u(1)] post_acknowledge_read_context [of u ev peer matched conflict x] u(1)
      by (intro post_weaken [OF post_acknowledge_read_context [of u ev peer matched conflict x]])
        (auto simp: steady_def s dest: calm.rel_trans rtranclp_trans)
    have commit: "post advance_commit v (\<lambda>_ w. micros ev s w)" if "steady ev s v" for v
      using lead [OF that] that
      by (intro post_weaken [OF post_advance_commit [of v ev]]) (auto simp: steady_def intro: rtranclp_trans)
    have "post (block [replicate_to peer, advance_commit]) v (\<lambda>_ w. micros ev s w)" if v: "steady ev s v" for v
      unfolding post_block(2)
      by (rule post_weaken [OF post_steady [OF keeps_replicate_to v]])
        (use commit in \<open>auto simp: chain_iff post_simps steady_def\<close>)
    then have rest: "post (if changed then block [replicate_to peer, advance_commit] else ret ()) v (\<lambda>_ w. micros ev s w)"
      if "steady ev s v" for v
      using that by (auto simp: post_simps steady_def simp del: block.simps)
    have "post (case ctx of Some context \<Rightarrow> if success then acknowledge_read_context peer context else ret () | None \<Rightarrow> ret ()) u (\<lambda>_ v. steady ev s v)"
      using ack u(1) by (auto simp: post_simps split: option.splits)
    then show ?thesis
      unfolding post_block(2)
      by (rule post_weaken) (use rest in \<open>auto simp: chain_iff chain_nothing post_block(2) post_simps steady_def simp del: block.simps\<close>)
  qed
  show "post (if role (fst s) \<noteq> Leader \<or> t \<noteq> current_term (hard_state (fst s)) then ret ()
     else bnd (if success then ret None
               else bnd (attempt Log (rejected_next (rlog (fst s))
                      (case conflict of Some h \<Rightarrow> h
                       | None \<Rightarrow> \<lparr>hint_index = matched, hint_term = None\<rparr>)))
                      (\<lambda>n. ret (Some n))) (\<lambda>next_idx.
       case bt_get (progress (fst s)) peer of
         None \<Rightarrow> ret ()
       | Some p \<Rightarrow>
           bnd (lift_res (case next_idx of
                  None \<Rightarrow> acknowledged p (min matched (last_index (rlog (fst s))))
                | Some n \<Rightarrow> reject p matched n)) (\<lambda>(p', changed). block
             [assign (\<lambda>c. c\<lparr>progress := bt_insert peer p' (progress c)\<rparr>),
              case ctx of
                Some context \<Rightarrow> if success then acknowledge_read_context peer context else ret ()
              | None \<Rightarrow> ret (),
              if changed then block [replicate_to peer, advance_commit] else ret ()]))) s (\<lambda>_ u. micros ev s u)"
  proof (cases "role c = Leader \<and> t = current_term (hard_state c)")
    case True
    have work: "post (block [assign (\<lambda>c. c\<lparr>progress := bt_insert peer p' (progress c)\<rparr>),
        case ctx of Some context \<Rightarrow> if success then acknowledge_read_context peer context else ret () | None \<Rightarrow> ret (),
        if changed then block [replicate_to peer, advance_commit] else ret ()]) s (\<lambda>_ u. micros ev s u)"
      if "bt_get (progress c) peer = Some p"
        "(case n of None \<Rightarrow> acknowledged p (min matched (last_index (rlog c))) | Some n \<Rightarrow> reject p matched n) = (Ok (p', changed) :: (progress \<times> bool, step_error) result)"
        "n = None \<longleftrightarrow> success" for p p' n changed
      unfolding post_block(2) [of "assign _"] post_action chain_simps
      using tail [OF upd [OF _ _ that], of changed] True by (simp add: s del: block.simps)
    show ?thesis
    proof (cases "bt_get (progress c) peer")
      case None
      then show ?thesis using True by (auto simp: s post_simps chain_iff)
    next
      case (Some p)
      then show ?thesis using True work [OF Some, of None] work [OF Some, of "Some _"]
        by (cases success) (auto simp: s post_pure post_bnd post_action chain_iff simp del: block.simps)
    qed
  qed (auto simp: s post_simps)
qed simp

lemma keeps_on_install_snapshot_response:
  assumes "heard ev peer (InstallSnapshotResponse t success)"
  shows "keeps (micros ev) (on_install_snapshot_response peer t success)"
  unfolding on_install_snapshot_response_def
proof (rule keeps_term_guard [OF assms])
  fix s :: "('a, 'b) run"
  obtain c fx where s: "s = (c, fx)" by (cases s)
  let ?d = "c\<lparr>snapshot_senders := bt_remove peer (snapshot_senders c)\<rparr>"
  have gone: "micros ev s (?d, fx)" unfolding s by (rule micro_micros [OF micro.soft]) (simp add: frame_iff)
  have again: "micros ev s (?d\<lparr>progress := bt_insert peer (restore_probe p n) (progress c)\<rparr>, fx)" if "bt_get (progress c) peer = Some p" for p n
    using micros_step [OF gone micro.soft [OF frame_progress]] that progress_match(4) by auto
  show "post (if role (fst s) \<noteq> Leader \<or> t \<noteq> current_term (hard_state (fst s)) \<or> \<not> success then ret ()
     else case bt_get (snapshot_senders (fst s)) peer of
       None \<Rightarrow> ret ()
     | Some sender \<Rightarrow>
         bnd (assign (\<lambda>c. c\<lparr>snapshot_senders := bt_remove peer (snapshot_senders c)\<rparr>)) (\<lambda>_.
         bnd (attempt Arithmetic (checked_next (record_index (send_snapshot sender)))) (\<lambda>next_idx. block
           [case bt_get (progress (fst s)) peer of
              None \<Rightarrow> ret ()
            | Some p \<Rightarrow> assign (\<lambda>c. c\<lparr>progress := bt_insert peer (restore_probe p next_idx) (progress c)\<rparr>),
            replicate_to peer]))) s (\<lambda>_ u. micros ev s u)"
    using gone again
    by (auto simp: s post_simps chain_iff intro!: post_spec keeps_replicate_to [THEN keeps_steady] split: option.splits)
qed simp

lemma commit_to_last: "\<exists>l'. commit_to l (min i (last_index l)) = Ok l'"
  by (simp add: commit_to_def)

lemma commit_to_last_no_error [simp]:
  "commit_to l (min i (last_index l)) \<noteq> Err e" "commit_to l (min i (last_index l)) \<noteq> Panic"
  using commit_to_last [of l i] by auto

text \<open>The part of \<open>on_append_entries\<close> that follows the merge.\<close>

lemma post_append_to_log:
  assumes "\<And>r. \<not> is_ok r \<Longrightarrow> Q r s" "\<And>hint. validate_prefix (rlog (fst s)) prev_log_index prev_log_term = Ok (Reject hint) \<Longrightarrow> Q (Ok (False, Some hint, [])) s"
    and "\<And>l appended l' last_t. validate_prefix (rlog (fst s)) prev_log_index prev_log_term = Ok Match \<Longrightarrow>
      merge_from_leader (rlog (fst s)) entries = Ok (l, appended) \<Longrightarrow>
      commit_to l (min leader_commit (last_index l)) = Ok l' \<Longrightarrow>
      log_term_at l' (last_index l') = Ok last_t \<Longrightarrow>
      Q (Ok (True, None, appended)) ((fst s)\<lparr>rlog := l', last_log_index := last_index l', last_log_term := last_t\<rparr>, snd s)"
    and "\<And>l appended l' r. validate_prefix (rlog (fst s)) prev_log_index prev_log_term = Ok Match \<Longrightarrow>
      merge_from_leader (rlog (fst s)) entries = Ok (l, appended) \<Longrightarrow>
      commit_to l (min leader_commit (last_index l)) = Ok l' \<Longrightarrow>
      \<not> is_ok (log_term_at l' (last_index l')) \<Longrightarrow> \<not> is_ok r \<Longrightarrow>
      Q r ((fst s)\<lparr>rlog := l', last_log_index := last_index l'\<rparr>, snd s)"
  shows "post (append_to_log prev_log_index prev_log_term leader_commit entries) s Q"
  using assms
  by (auto simp: append_to_log_def post_simps chain_iff map_err_Err_iff split: prefix_decision.splits)

lemma post_conclude_append:
  assumes "micros ev s (c'\<lparr>hard_state := adopt t (hard_state c') (log_committed (rlog c'))\<rparr>, fx)"
    and "term_changed \<longleftrightarrow> current_term (hard_state c') < t"
  shows "post (conclude_append peer t term_changed prev_log_index ctx success conflict appended) (c', fx)
    (\<lambda>_ u. micros ev s u)"
  using assms
  by (auto simp: conclude_append_def post_simps Let_def chain_iff adopt_def
      intro!: post_spec keeps_responses [THEN keeps_steady] keeps_queue_persist [THEN keeps_steady])

lemma keeps_on_append_entries:
  assumes "heard ev peer (AppendEntries t prev_log_index prev_log_term leader_commit ctx entries)"
  shows "keeps (micros ev) (on_append_entries peer t prev_log_index prev_log_term leader_commit ctx entries)"
  unfolding keeps_post
proof
  fix s :: "('a, 'b) run"
  obtain c fx where s: "s = (c, fx)" by (cases s)
  let ?f = "become_follower c" and ?cur = "current_term (hard_state c)"
  let ?tail = "\<lambda>(success, conflict, appended).
    conclude_append peer t (?cur < t) prev_log_index ctx success conflict appended"
  have fields: "hard_state ?f = hard_state c" "rlog ?f = rlog c" and f: "role ?f = Follower"
    by (simp_all add: become_follower_def)
  have down: "micros ev s (?f, fx)" by (rule micros_become_follower) (simp add: s)
  note follower = micros_step [OF down]
  have "post (append_to_log prev_log_index prev_log_term leader_commit entries) (?f, fx)
      (chain ?tail (\<lambda>_ u. micros ev s u))" if t: "?cur \<le> t"
  proof (rule post_append_to_log, goal_cases)
    case (1 r)
    then show ?case using down by (cases r) (auto simp: post_simps)
  next
    case (2 hint)
    then show ?case using t fields follower [OF micro.reaffirm [OF f assms _ _ frame_refl]]
      by (auto simp: post_simps intro!: post_conclude_append)
  next
    case (3 l appended l' last_t)
    then show ?case using t fields follower [OF micro.follow [OF f assms _ _ _ _ _ frame_refl]]
      by (auto simp: post_simps intro!: post_conclude_append)
  next
    case (4 l appended l' r)
    then show ?case using fields follower [OF micro.follow_stuck [OF f assms _ _ _ _ frame_refl]]
      by (cases r) (auto simp: post_simps)
  qed
  then show "post (on_append_entries peer t prev_log_index prev_log_term leader_commit ctx entries) s
      (\<lambda>_ u. micros ev s u)"
    by (auto simp: on_append_entries_def Let_def post_simps s not_less intro!: post_spec keeps_responses [THEN keeps_steady])
qed

text \<open>Completions.\<close>

lemma keeps_halt: "completes ev i Failed \<Longrightarrow> keeps (micros ev) (assign (\<lambda>c. c\<lparr>stopped := True\<rparr>))"
  by (auto simp: keeps_post post_simps intro!: micro_micros micro.halt [OF _ frame_refl])

lemmas issue_then = keeps_issue_then [THEN keeps_steady]

lemma keeps_on_snapshot_completion:
  assumes "completes ev i outcome"
  shows "keeps (micros ev) (on_snapshot_completion i outcome)"
proof -
  have "keeps (micros ev) (on_build_completion i through outcome)" for through
    using assms by (auto simp: on_build_completion_def frame_iff intro!: spec_intros issue_then keeps_halt
        split: effect_outcome.splits result.splits)
  moreover have "keeps (micros ev) (on_record_completion i snap outcome)" for snap
    using assms by (auto simp: on_record_completion_def frame_iff intro!: spec_intros issue_then keeps_halt
        split: effect_outcome.splits)
  moreover have "keeps (micros ev) (self (\<lambda>c. bnd (attempt Log (compact (rlog c) snap))
      (\<lambda>l. bnd (assign (\<lambda>c. c\<lparr>rlog := l, snapshot_index := record_index snap\<rparr>)) (\<lambda>_. ret True))))"
    if "completes ev i (CompactedThrough (record_index snap))" for snap
    by (auto simp: keeps_post post_simps chain_iff frame_iff intro!: micro_micros [OF micro.compaction [OF that]])
  then have "keeps (micros ev) (on_compact_completion i snap outcome)" for snap
    using assms by (auto simp: on_compact_completion_def Let_def frame_iff intro!: spec.keeps_pure spec.keeps_bnd
        keeps_assign [THEN keeps_steady] keeps_halt split: effect_outcome.splits)
  ultimately show ?thesis
    by (auto simp: on_snapshot_completion_def Let_def frame_iff intro!: spec_intros
        split: local_snapshot_state.splits)
qed

lemma keeps_on_outgoing_snapshot_completion:
  assumes "completes ev i outcome"
  shows "keeps (micros ev) (on_outgoing_snapshot_completion i outcome)"
  using assms by (auto simp: on_outgoing_snapshot_completion_def Let_def frame_iff intro!: spec_intros keeps_halt
      keeps_read_snapshot_chunk [THEN keeps_steady] split: option.splits effect_outcome.splits result.splits)

lemma micros_tell:
  "micros ev s (c, fx) \<Longrightarrow> effect_key e = None \<Longrightarrow> (\<And>rid i. e \<noteq> ReadReady rid i) \<Longrightarrow> micros ev s (c, fx @ [e])"
  by (rule micros_step [OF _ micro.tell])

lemma keeps_install_now:
  "completes ev i (SnapshotInstalled (snap_id (metadata snap))) \<Longrightarrow> keeps (micros ev) (install_now snap peer t)"
  by (auto simp: keeps_post install_now_def post_simps chain_iff frame_iff map_err_Err_iff
      intro!: micro_micros [OF micro.install] micros_tell)

lemma keeps_on_incoming_state:
  assumes "completes ev i outcome"
  shows "keeps (micros ev) (on_incoming_state i outcome)"
proof -
  have "keeps (micros ev) (on_incoming_persisted i snap peer t outcome)" for snap peer t
    using assms by (auto simp: on_incoming_persisted_def frame_iff intro!: spec_intros issue_then keeps_halt
        split: effect_outcome.splits)
  moreover have "keeps (micros ev) (on_incoming_installed i snap peer t outcome)" for snap peer t
    using assms by (auto simp: on_incoming_installed_def Let_def frame_iff
        intro!: spec_intros keeps_install_now keeps_halt split: effect_outcome.splits)
  ultimately show ?thesis
    by (auto simp: on_incoming_state_def Let_def frame_iff intro!: spec_intros
        split: option.splits incoming_snapshot_state.splits)
qed

lemma keeps_on_incoming_snapshot_completion:
  assumes "completes ev i outcome"
  shows "keeps (micros ev) (on_incoming_snapshot_completion sha i outcome)"
proof -
  have "keeps (micros ev) (on_chunk_stored sha p outcome)" for p
    using assms by (auto simp: on_chunk_stored_def Let_def frame_iff intro!: spec_intros issue_then keeps_halt
        split: effect_outcome.splits option.splits)
  then show ?thesis
    using keeps_on_incoming_state [OF assms]
    by (auto simp: on_incoming_snapshot_completion_def frame_iff intro!: spec_intros split: option.splits)
qed

lemma unmatched_new: "unmatched []" "unmatched prog \<Longrightarrow> unmatched (bt_insert n (progress_new i w) prog)"
  by (auto simp: unmatched_def bt_get_def bt_insert_ordered progress_new_def split: if_splits)

lemma post_initialize_progress:
  assumes "micros ev s t" "role (fst t) = Leader" "completes ev i Persisted"
  shows "post initialize_progress t (\<lambda>_ u. micros ev s u)"
proof -
  have restart: "micros ev s ((fst t)\<lparr>progress := prog\<rparr>, snd t)"
    if "micros ev s t" "role (fst t) = Leader" "unmatched prog" for t prog
    using micros_step [OF _ micro.restart [OF that(2) assms(3) that(3) frame_refl], of s "snd t"] that(1) by simp
  have "post (for_each ms (\<lambda>node. if node \<noteq> n then assign (\<lambda>c. c\<lparr>progress := bt_insert node
      (progress_new j (cfg_max_inflight_appends (config c))) (progress c)\<rparr>) else ret ())) t (\<lambda>_ u. micros ev s u)"
    if "micros ev s t" "role (fst t) = Leader" "unmatched (progress (fst t))" for ms n j t
    using that
  proof (induction ms arbitrary: t)
    case (Cons m ms)
    note next_state = restart [OF Cons.prems(1,2) unmatched_new(2) [OF Cons.prems(3)]]
    then show ?case using Cons.IH [OF Cons.prems] Cons.IH [OF next_state] Cons.prems(2,3) by (auto simp: post_simps unmatched_new)
  qed (simp add: post_simps)
  then show ?thesis
    using restart [OF assms(1,2) unmatched_new(1)] assms(1,2)
    by (auto simp: initialize_progress_def post_simps chain_iff unmatched_new(1))
qed

lemma keeps_run_continuation:
  assumes "completes ev i Persisted" "k \<noteq> ActivateLeader"
  shows "keeps (micros ev) (run_continuation k)"
proof -
  have commit: "keeps (micros ev) advance_commit"
    using post_advance_commit assms(1) unfolding keeps_post by blast
  have "keeps (micros ev) (self (\<lambda>c. if (case votes c of None \<Rightarrow> False | Some q \<Rightarrow> has_quorum q) then persist_leader_noop
      else broadcast_vote_request (current_term (hard_state c))) :: ('a, 'b, unit) action)"
    unfolding keeps_post
  proof
    fix s :: "('a, 'b) run"
    have "post (broadcast_vote_request t) s (\<lambda>_ u. micros ev s u)" for t
      by (rule post_spec [OF keeps_broadcasts(2) [THEN keeps_steady]]) simp
    then show "post (self (\<lambda>c. if (case votes c of None \<Rightarrow> False | Some q \<Rightarrow> has_quorum q) then persist_leader_noop
        else broadcast_vote_request (current_term (hard_state c)))) s (\<lambda>_ u. micros ev s u)"
      using micros_persist_leader_noop [of s _ ev] by (simp add: post_simps split: option.splits)
  qed
  moreover have "keeps (micros ev) (block [replicate_all, advance_commit, start_pending_reads])"
    "keeps (micros ev) (block [emit_apply_if_needed, start_pending_reads])"
    "keeps (micros ev) (block [send_append_entries_response to response, emit_apply_if_needed])" for to response
    using commit keeps_responses(2) [THEN keeps_steady, of ev to response] keeps_emit_apply [THEN keeps_steady, of ev]
      keeps_replicate_all [THEN keeps_steady, of ev] keeps_start_pending_reads [THEN keeps_steady, of ev]
    by (auto intro!: spec.keeps_block simp del: block.simps)
  ultimately show ?thesis
    using assms(2) keeps_responses(1) [THEN keeps_steady] spec.keeps_pure(1)
    unfolding run_continuation_def by (cases k) (simp_all del: block.simps)
qed

lemma post_run_continuation:
  assumes "micros ev s (c, fx)" "pending_persist c = Some p" "completes ev (persist_id p) Persisted"
  shows "post (run_continuation (continuation p)) (c\<lparr>pending_persist := None\<rparr>, fx) (\<lambda>_ u. micros ev s u)"
proof (cases "continuation p = ActivateLeader")
  case True
  let ?d = "c\<lparr>pending_persist := None, role := Leader, votes := None, active_members := {cfg_local_id (config c)}\<rparr>"
  have "claim c = Some (persist_id p)" by (simp add: claim_def assms(2) True)
  from micro.lead [OF this assms(3)] have "micros ev s (?d, fx)"
    by (intro micros_step [OF assms(1)]) (simp add: frame_iff)
  from post_initialize_progress [OF this _ assms(3)]
  have "post initialize_progress (?d, fx) (\<lambda>_ u. micros ev s u)" by simp
  moreover have "keeps (micros ev) advance_commit"
    using post_advance_commit assms(3) unfolding keeps_post by blast
  then have "keeps (micros ev) (block [replicate_all, advance_commit])"
    by (auto intro!: spec.keeps_block keeps_replicate_all [THEN keeps_steady] simp del: block.simps)
  ultimately have "post (block [initialize_progress, replicate_all, advance_commit]) (?d, fx) (\<lambda>_ u. micros ev s u)"
    unfolding post_block(2) [of initialize_progress] by (auto elim!: post_weaken simp: chain_iff intro!: post_spec simp del: block.simps)
  then show ?thesis by (simp add: run_continuation_def True post_simps del: block.simps)
next
  case False
  have "micros ev s (c\<lparr>pending_persist := None\<rparr>, fx)"
    by (rule micros_step [OF assms(1) micro.soft]) (simp add: frame_iff)
  then show ?thesis by (rule post_spec [OF keeps_run_continuation [OF assms(3) False]])
qed

text \<open>The outstanding persist is taken out, and put back when the completion does not fit.\<close>

lemma post_on_persist_completion:
  assumes "pending_persist c = Some p" "completes ev i outcome"
  shows "post (on_persist_completion p i outcome) (c\<lparr>pending_persist := None\<rparr>, fx) (\<lambda>_ u. micros ev (c, fx) u)"
proof -
  have restore: "c\<lparr>pending_persist := Some p\<rparr> = c" using assms(1) by (cases c) simp
  have "micros ev (c, fx) (c\<lparr>pending_persist := None, stopped := True\<rparr>, fx)" if "outcome = Failed"
    using assms(2) that by (intro micro_micros micro.halt [of ev i]) (auto simp: frame_iff)
  moreover have gone: "micros ev (c, fx) (c\<lparr>pending_persist := None\<rparr>, fx)"
    by (intro micro_micros micro.soft) (simp add: frame_iff)
  moreover have "post (run_continuation (continuation p)) (c\<lparr>pending_persist := None\<rparr>, fx) (\<lambda>_ u. micros ev (c, fx) u)"
    if "persist_id p = i" "outcome = Persisted"
    by (rule post_run_continuation [OF _ assms(1)]) (use that assms(2) in auto)
  moreover have "post (run_continuation (continuation p)) (c\<lparr>pending_persist := None, rlog := l\<rparr>, fx) (\<lambda>_ u. micros ev (c, fx) u)"
    if "persist_id p = i" "outcome = Persisted" "mark_stable (rlog c) index = Ok l" for index l
  proof -
    have "completes ev (persist_id p) Persisted" using that assms(2) by simp
    from micro_micros [OF micro.stabilize [OF this that(3) frame_refl]]
    have "post (run_continuation (continuation p)) (c\<lparr>rlog := l, pending_persist := None\<rparr>, fx) (\<lambda>_ u. micros ev (c, fx) u)"
      by (rule post_run_continuation) (use assms that in auto)
    moreover have "c\<lparr>rlog := l, pending_persist := None\<rparr> = c\<lparr>pending_persist := None, rlog := l\<rparr>" by (cases c) simp
    ultimately show ?thesis by (simp only:)
  qed
  ultimately show ?thesis
    by (auto simp: on_persist_completion_def post_simps Let_def restore chain_iff chain_nothing split: option.splits)
qed

text \<open>An outstanding apply is taken out, and put back unless it completes or fails.\<close>

lemma post_on_apply_completion:
  assumes "pending_apply c = Some p" "completes ev i outcome"
  shows "post (on_apply_completion p i outcome) (c\<lparr>pending_apply := None\<rparr>, fx) (\<lambda>_ u. micros ev (c, fx) u)"
proof -
  have restore: "c\<lparr>pending_apply := Some p\<rparr> = c" using assms by (cases c) simp
  have "micros ev (c, fx) (c\<lparr>pending_apply := None, applied_index := apply_through p\<rparr>, fx)"
    if "apply_id p = i" "outcome = AppliedThrough (apply_through p)"
    using assms that by (intro micro_micros micro.end_apply [OF assms(1)]) (auto simp: frame_iff)
  moreover have "micros ev (c, fx) (c\<lparr>pending_apply := None, stopped := True\<rparr>, fx)" if "outcome = Failed"
    using assms that by (intro micro_micros micro.fail_apply [of ev i]) (auto simp: frame_iff)
  ultimately show ?thesis
    by (auto simp: on_apply_completion_def post_simps Let_def restore
        intro!: spec.post_then spec_intros keeps_reports [THEN keeps_steady] keeps_release [THEN keeps_steady]
          keeps_start_pending_reads [THEN keeps_steady] keeps_emit_apply [THEN keeps_steady]
          keeps_maybe_request_local_snapshot [THEN keeps_steady] simp del: block.simps split: effect_outcome.splits)
qed

lemma keeps_on_effect_completed:
  assumes "completes ev i outcome"
  shows "keeps (micros ev) (on_effect_completed sha i outcome)"
proof -
  have "keeps (micros ev) (on_barrier_completion i outcome)"
    using assms by (auto simp: on_barrier_completion_def keeps_post post_simps intro!: post_on_apply_completion
        post_on_persist_completion split: option.splits)
  then show ?thesis
    using keeps_on_incoming_snapshot_completion [OF assms] keeps_on_outgoing_snapshot_completion [OF assms]
      keeps_on_snapshot_completion [OF assms]
    by (auto simp: on_effect_completed_def intro!: spec.keeps_pure spec.keeps_bnd keeps_self)
qed

lemma keeps_on_message:
  assumes "heard ev peer m"
  shows "keeps (micros ev) (on_message sha peer m)"
  using assms by (auto simp: on_message_def intro!: keeps_self spec.keeps_pure keeps_responses [THEN keeps_steady] keeps_on_vote_request
      keeps_on_pre_vote_response keeps_on_vote_response keeps_on_append_entries
      keeps_on_append_entries_response keeps_on_install_snapshot_chunk [THEN keeps_steady]
      keeps_on_install_snapshot_response split: message.splits)

section \<open>Steps\<close>

text \<open>A whole step may also record the completion it is about, after validating it, and stop
  the core.\<close>

inductive macro :: "'c event option \<Rightarrow> ('c, 'h) run \<Rightarrow> ('c, 'h) run \<Rightarrow> bool" for ev where
  work: "micro ev s t \<Longrightarrow> macro ev s t"
| complete: "completes ev i outcome \<Longrightarrow> validate_completion c i outcome = Ok () \<Longrightarrow>
    macro ev (c, fx) (record_completion i outcome c, fx)"
| halted: "macro ev (c, fx) (stop reason c, fx)"

abbreviation macros :: "'c event option \<Rightarrow> ('c, 'h) run \<Rightarrow> ('c, 'h) run \<Rightarrow> bool" where
  "macros ev \<equiv> (macro ev)\<^sup>*\<^sup>*"

interpretation steps: state_relation "macros ev"
  by unfold_locales (auto intro: rtranclp_trans)

lemma micros_macros: "micros ev s t \<Longrightarrow> macros ev s t"
  by (induction rule: rtranclp_induct) (auto intro: macro.work rtranclp.rtrancl_into_rtrancl)

lemma keeps_micros_macros: "keeps (micros ev) m \<Longrightarrow> keeps (macros ev) m"
  by (auto simp: keeps_def intro: micros_macros)

lemma post_macros: "keeps (micros ev) m \<Longrightarrow> post m s (\<lambda>_ u. macros ev s u)"
  using keeps_micros_macros unfolding keeps_post by blast

definition completion_part where
  "completion_part c = (config c, completed_frontier c, completed_sparse c, completed_outcomes c, completion_order c)"

lemma frame_completion: "frame c c' \<Longrightarrow> completion_part c' = completion_part c"
  by (simp add: frame_iff completion_part_def)

lemma micro_completion_part: "micro ev s t \<Longrightarrow> completion_part (fst t) = completion_part (fst s)"
proof (induction rule: micro.induct)
qed (drule frame_completion, simp add: completion_part_def | simp)+

lemma micros_completion_part: "micros ev s t \<Longrightarrow> completion_part (fst t) = completion_part (fst s)"
  by (induction rule: rtranclp_induct) (auto dest: micro_completion_part)

lemma validate_completion_part:
  "completion_part c' = completion_part c \<Longrightarrow> validate_completion c' i outcome = validate_completion c i outcome"
  by (simp add: completion_part_def validate_completion_def)

lemma macros_effect_completed:
  "post (on_event sha (EffectCompleted i outcome)) s (\<lambda>_ u. macros (cause (fst s) (EffectCompleted i outcome)) s u)"
proof (cases "validate_completion (fst s) i outcome = Ok ()")
  case True
  let ?ev = "cause (fst s) (EffectCompleted i outcome)"
  have ev: "completes ?ev i outcome" using True by (simp add: completes_def cause_def)
  have run: "post (on_effect_completed sha i outcome) s (\<lambda>_ t. micros ?ev s t)"
    using keeps_on_effect_completed [OF ev] unfolding keeps_post by blast
  have "macros ?ev s (record_completion i outcome (fst t), snd t)" if "micros ?ev s t" for t
  proof -
    have "validate_completion (fst t) i outcome = Ok ()"
      using that True validate_completion_part [OF micros_completion_part] by metis
    then have "macro ?ev t (record_completion i outcome (fst t), snd t)"
      by (cases t) (auto intro: macro.complete [OF ev])
    then show ?thesis using that micros_macros by (metis rtranclp.rtrancl_into_rtrancl)
  qed
  then show ?thesis
    by (auto simp: on_event_def post_simps chain_iff intro: micros_macros intro!: post_weaken [OF run]
        simp del: block.simps)
qed (auto simp: on_event_def post_simps chain_iff)

lemma macros_message:
  "post (on_event sha (MessageReceived env)) s (\<lambda>_ u. macros (cause (fst s) (MessageReceived env)) s u)"
proof (cases "validate_envelope (fst s) env = Ok ()")
  case True
  let ?ev = "cause (fst s) (MessageReceived env)"
  have "heard ?ev (env_from env) (env_message env)" using True by (simp add: heard_def cause_def)
  then have "keeps (micros ?ev) (block [if b then assign (\<lambda>c. c\<lparr>active_members := insert (env_from env) (active_members c)\<rparr>) else ret (),
      on_message sha (env_from env) (env_message env)])" for b
    by (auto simp: frame_iff intro!: spec_intros keeps_on_message simp del: block.simps)
  then have "post (block [if b then assign (\<lambda>c. c\<lparr>active_members := insert (env_from env) (active_members c)\<rparr>) else ret (),
      on_message sha (env_from env) (env_message env)]) s (\<lambda>_ u. macros ?ev s u)" for b
    by (rule post_macros)
  then show ?thesis
    using True by (auto simp: on_event_def post_action post_block(2) [of "lift_res _"] post_pure chain_iff simp del: block.simps)
qed (auto simp: on_event_def post_simps chain_iff)

lemma macros_event: "post (on_event sha event) s (\<lambda>_ u. macros (cause (fst s) event) s u)"
proof (cases event)
  case (Tick k)
  then show ?thesis
    by (cases k) (auto simp: on_event_def cause_def intro!: post_macros keeps_start_pre_vote keeps_on_heartbeat_tick)
next
  case (Propose pid cmd len)
  then show ?thesis by (auto simp: on_event_def cause_def intro!: post_macros keeps_on_propose)
next
  case (Read rid x)
  then show ?thesis by (auto simp: on_event_def cause_def intro!: post_macros keeps_on_read [THEN keeps_steady])
next
  case SnapshotRequested
  then show ?thesis by (auto simp: on_event_def intro!: post_macros keeps_request_local_snapshot [THEN keeps_steady])
next
  case Shutdown
  then show ?thesis by (cases s) (auto simp: on_event_def post_simps intro!: r_into_rtranclp macro.halted)
qed (auto intro: macros_effect_completed macros_message)

lemma macros_handle: "post (handle sha event) s (\<lambda>_ u. macros (cause (fst s) event) s u)"
  unfolding handle_def post_block(2) [of "on_event _ _"]
proof (rule post_weaken [OF macros_event])
  fix r :: "(unit, step_error) result" and t :: "('a, 'b) run"
  assume "macros (cause (fst s) event) s t"
  then show "chain (\<lambda>_. block [emit_apply_if_needed]) (\<lambda>_ u. macros (cause (fst s) event) s u) r t"
    using keeps_micros_macros [OF keeps_emit_apply [THEN keeps_steady]]
    by (intro steps.chain_keeps) (auto intro!: steps.keeps_block simp del: block.simps)
qed

lemma macros_stop: "macros ev s (c, fx) \<Longrightarrow> macros ev s (stop reason c, fx)"
  by (meson macro.halted rtranclp.rtrancl_into_rtrancl)

lemma macros_fatalize: "macros ev s (c, fx) \<Longrightarrow> macros ev s (snd (fatalize e c), fx)"
  by (auto simp: fatalize_def fatal_def intro: macros_stop split: step_error.splits)

lemma macros_finish_step:
  assumes "macros ev s t"
  shows "\<exists>fx. macros ev s (snd (finish_step previous t), fx) \<and>
    (\<forall>out. fst (finish_step previous t) = Ok out \<longrightarrow> out_effects out = fx)"
proof -
  let ?u = "if previous = Leader \<and> role (fst t) \<noteq> Leader then snd (fail_uncommitted_proposals t) else t"
  have "keeps (macros ev) fail_uncommitted_proposals"
    by (rule keeps_micros_macros [OF keeps_reports(2) [THEN keeps_steady]])
  then have "macros ev t (snd (fail_uncommitted_proposals t))" unfolding keeps_def by blast
  then have "macros ev s ?u" using assms by (auto intro: rtranclp_trans)
  then show ?thesis
    by (cases ?u) (auto simp: finish_step_def fatal_def Let_def intro: macros_stop split: result.splits)
qed

lemma step_macros:
  "\<exists>fx. macros (cause c event) (c, []) (snd (step sha c event), fx) \<and>
    (\<forall>out. fst (step sha c event) = Ok out \<longrightarrow> out_effects out = fx)"
proof (cases "stopped c")
  case True
  then show ?thesis
    by (intro exI [of _ "[]"])
       (auto simp: step_def step_stopped_def no_output_def rbind_Ok_iff split: event.splits)
next
  case False
  obtain r c' fx where h: "handle sha event (c, []) = (r, (c', fx))" by (metis prod.exhaust)
  then have run: "macros (cause c event) (c, []) (c', fx)"
    using macros_handle [of sha event "(c, [])"] by (auto dest: postD)
  show ?thesis
  proof (cases r)
    case (Ok u)
    then show ?thesis using False h macros_finish_step [OF run] by (simp add: step_def)
  next
    case (Err e)
    then show ?thesis
      using False h macros_fatalize [OF run, of e]
      by (intro exI [of _ fx]) (auto simp: step_def split_beta)
  next
    case Panic
    then show ?thesis using False h run by (intro exI [of _ fx]) (auto simp: step_def)
  qed
qed

section \<open>The refinement\<close>

text \<open>
  C1: every step of the core, whatever its outcome, is a sequence of moves of the abstract machine
  from the state before the step to the state after it, with the emitted effects as the moves'
  output. The moves are those the rules of Raft allow for the event of the step (none of the guarded
  ones when the message or the completion is refused). The installation of a snapshot, which drops
  the vote, is allowed by the completion of that installation only; the quorum rule
  for commits is open to a leader and to the completion of a persist.
\<close>

theorem step_refines_machine:
  "\<exists>fx. macros (cause c event) (c, []) (snd (step sha c event), fx) \<and>
     (case fst (step sha c event) of Ok out \<Rightarrow> out_effects out = fx | Err _ \<Rightarrow> True | Panic \<Rightarrow> True)"
  using step_macros [of c event sha] by (auto split: result.splits)

end
