(* ===== verification/Core_Errors.thy ===== *)
theory Core_Errors
  imports Core_Step
begin

text \<open>
  Which errors the core's methods return, and what they leave behind: no handler
  returns a fatal or stopped error by itself, only completions and envelopes are
  rejected as bad input, and a rejected completion leaves the core as it was.
\<close>

section \<open>Which errors a method returns\<close>

definition plain_error :: "step_error \<Rightarrow> bool" where
  "plain_error e = (case e of Input _ \<Rightarrow> False | Fatal _ \<Rightarrow> False | Stopped _ \<Rightarrow> False | _ \<Rightarrow> True)"

definition host_error :: "step_error \<Rightarrow> bool" where
  "host_error e = (case e of Fatal _ \<Rightarrow> False | Stopped _ \<Rightarrow> False | _ \<Rightarrow> True)"

lemma error_simps [simp]:
  "\<not> plain_error (Input e)" "\<not> plain_error (Fatal f)" "\<not> plain_error (Stopped r)"
  "plain_error (Arithmetic a)" "plain_error (Log l)" "plain_error (Entry n)" "plain_error ApplyFailed"
  "plain_error InvalidSnapshot" "plain_error SnapshotFailed" "plain_error CompactionFailed"
  "plain_error PersistenceFailed"
  "host_error (Input e)" "\<not> host_error (Fatal f)" "\<not> host_error (Stopped r)"
  by (simp_all add: plain_error_def host_error_def)

lemma plain_host: "plain_error e \<Longrightarrow> host_error e"
  by (cases e) (simp_all add: plain_error_def host_error_def)

lemma throws_action:
  "(\<And>c. throws E (f c)) \<Longrightarrow> throws E (self f)" "throws E (assign g)" "throws E (emit e)"
  "(\<And>e. E (h e)) \<Longrightarrow> throws E (attempt h r)"
  by (auto simp: throws_def exec_simps map_err_Err_iff)

lemmas throws_intros = throws_pure throws_lift throws_bnd throws_andThen throws_block throws_for_each throws_action

lemma throws_next_effect_id: "throws plain_error next_effect_id"
  by (auto simp: next_effect_id_def intro!: throws_intros)

lemma throws_queue_persist: "throws plain_error (queue_persist b k)"
  by (auto simp: queue_persist_def intro!: throws_intros throws_next_effect_id)

lemma throws_responses:
  "throws plain_error (send_vote_response to t grant)"
  "throws plain_error (send_append_entries_response to response)"
  "throws plain_error (send_pre_vote_response to grant)"
  by (auto simp: send_vote_response_def send_append_entries_response_def send_pre_vote_response_def
      intro!: throws_intros)

lemma throws_begin_term_transition: "throws plain_error (begin_term_transition t k)"
  by (auto simp: begin_term_transition_def intro!: throws_intros throws_queue_persist)

lemma throws_read_snapshot_chunk: "throws plain_error (read_snapshot_chunk to)"
  by (auto simp: read_snapshot_chunk_def ok_or_def intro!: throws_intros throws_next_effect_id split: option.splits)

lemma throws_replication_batch: "throws plain_error (lift_res (replication_batch c n))"
  by (rule throws_lift) (auto simp: replication_batch_def rbind_Err_iff map_err_Err_iff split: if_splits)

lemma sent_no_error [simp]: "sent p i \<noteq> Err e"
  by (auto simp: sent_def Let_def rbind_Err_iff)

lemma acknowledged_no_error [simp]: "acknowledged p i \<noteq> Err e"
  by (auto simp: acknowledged_def Let_def rbind_Err_iff)

lemma reject_no_error [simp]: "reject p i n \<noteq> Err e"
  by (auto simp: reject_def Let_def rbind_Err_iff)

lemma throws_replicate_to: "throws plain_error (replicate_to to)"
  by (auto simp: replicate_to_def sub_u64_def intro!: throws_intros throws_read_snapshot_chunk
      throws_replication_batch split: option.splits if_splits)

lemma throws_replicate_all: "throws plain_error replicate_all"
  by (auto simp: replicate_all_def intro!: throws_intros throws_replicate_to)

lemma throws_advance_commit: "throws plain_error advance_commit"
  by (auto simp: advance_commit_def intro!: throws_intros throws_queue_persist split: option.splits)

lemma throws_emit_apply: "throws plain_error emit_apply_if_needed"
  by (auto simp: emit_apply_if_needed_def intro!: throws_intros throws_next_effect_id)

lemma throws_reports: "throws plain_error (finish_apply through)"
  by (auto simp: finish_apply_def report_at_def intro!: throws_intros split: option.splits)

lemma throws_on_propose: "throws plain_error (on_propose pid cmd len)"
  by (auto simp: on_propose_def intro!: throws_intros throws_queue_persist)

lemma throws_start_reads:
  fixes s s' :: "('c, 'h) run"
  shows "fst (start_read_round rid s) = Err e \<Longrightarrow> plain_error e"
    "fst (start_pending_reads s') = Err e \<Longrightarrow> plain_error e"
proof (induction rid s and s' rule: start_read_round_start_pending_reads.induct)
  case (1 rid s)
  have "throws plain_error (send_read_heartbeats :: ('c, 'h, unit) action)"
    by (auto simp: send_read_heartbeats_def intro!: throws_intros)
  then show ?case
    using 1 by (auto simp: start_read_round.simps [of rid s] Let_def throws_def split: option.splits if_splits)
next
  case (2 s)
  then show ?case
    by (auto simp: start_pending_reads.simps [of s] split: list.splits if_splits)
qed

lemma throws_reads:
  "throws plain_error (start_read_round rid)" "throws plain_error start_pending_reads"
  by (auto simp: throws_def intro: throws_start_reads)

lemma throws_on_read: "throws plain_error (on_read rid)"
  by (auto simp: on_read_def intro!: throws_intros throws_reads split: option.splits)

lemma throws_acknowledge: "throws plain_error (acknowledge_read_context peer ctx)"
  by (auto simp: acknowledge_read_context_def release_read_round_def Let_def
      intro!: throws_intros throws_reads split: option.splits)

lemma throws_election:
  "throws plain_error become_candidate" "throws plain_error persist_leader_noop"
  by (auto simp: become_candidate_def persist_leader_noop_def intro!: throws_intros throws_queue_persist)

lemma throws_broadcast: "throws plain_error (broadcast_pre_vote t)" "throws plain_error (broadcast_vote_request t)"
  by (auto simp: broadcast_pre_vote_def broadcast_vote_request_def intro!: throws_intros)

lemma throws_ticks: "throws plain_error start_pre_vote" "throws plain_error on_heartbeat_tick"
  by (auto simp: start_pre_vote_def on_heartbeat_tick_def
      intro!: throws_intros throws_election throws_broadcast throws_replicate_all)

lemma throws_on_vote_request: "throws plain_error (on_vote_request peer t i lt)"
  by (auto simp: on_vote_request_def Let_def intro!: throws_intros throws_queue_persist throws_responses)

lemma throws_vote_responses:
  "throws plain_error (on_pre_vote_response peer t g)" "throws plain_error (on_vote_response peer t g)"
  by (auto simp: on_pre_vote_response_def on_vote_response_def Let_def
      intro!: throws_intros throws_begin_term_transition throws_election split: option.splits)

lemma throws_append:
  "throws plain_error (append_to_log p pt lc es)"
  "throws plain_error (conclude_append peer t tc p ctx ok h app)"
  by (auto simp: append_to_log_def conclude_append_def Let_def
      intro!: throws_intros throws_queue_persist throws_responses split: prefix_decision.splits)

lemma throws_on_append_entries: "throws plain_error (on_append_entries peer t p pt lc ctx es)"
  by (auto simp: on_append_entries_def Let_def intro!: throws_intros throws_append throws_responses)

lemma throws_on_append_entries_response:
  "throws plain_error (on_append_entries_response peer t ok m h ctx)"
  by (auto simp: on_append_entries_response_def intro!: throws_intros throws_begin_term_transition
      throws_acknowledge throws_replicate_to throws_advance_commit split: option.splits)

lemma throws_on_install_snapshot_chunk:
  "throws plain_error (on_install_snapshot_chunk sha peer t m off bs fin)"
  by (auto simp: on_install_snapshot_chunk_def intro!: throws_intros throws_next_effect_id)

lemma throws_on_install_snapshot_response: "throws plain_error (on_install_snapshot_response peer t ok)"
  by (auto simp: on_install_snapshot_response_def intro!: throws_intros throws_begin_term_transition
      throws_replicate_to split: option.splits)

lemma throws_on_message: "throws plain_error (on_message sha peer m)"
  by (auto simp: on_message_def intro!: throws_action throws_pure throws_responses throws_on_vote_request
      throws_vote_responses throws_on_append_entries throws_on_append_entries_response
      throws_on_install_snapshot_chunk throws_on_install_snapshot_response split: message.splits)

lemma throws_request_local_snapshot: "throws plain_error request_local_snapshot"
  by (auto simp: request_local_snapshot_def intro!: throws_intros throws_next_effect_id)

lemma throws_run_continuation: "throws plain_error (run_continuation k)"
  by (auto simp: run_continuation_def initialize_progress_def intro!: throws_intros throws_election throws_broadcast throws_responses
      throws_emit_apply throws_replicate_all throws_advance_commit throws_reads
      split: persist_continuation.splits)

section \<open>Rejected completions\<close>

lemma put_back [simp]:
  "pending_chunk_store c = Some p \<Longrightarrow> c\<lparr>pending_chunk_store := Some p\<rparr> = c"
  "incoming_snapshot_state c = Some st \<Longrightarrow> c\<lparr>incoming_snapshot_state := Some st\<rparr> = c"
  "pending_apply c = Some a \<Longrightarrow> c\<lparr>pending_apply := Some a\<rparr> = c"
  "pending_persist c = Some q \<Longrightarrow> c\<lparr>pending_persist := Some q\<rparr> = c"
  "pending_snapshot_reads c = rs \<Longrightarrow> c\<lparr>pending_snapshot_reads := rs\<rparr> = c"
  "local_snapshot c = ls \<Longrightarrow> c\<lparr>local_snapshot := ls\<rparr> = c"
  by (cases c; auto)+

text \<open>A completion handler either leaves the core as it was, when it rejects the
  outcome or passes it on, or it has accepted it.\<close>

definition untouched :: "'s \<Rightarrow> (bool, step_error) result \<Rightarrow> 's \<Rightarrow> bool" where
  "untouched s r t \<longleftrightarrow> (\<forall>e. r = Err e \<longrightarrow> host_error e) \<and>
     ((\<exists>e. r = Err (Input e)) \<or> r = Ok False \<longrightarrow> t = s)"

lemma untouched_simps [simp]:
  "untouched s (Ok True) t" "untouched s (Ok False) t \<longleftrightarrow> t = s" "untouched s Panic t"
  "untouched s (Err (Input e)) t \<longleftrightarrow> t = s"
  by (auto simp: untouched_def)

lemma untouched_plain: "plain_error e \<Longrightarrow> untouched s (Err e) t"
  by (auto simp: untouched_def plain_host)

lemma untouched_outgoing:
  assumes "bt_ordered (pending_snapshot_reads (fst s))"
  shows "post (on_outgoing_snapshot_completion i outcome) s (untouched s)"
proof -
  obtain c fx where s: "s = (c, fx)" by (cases s)
  have again: "bt_get (pending_snapshot_reads c) i = Some to \<Longrightarrow>
      bt_insert i to (bt_remove i (pending_snapshot_reads c)) = pending_snapshot_reads c" for to
    using assms by (auto simp: s intro: bt_reinsert)
  have more: "post (read_snapshot_chunk to) t (chain (\<lambda>_. ret True) (untouched s))" for to t
    by (rule post_weaken [OF throws_post [OF throws_read_snapshot_chunk]])
       (auto simp: chain_iff post_simps intro: untouched_plain)
  show ?thesis
    unfolding on_outgoing_snapshot_completion_def
    by (auto simp: s post_simps chain_iff Let_def again expect_some_def intro!: more [unfolded s] untouched_plain
        split: option.splits effect_outcome.splits result.splits)
qed

lemma post_issue_then:
  "post next_effect_id s
     (chain (\<lambda>i. bnd (assign (f i)) (\<lambda>_. bnd (emit (e i)) (\<lambda>_. ret True))) (untouched t))"
  by (auto simp: next_effect_id_def post_simps chain_iff map_err_Err_iff intro: untouched_plain)

lemma untouched_incoming_state: "post (on_incoming_state i outcome) s (untouched s)"
proof -
  obtain c fx where s: "s = (c, fx)" by (cases s)
  have "post (install_now snap peer t) u (untouched s)" for snap peer t u
    by (auto simp: install_now_def post_simps chain_iff map_err_Err_iff intro: untouched_plain)
  then show ?thesis
    by (auto simp: s on_incoming_state_def on_incoming_persisted_def on_incoming_installed_def
        post_simps chain_iff Let_def intro!: untouched_plain post_issue_then
        split: option.splits incoming_snapshot_state.splits effect_outcome.splits)
qed

lemma untouched_incoming: "post (on_incoming_snapshot_completion sha i outcome) s (untouched s)"
proof -
  obtain c fx where s: "s = (c, fx)" by (cases s)
  show ?thesis
    using untouched_incoming_state [of i outcome s]
    by (auto simp: s on_incoming_snapshot_completion_def on_chunk_stored_def post_simps chain_iff Let_def
        expect_some_def intro!: untouched_plain post_issue_then split: option.splits effect_outcome.splits)
qed

lemma untouched_local: "post (on_snapshot_completion i outcome) s (untouched s)"
proof -
  obtain c fx where s: "s = (c, fx)" by (cases s)
  have v: "validate_local_snapshot d m body through = Err e \<Longrightarrow> plain_error e" for d :: "('a, 'b) raft_core" and m body through e
    by (auto simp: validate_local_snapshot_def rbind_Err_iff map_err_Err_iff split: if_splits)
  show ?thesis
    by (auto simp: s on_snapshot_completion_def on_build_completion_def on_record_completion_def
        on_compact_completion_def post_simps chain_iff Let_def map_err_Err_iff
        intro!: untouched_plain post_issue_then intro: v
        split: local_snapshot_state.splits effect_outcome.splits result.splits)
qed

lemma throws_on_apply_work:
  "throws plain_error (block [finish_apply through, release_read_round, start_pending_reads,
     emit_apply_if_needed, maybe_request_local_snapshot])"
  by (auto simp: release_read_round_def maybe_request_local_snapshot_def intro!: throws_intros throws_reports
      throws_reads throws_emit_apply throws_request_local_snapshot)

text \<open>Rejection of a completion, as the whole handler shows it.\<close>

definition rejected_clean :: "'s \<Rightarrow> (unit, step_error) result \<Rightarrow> 's \<Rightarrow> bool" where
  "rejected_clean s r t \<longleftrightarrow> (\<forall>e. r = Err e \<longrightarrow> host_error e) \<and> ((\<exists>e. r = Err (Input e)) \<longrightarrow> t = s)"

lemma rejected_clean_plain: "throws plain_error m \<Longrightarrow> post m t (rejected_clean s)"
  by (rule post_weaken [OF throws_post]) (auto simp: rejected_clean_def plain_host)

lemma rejected_clean_simps [simp]:
  "rejected_clean s (Ok u) t" "rejected_clean s Panic t" "rejected_clean s (Err (Input e)) t \<longleftrightarrow> t = s"
  "plain_error f \<Longrightarrow> rejected_clean s (Err f) t"
  by (auto simp: rejected_clean_def plain_host)

lemma rejected_clean_apply:
  "pending_apply c = Some p \<Longrightarrow>
   post (on_apply_completion p i outcome) (c\<lparr>pending_apply := None\<rparr>, fx) (rejected_clean (c, fx))"
  using rejected_clean_plain [OF throws_on_apply_work]
  by (auto simp: on_apply_completion_def post_simps Let_def simp del: block.simps split: effect_outcome.splits)

lemma throws_continue:
  "throws plain_error (block [case st of None \<Rightarrow> ret ()
      | Some index \<Rightarrow> self (\<lambda>c. bnd (attempt Log (mark_stable (rlog c) index)) (\<lambda>l. assign (\<lambda>c. c\<lparr>rlog := l\<rparr>))),
    run_continuation k])"
  by (auto intro!: throws_intros throws_run_continuation split: option.splits)

lemma rejected_clean_persist:
  "pending_persist c = Some p \<Longrightarrow>
   post (on_persist_completion p i outcome) (c\<lparr>pending_persist := None\<rparr>, fx) (rejected_clean (c, fx))"
  using rejected_clean_plain [OF throws_continue]
  by (auto simp: on_persist_completion_def Let_def post_if post_bnd post_action chain_simps post_pure
      simp del: block.simps)

lemma post_first_consumer:
  assumes "post m s (untouched s)" "post k s (rejected_clean s)"
  shows "post m s (chain (\<lambda>consumed. if consumed then ret () else k) (rejected_clean s))"
  using assms(1) by (rule post_weaken)
    (use assms(2) in \<open>auto simp: chain_iff post_simps untouched_def rejected_clean_def\<close>)

lemma rejected_clean_effect_completed:
  assumes "bt_ordered (pending_snapshot_reads (fst s))"
  shows "post (on_effect_completed sha i outcome) s (rejected_clean s)"
proof -
  obtain c fx where s: "s = (c, fx)" by (cases s)
  have "post (on_barrier_completion i outcome) s (rejected_clean s)"
    by (auto simp: s on_barrier_completion_def post_simps rejected_clean_apply rejected_clean_persist split: option.splits)
  then show ?thesis
    unfolding on_effect_completed_def
    by (simp add: post_action post_if post_bnd post_pure post_first_consumer untouched_outgoing [OF assms]
        untouched_incoming untouched_local)
qed

end
