(* ===== verification/Core_Samples.thy ===== *)
theory Core_Samples
  imports Core_Step
begin

text \<open>
  Concrete cores on which the properties of the core are exercised, and the bundle
  of definitions that evaluates a step on them.
\<close>

section \<open>Sample cores\<close>

text \<open>A group of three nodes, and a core of node 1 in term 2 that has the
  entries of \<open>sample_log\<close> and has voted for node 2.\<close>

definition sample_config :: raft_config where
  "sample_config = \<lparr>cfg_cluster_id = 0, cfg_local_id = 1, cfg_members = [1, 2, 3], cfg_quorum = 2,
     cfg_heartbeat_ticks = 1, cfg_election_ticks = (10, 20), cfg_check_quorum_ticks = 10,
     cfg_random_seed = 0, cfg_generation = 7, cfg_max_unstable_bytes = 4096, cfg_max_unapplied_entries = 64,
     cfg_snapshot_after_entries = 100, cfg_snapshot_after_bytes = 4096, cfg_max_uncompacted_bytes = 8192,
     cfg_max_entries_per_rpc = 2, cfg_max_bytes_per_rpc = 64, cfg_max_inflight_appends = 4,
     cfg_max_pending_reads = 8, cfg_snapshot_chunk_bytes = 16, cfg_max_snapshot_ref_bytes = 16,
     cfg_max_members = 8, cfg_completion_history = 4\<rparr>"

definition sample_core :: "(unit, u8 list) raft_core" where
  "sample_core = \<lparr>config = sample_config,
     hard_state = hard_state_new 2 (Some 2) 1, role = Follower, pre_votes = None, votes = None,
     rlog = sample_log, last_log_index = 3, last_log_term = 2, active_members = {}, progress = [],
     pending_persist = None, pending_apply = None, applied_index = 1, proposals = [],
     leader_noop_index = None, pending_reads = [], read_round = None, next_read_context = 0,
     local_snapshot = Idle, incoming_snapshot = None, pending_chunk_store = None,
     incoming_snapshot_state = None, snapshot_senders = [], pending_snapshot_reads = [],
     snapshot_index = 0, next_effect_sequence = 0, stopped = False, stopped_reason = None,
     completed_frontier = 0, completed_sparse = [], completed_outcomes = [], completion_order = []\<rparr>"

text \<open>Node 1 as the leader of term 2: node 2 holds the whole log, node 3 nothing.\<close>

definition sample_leader :: "(unit, u8 list) raft_core" where
  "sample_leader = sample_core\<lparr>role := Leader, hard_state := hard_state_new 2 (Some 1) 1,
     active_members := {1, 2},
     progress := [(2, (progress_new 4 4)\<lparr>match_index := 2, progress_state := Replicate\<rparr>),
                  (3, progress_new 4 4)],
     leader_noop_index := Some 3\<rparr>"

definition from_peer :: "node_id \<Rightarrow> 'c message \<Rightarrow> 'c event" where
  "from_peer peer m = MessageReceived \<lparr>env_cluster_id = 0, env_from = peer, env_to = 1, env_message = m\<rparr>"

lemmas sample_defs = sample_core_def sample_config_def sample_leader_def sample_log_def noop_at_def from_peer_def

lemmas step_eval = step_def handle_def on_event_def finish_step_def validate_invariants_def validate_def
  emit_apply_if_needed_def next_effect_id_def queue_persist_def batch_of_hard_state_def
  batch_of_entries_def validate_envelope_def on_message_def fatal_def stop_def fatalize_def
  log_validate_def validate_completion_def record_completion_def advance_frontier.simps sparse_insert_def
  checked_add_def saturating_add_def step_stopped_def no_output_def

lemmas handler_eval = on_vote_request_def is_log_up_to_date_def send_vote_response_def
  start_pre_vote_def become_candidate_def broadcast_pre_vote_def broadcast_vote_request_def
  with_local_vote_def has_quorum_def qt_quorum_def record_vote_def cannot_win_def
  on_pre_vote_response_def on_vote_response_def persist_leader_noop_def leader_noop_def
  validate_position_def begin_term_transition_def become_follower_def on_heartbeat_tick_def
  on_append_entries_def append_to_log_def conclude_append_def send_append_entries_response_def
  on_append_entries_response_def replicate_to_def replicate_all_def replication_batch_def
  read_snapshot_chunk_def on_propose_def entry_command_def
  finish_apply_def report_at_def fail_uncommitted_proposals_def
  on_effect_completed_def on_barrier_completion_def on_outgoing_snapshot_completion_def on_incoming_snapshot_completion_def
  on_incoming_state_def on_snapshot_completion_def on_persist_completion_def on_apply_completion_def
  run_continuation_def release_read_round_def release_round_def
  maybe_request_local_snapshot_def request_local_snapshot_def

lemmas peer_eval = bt_keys_def bt_values_def bt_get_def bt_remove_def progress_new_def can_send_def
  enter_snapshot_def sent_def acknowledged_def reject_def reset_activity_def restore_probe_def
  inflights_new_def is_full_def push_def free_through_def inflights_clear_def initialize_progress_def
  advance_commit_def quorum_commit_def validate_prefix_def rejected_next_def

lemmas core_eval = step_eval handler_eval peer_eval sample_defs exec_simps log_eval Let_def

lemma sample_vote:
  "step plain_sha sample_core (from_peer 3 (RequestVote 2 9 2)) =
   (Ok \<lparr>out_effects = [SendMessage 3 (VoteResponse 2 False)], soft_state_changed = False\<rparr>, sample_core)"
  by (simp add: core_eval)

text \<open>The follower that has seen a higher term and waits for its hard state to be
  durable, the same core after that completion, and a state to recover from.\<close>

definition sample_waiting :: "(unit, u8 list) raft_core" where
  "sample_waiting = sample_core\<lparr>hard_state := hard_state_new 3 None 1, next_effect_sequence := 1,
     pending_persist := Some \<lparr>persist_id = EffectId 7 1, stable_through = None, continuation = NoContinuation\<rparr>\<rparr>"

definition sample_resumed :: "(unit, u8 list) raft_core" where
  "sample_resumed = sample_waiting\<lparr>pending_persist := None, completed_frontier := 1,
     completed_outcomes := [(EffectId 7 1, Persisted)], completion_order := [EffectId 7 1]\<rparr>"

lemma sample_transition:
  "step plain_sha sample_core (from_peer 3 (VoteResponse 3 False)) =
   (Ok \<lparr>out_effects = [Persist (EffectId 7 1) (batch_of_hard_state (hard_state_new 3 None 1))],
      soft_state_changed = False\<rparr>, sample_waiting)"
  by (simp add: core_eval sample_waiting_def)

lemma sample_completion:
  "step plain_sha sample_waiting (EffectCompleted (EffectId 7 1) Persisted) = (Ok no_output, sample_resumed)"
  by (simp add: core_eval sample_waiting_def sample_resumed_def)

definition sample_recovered :: "unit recovered_state" where
  "sample_recovered = \<lparr>rec_hard_state = hard_state_new 2 None 1, rec_snapshot = None,
     rec_entries = [noop_at 1 1, noop_at 2 1], rec_format_version = format_version\<rparr>"

lemma sample_recovery:
  "from_parts format_version (hard_state_new 2 None 1) None [noop_at 1 1, noop_at 2 1] = Ok sample_recovered"
  by (simp add: from_parts_Ok_iff recovery_valid_def sample_recovered_def noop_at_def contiguous_Cons terms_Cons u64_le_iff log_eval boundary_index_def boundary_term_def)

end
