(* ===== verification/Core_Safety.thy ===== *)
theory Core_Safety
  imports Core_Spec Core_Errors Core_Samples
begin

text \<open>
  Safety of the core, step by step: the structural invariant and its run-time
  check, the stability of committed entries, terms and votes, fresh effect
  identifiers, input errors, the completion history and the stopped state.
\<close>

section \<open>The invariant\<close>

definition core_valid :: "('c, 'h) raft_core \<Rightarrow> bool" where
  "core_valid c \<longleftrightarrow> log_inv (rlog c) \<and> log_committed (rlog c) = commit_index (hard_state c) \<and>
     last_log_index c = last_index (rlog c) \<and> last_log_term c = term_of (rlog c) (log_end (rlog c)) \<and>
     applied_index c \<le> commit_index (hard_state c)"

definition core_inv :: "('c, 'h) raft_core \<Rightarrow> bool" where
  "core_inv c \<longleftrightarrow> core_valid c \<and>
     (\<forall>p. pending_apply c = Some p \<longrightarrow> apply_through p \<le> commit_index (hard_state c))"

lemma log_term_at_last: "log_wf l \<Longrightarrow> log_term_at l (last_index l) = Ok (term_of l (log_end l))"
  using base_le_end [of l] by (simp add: log_term_at_wf unat_last_index del: base_le_end)

lemma validate_not_wf: "\<not> log_wf (rlog c) \<Longrightarrow> validate_invariants c \<noteq> Ok ()"
  by (auto simp: validate_invariants_def validate_def Let_def rbind_Ok_iff log_validate_iff)

lemma validate_iff: "validate_invariants c = Ok () \<longleftrightarrow> core_valid c"
proof (cases "log_wf (rlog c)")
  case True
  obtain f where f: "first_index (rlog c) = Ok f" "unat f = base (rlog c) + 1"
    using True by (rule first_index_wf)
  let ?commit = "commit_index (hard_state c)"
  have last: "unat (last_index (rlog c)) = log_end (rlog c)" "log_end (rlog c) + 1 < 2 ^ 64"
    using True by (simp_all add: unat_last_index) (use log_wf_bound [OF True] in simp)
  show ?thesis
  proof (cases "?commit" rule: checked_next_cases)
    case (Next y)
    then show ?thesis
      using True f last by (auto simp: validate_invariants_def validate_def Let_def core_valid_def log_inv_def
          log_validate_iff log_term_at_last u64_less_iff u64_le_iff not_less)
  next
    case Over
    then show ?thesis
      using True f last by (auto simp: validate_invariants_def validate_def Let_def core_valid_def log_inv_def
          u64_less_iff u64_le_iff not_less)
  qed
next
  case False
  then show ?thesis using validate_not_wf by (auto simp: core_valid_def log_inv_def)
qed

lemma sample_core_inv: "core_inv sample_core"
  by (simp add: core_inv_def flip: validate_iff) (simp add: core_eval)

lemma core_inv_frame: "frame c c' \<Longrightarrow> core_inv c' = core_inv c"
  by (auto simp: core_inv_def core_valid_def dest!: frame_fields)

lemma frame_logs: "frame c c' \<Longrightarrow> hard_state c' = hard_state c \<and> rlog c' = rlog c \<and> pending_apply c' = pending_apply c"
  by (simp add: frame_iff)

lemma quorum_commit_above: "quorum_commit l prog q cur = Ok (Some i) \<Longrightarrow> log_committed l < i"
  by (auto simp: quorum_commit_def Let_def rbind_Ok_iff split: if_splits)

lemma commit_to_last_index: "commit_to l i = Ok l' \<Longrightarrow>
    last_index l' = last_index l \<and> log_end l' = log_end l \<and> term_of l' = term_of l \<and>
    log_committed l' = max (log_committed l) i"
  by (auto simp: commit_to_def last_index_def log_end_def term_of_def [abs_def] max_def split: if_splits)

lemma core_valid_commit:
  assumes "core_valid c" "commit_to (rlog c) i = Ok l" "log_committed (rlog c) < i"
  shows "core_valid (c\<lparr>rlog := l, hard_state := hard_state_new t v i\<rparr>)"
  using assms commit_to_inv [of "rlog c" i l] commit_to_last_index [of "rlog c" i l]
  by (auto simp: core_valid_def max_def)

lemma core_valid_append:
  assumes "core_valid c" "log_append (rlog c) [e] = Ok l"
  shows "core_valid (c\<lparr>rlog := l, last_log_index := entry_index e, last_log_term := entry_term e\<rparr>)"
proof -
  have inv: "log_inv l" and wf: "log_wf (rlog c)"
    using assms log_append_inv by (auto simp: core_valid_def log_inv_def)
  have "log_entries l = log_entries (rlog c) @ [e]" "log_committed l = log_committed (rlog c)"
    using assms(2) wf by (auto simp: log_append_Ok_iff)
  then show ?thesis
    using assms(1) inv by (auto simp: core_valid_def term_of_last last_index_def)
qed

lemma core_valid_follow:
  assumes "core_valid c" "merge_from_leader (rlog c) es = Ok (l, appended)"
    and "commit_to l (min leader_commit (last_index l)) = Ok l'" "log_term_at l' (last_index l') = Ok last_t"
  shows "core_valid (c\<lparr>rlog := l', last_log_index := last_index l', last_log_term := last_t,
             hard_state := adopt t (hard_state c) (log_committed l')\<rparr>)"
    "commit_index (hard_state c) \<le> log_committed l'"
proof -
  have "log_inv l'"
    using assms(1-3) merge_keeps_inv(1) commit_to_inv by (metis core_valid_def)
  moreover have "log_committed l = commit_index (hard_state c)"
    using assms(1,2) merge_committed by (metis core_valid_def)
  then show "commit_index (hard_state c) \<le> log_committed l'"
    using commit_to_last_index [OF assms(3)] by simp
  ultimately show "core_valid (c\<lparr>rlog := l', last_log_index := last_index l', last_log_term := last_t,
             hard_state := adopt t (hard_state c) (log_committed l')\<rparr>)"
    using assms(1,4) by (auto simp: core_valid_def adopt_def log_inv_def log_term_at_last)
qed

lemma core_valid_stable:
  "core_valid c \<Longrightarrow> mark_stable (rlog c) i = Ok l \<Longrightarrow> core_valid (c\<lparr>rlog := l\<rparr>)"
  by (auto simp: core_valid_def mark_stable_def last_index_def log_end_def term_of_def split: if_splits)

lemma core_valid_compact:
  assumes "core_valid c" "compact (rlog c) snap = Ok l"
  shows "core_valid (c\<lparr>rlog := l\<rparr>)"
proof -
  let ?l = "rlog c"
  have inv: "log_inv l" and wf: "log_wf ?l"
    using assms compact_inv by (auto simp: core_valid_def log_inv_def)
  have l: "l = rebase ?l snap" and r: "base ?l \<le> unat (record_index snap)"
      "unat (record_index snap) \<le> log_end ?l" "record_term snap = term_of ?l (unat (record_index snap))"
    using assms(2) by (auto simp: compact_Ok_iff [OF wf])
  have "log_end l = log_end ?l" unfolding l using rebase_wf(3) [OF wf r] .
  then have same: "last_index l = last_index ?l"
    using unat_last_index [OF wf] unat_last_index [of l] inv by (simp add: log_inv_def u64_eq_iff)
  have "record_index snap \<le> last_index ?l" using r(2) unat_last_index [OF wf] by (simp add: u64_le_iff)
  then have "log_term_at l (last_index l) = log_term_at ?l (last_index ?l)"
    unfolding same using rebase_terms [OF wf r] by (simp add: l)
  then have "term_of l (log_end l) = term_of ?l (log_end ?l)"
    using wf inv by (simp add: log_inv_def log_term_at_last)
  moreover have "log_committed l = log_committed ?l" by (simp add: l rebase_def)
  ultimately show ?thesis
    using assms(1) inv same by (simp add: core_valid_def)
qed

lemma micro_core_inv: "micro ev s t \<Longrightarrow> \<not> installing ev \<Longrightarrow> core_inv (fst s) \<Longrightarrow> core_inv (fst t)"
proof (induction rule: micro.induct)
  case (leader_commit c i l c' fx)
  then have "log_committed (rlog c) < i" by (auto dest: quorum_commit_above)
  then show ?case
    using leader_commit core_valid_commit [of c i l]
    by (auto simp: core_inv_frame) (auto simp: core_inv_def core_valid_def)
next
  case (leader_append c e noop l c' fx)
  then show ?case
    using core_valid_append [of c e l] by (auto simp: core_inv_frame) (auto simp: core_inv_def core_valid_def)
next
  case (follow c peer t prev_log_index prev_log_term leader_commit ctx es l appended l' last_t c' fx)
  then have "core_valid c" by (simp add: core_inv_def)
  then show ?case
    using core_valid_follow [OF _ follow(5-7)] follow(8,10)
    by (auto simp: core_inv_frame) (auto simp: core_inv_def adopt_def)
next
  case (follow_stuck c peer t prev_log_index prev_log_term leader_commit ctx es l appended l' c' fx)
  then have "log_inv l'"
    using merge_keeps_inv(1) commit_to_inv by (metis core_inv_def core_valid_def fst_conv)
  then show ?case using follow_stuck by (simp add: log_inv_def log_term_at_last)
next
  case (stabilize j c i l c' fx)
  then show ?case
    using core_valid_stable [of c i l] by (auto simp: core_inv_frame) (auto simp: core_inv_def)
next
  case (compaction j snap c l c' fx)
  then show ?case
    using core_valid_compact [of c snap l] by (auto simp: core_inv_frame) (auto simp: core_inv_def)
next
  case (install i snap c l last_t t c' fx)
  then show ?case by (auto simp: installing_def)
qed (simp_all add: core_inv_frame, simp_all add: core_inv_def core_valid_def adopt_def)

section \<open>Committed entries\<close>

lemma view_cong: "log_snapshot l' = log_snapshot l \<Longrightarrow> log_entries l' = log_entries l \<Longrightarrow> view l' = view l"
  by (auto simp: view_def log_end_def)

lemma commit_to_frame:
  "commit_to l i = Ok l' \<Longrightarrow> log_snapshot l' = log_snapshot l \<and> log_entries l' = log_entries l"
  by (auto simp: commit_to_def split: if_splits)

lemma mark_stable_frame:
  "mark_stable l i = Ok l' \<Longrightarrow> log_snapshot l' = log_snapshot l \<and> log_entries l' = log_entries l"
  by (auto simp: mark_stable_def split: if_splits)

definition commit_extends :: "('c, 'h) raft_core \<Rightarrow> ('c, 'h) raft_core \<Rightarrow> bool" where
  "commit_extends c c' \<longleftrightarrow> commit_index (hard_state c) \<le> commit_index (hard_state c') \<and>
     base (rlog c) \<le> base (rlog c') \<and>
     (\<forall>i. base (rlog c') < i \<longrightarrow> i \<le> unat (commit_index (hard_state c)) \<longrightarrow>
        view (rlog c') i = view (rlog c) i)"

lemma commit_extends_same:
  "commit_index (hard_state c) \<le> commit_index (hard_state c') \<Longrightarrow>
   log_snapshot (rlog c') = log_snapshot (rlog c) \<Longrightarrow> log_entries (rlog c') = log_entries (rlog c) \<Longrightarrow>
   commit_extends c c'"
  by (simp add: commit_extends_def view_cong [of "rlog c'" "rlog c"])

lemma commit_extends_trans:
  "commit_extends a b \<Longrightarrow> commit_extends b c \<Longrightarrow> commit_extends a c"
  by (auto simp: commit_extends_def u64_le_iff)

lemma micro_commit_extends:
  "micro ev s t \<Longrightarrow> \<not> installing ev \<Longrightarrow> core_inv (fst s) \<Longrightarrow> commit_extends (fst s) (fst t)"
proof (induction rule: micro.induct)
  case (leader_commit c i l c' fx)
  then have "commit_index (hard_state c) \<le> i"
    using quorum_commit_above [OF leader_commit(2)] leader_commit(6) by (auto simp: core_inv_def core_valid_def)
  then show ?case
    using leader_commit(4) commit_to_frame [OF leader_commit(3)]
    by (auto intro!: commit_extends_same dest!: frame_logs)
next
  case (leader_append c e noop l c' fx)
  then have "log_inv (rlog c)" "log_committed (rlog c) = commit_index (hard_state c)" "log_wf (rlog c)"
    by (auto simp: core_inv_def core_valid_def log_inv_def)
  then show ?case
    using leader_append(4) log_append_view [OF _ leader_append(4)] frame_logs [OF leader_append(5)]
    by (auto simp: commit_extends_def log_append_Ok_iff log_inv_def)
next
  case (follow c peer t prev_log_index prev_log_term leader_commit ctx es l appended l' last_t c' fx)
  then have inv: "log_inv (rlog c)" and com: "log_committed (rlog c) = commit_index (hard_state c)"
    by (auto simp: core_inv_def core_valid_def)
  have same: "log_snapshot l' = log_snapshot l" "log_entries l' = log_entries l"
    using commit_to_frame [OF follow(6)] by auto
  then have "view l' = view l" by (auto simp: fun_eq_iff intro: view_cong [THEN fun_cong])
  moreover have "base l' = base (rlog c)"
    using merge_committed [OF follow(5)] same by simp
  moreover have "commit_index (hard_state c) \<le> log_committed l'"
    using core_valid_follow(2) [OF _ follow(5-7)] follow(10) by (simp add: core_inv_def)
  ultimately show ?case
    using frame_logs [OF follow(8)] merge_keeps_inv(2) [OF inv follow(5)] com
    by (auto simp: commit_extends_def adopt_def)
next
  case (follow_stuck c peer t prev_log_index prev_log_term leader_commit ctx es l appended l' c' fx)
  then have "log_inv l'"
    using merge_keeps_inv(1) commit_to_inv by (metis core_inv_def core_valid_def fst_conv)
  then show ?case using follow_stuck by (simp add: log_inv_def log_term_at_last)
next
  case (stabilize j c i l c' fx)
  then show ?case
    using mark_stable_frame [OF stabilize(2)] by (auto intro!: commit_extends_same dest!: frame_logs)
next
  case (compaction j snap c l c' fx)
  then have wf: "log_wf (rlog c)" by (simp add: core_inv_def core_valid_def log_inv_def)
  then have "base (rlog c) \<le> unat (record_index snap)" "l = rebase (rlog c) snap"
      "\<And>i. view l i = (if unat (record_index snap) < i then view (rlog c) i else None)"
    using compaction(2) rebase_wf(2) [OF wf, of snap] by (auto simp: compact_Ok_iff)
  moreover from this have "base l = unat (record_index snap)" by (simp add: rebase_def)
  ultimately show ?case using frame_logs [OF compaction(3)] by (auto simp: commit_extends_def)
next
  case (reaffirm c peer t prev_log_index prev_log_term leader_commit ctx es hint c' fx)
  then show ?case
    by (auto simp: adopt_def core_inv_def core_valid_def intro!: commit_extends_same dest!: frame_logs)
next
  case (install i snap c l last_t t c' fx)
  then show ?case by (auto simp: installing_def)
qed (drule frame_logs, simp add: commit_extends_same | simp add: commit_extends_same)+

lemma macros_core_inv:
  "macros ev s t \<Longrightarrow> \<not> installing ev \<Longrightarrow> core_inv (fst s) \<Longrightarrow> core_inv (fst t) \<and> commit_extends (fst s) (fst t)"
proof (induction rule: rtranclp_induct)
  case (step t u)
  from step(2) have "core_inv (fst u) \<and> commit_extends (fst t) (fst u)"
  proof cases
    case work
    then show ?thesis using step micro_core_inv micro_commit_extends by blast
  qed (use step in \<open>auto simp: core_inv_def core_valid_def record_completion_def stop_def Let_def split_beta
      intro!: commit_extends_same\<close>)
  then show ?case using step commit_extends_trans by blast
qed (auto intro: commit_extends_same)

section \<open>Invariants of the moves\<close>

definition hard_le :: "hard_state \<Rightarrow> hard_state \<Rightarrow> bool" where
  "hard_le a b \<longleftrightarrow> current_term a < current_term b \<or>
     current_term a = current_term b \<and> (voted_for a = None \<or> voted_for b = voted_for a)"

lemma hard_le_refl [simp]: "hard_le a a" by (simp add: hard_le_def)

lemma hard_le_trans: "hard_le a b \<Longrightarrow> hard_le b c \<Longrightarrow> hard_le a c"
  by (auto simp: hard_le_def)

lemma adopt_hard_le: "current_term hs \<le> t \<Longrightarrow> hard_le hs (adopt t hs commit)"
  by (auto simp: hard_le_def adopt_def)

lemma micro_term: "micro ev s t \<Longrightarrow> current_term (hard_state (fst s)) \<le> current_term (hard_state (fst t))"
proof (induction rule: micro.induct)
  case (stand c q t c' fx)
  then show ?case using frame_logs [OF stand(5)] checked_next_less [OF stand(4)] by simp
qed (drule frame_logs, simp add: adopt_def | simp)+

lemma micro_vote: "micro ev s t \<Longrightarrow> \<not> installing ev \<Longrightarrow> hard_le (hard_state (fst s)) (hard_state (fst t))"
proof (induction rule: micro.induct)
  case (install i snap c l last_t t c' fx)
  then show ?case by (auto simp: installing_def)
next
  case (stand c q t c' fx)
  then show ?case using frame_logs [OF stand(5)] checked_next_less [OF stand(4)] by (simp add: hard_le_def)
next
  case (follow c peer t prev_log_index prev_log_term leader_commit ctx es l appended l' last_t c' fx)
  then show ?case using frame_logs [OF follow(8)] by (simp add: adopt_hard_le)
next
  case (reaffirm c peer t prev_log_index prev_log_term leader_commit ctx es hint c' fx)
  then show ?case using frame_logs [OF reaffirm(5)] by (simp add: adopt_hard_le)
qed (drule frame_logs, simp add: hard_le_def | simp)+

lemma life_hard_state [simp]:
  "hard_state (record_completion i outcome c) = hard_state c" "hard_state (stop reason c) = hard_state c"
  by (simp_all add: record_completion_def stop_def Let_def split_beta)

lemma macros_term:
  "macros ev s t \<Longrightarrow> current_term (hard_state (fst s)) \<le> current_term (hard_state (fst t))"
proof (induction rule: rtranclp_induct)
  case (step t u)
  from step(2) have "current_term (hard_state (fst t)) \<le> current_term (hard_state (fst u))"
    by cases (auto dest: micro_term)
  then show ?case using step(3) by simp
qed simp

lemma macros_vote: "macros ev s t \<Longrightarrow> \<not> installing ev \<Longrightarrow> hard_le (hard_state (fst s)) (hard_state (fst t))"
proof (induction rule: rtranclp_induct)
  case (step t u)
  from step(2) have "hard_le (hard_state (fst t)) (hard_state (fst u))"
    by cases (use step(4) in \<open>auto dest: micro_vote\<close>)
  then show ?case using step(3,4) hard_le_trans by blast
qed simp

section \<open>Terms and votes\<close>

text \<open>
  C9: a step never lowers the current term, whichever event it handles and whether
  it succeeds, fails or panics.
\<close>

theorem step_term_monotone:
  "current_term (hard_state c) \<le> current_term (hard_state (snd (step sha c event)))"
  using step_macros [of c event sha] macros_term by fastforce

text \<open>
  C8: a vote is never taken back within its term: unless the step completes the
  installation of a snapshot, the term grows or the vote of the current term stays.
\<close>

theorem step_vote_stable:
  assumes "\<not> installs_snapshot event" "voted_for (hard_state c) = Some v"
    and "current_term (hard_state (snd (step sha c event))) = current_term (hard_state c)"
  shows "voted_for (hard_state (snd (step sha c event))) = Some v"
proof -
  obtain fx where "macros (cause c event) (c, []) (snd (step sha c event), fx)"
    using step_macros [of c event sha] by auto
  from macros_vote [OF this] show ?thesis using assms installing_cause [of c event] by (auto simp: hard_le_def)
qed

theorem step_vote_stable_witness:
  "voted_for (hard_state (snd (step plain_sha sample_core (from_peer 3 (RequestVote 2 9 2))))) = Some 2"
  by (rule step_vote_stable) (simp_all add: from_peer_def installs_snapshot_def sample_vote [unfolded from_peer_def], simp_all add: sample_defs)

section \<open>Effect identifiers\<close>

definition keys_of :: "'c effect list \<Rightarrow> effect_id list" where
  "keys_of fx = List.map_filter effect_key fx"

definition keys_in :: "u64 \<Rightarrow> u64 \<Rightarrow> u64 \<Rightarrow> effect_id list \<Rightarrow> bool" where
  "keys_in g lo hi ids \<longleftrightarrow> sorted_wrt (<) (map sequence ids) \<and>
     (\<forall>i \<in> set ids. generation i = g \<and> lo < sequence i \<and> sequence i \<le> hi)"

definition issued :: "('c, 'h) run \<Rightarrow> ('c, 'h) run \<Rightarrow> bool" where
  "issued s t \<longleftrightarrow> next_effect_sequence (fst s) \<le> next_effect_sequence (fst t) \<and>
     config (fst t) = config (fst s) \<and>
     (\<exists>new. snd t = snd s @ new \<and>
       keys_in (cfg_generation (config (fst s))) (next_effect_sequence (fst s))
         (next_effect_sequence (fst t)) (keys_of new))"

lemma keys_of_simps [simp]:
  "keys_of [] = []" "keys_of (fx @ gx) = keys_of fx @ keys_of gx"
  "keys_of [e] = (case effect_key e of None \<Rightarrow> [] | Some i \<Rightarrow> [i])"
  by (simp_all add: keys_of_def List.map_filter_def split: option.splits)

lemma keys_in_append:
  "keys_in g lo mid a \<Longrightarrow> keys_in g mid hi b \<Longrightarrow> lo \<le> mid \<Longrightarrow> mid \<le> hi \<Longrightarrow> keys_in g lo hi (a @ b)"
  unfolding keys_in_def sorted_wrt_append map_append set_append
  by (fastforce intro: order.strict_trans1 order.strict_trans2)

interpretation ids: state_relation issued
proof
  show "issued s s" for s :: "('a, 'b) run"
    by (auto simp: issued_def keys_in_def intro!: exI [of _ "[]"])
  show "issued s u" if "issued s t" "issued t u" for s t u :: "('a, 'b) run"
    using that by (auto simp: issued_def intro: keys_in_append)
qed

lemma checked_add_next: "checked_add x 1 = Some n \<Longrightarrow> x < n"
  by (auto simp: checked_add_Some_iff u64_less_iff)

lemma frame_counter: "frame c c' \<Longrightarrow> next_effect_sequence c' = next_effect_sequence c \<and> config c' = config c"
  by (simp add: frame_iff)

lemma keys_of_ready [simp]: "keys_of (map (\<lambda>rid. ReadReady rid i) ids) = []"
  by (induction ids) (simp_all add: keys_of_def List.map_filter_def)

lemma micro_issued: "micro ev s t \<Longrightarrow> issued s t"
proof (induction rule: micro.induct)
qed (drule frame_counter, auto simp: issued_def keys_in_def dest: checked_add_next | auto simp: issued_def keys_in_def)+

lemma macros_issued: "macros ev s t \<Longrightarrow> issued s t"
proof (induction rule: rtranclp_induct)
  case base
  show ?case by (rule ids.rel_refl)
next
  case (step t u)
  from step(2) have "issued t u"
  proof cases
    case work
    then show ?thesis by (rule micro_issued)
  qed (auto simp: issued_def keys_in_def record_completion_def stop_def Let_def split_beta)
  then show ?case using step(3) by (rule ids.rel_trans [rotated])
qed

text \<open>
  C20: effect identifiers are fresh: the effects a step emits carry identifiers of
  the core's generation with strictly increasing sequence numbers above every number
  issued before, and the counter never goes back.
\<close>

theorem step_effect_ids_fresh:
  assumes "step sha c event = (Ok out, c')"
  shows "keys_in (cfg_generation (config c)) (next_effect_sequence c) (next_effect_sequence c')
      (keys_of (out_effects out)) \<and> next_effect_sequence c \<le> next_effect_sequence c'"
  using step_macros [of c event sha] macros_issued assms by (fastforce simp: issued_def)

theorem step_effect_ids_fresh_witness:
  "keys_in 7 0 1 [EffectId 7 1]"
  using step_effect_ids_fresh [OF sample_transition] by (simp add: sample_waiting_def sample_defs)

section \<open>Rejected input\<close>

lemma rejected_clean_on_event:
  assumes "bt_ordered (pending_snapshot_reads (fst s))"
  shows "post (on_event sha event) s (rejected_clean s)"
proof (cases event)
  case (EffectCompleted i outcome)
  have v: "validate_completion c i outcome = Err e \<Longrightarrow> \<exists>f. e = Input f" for c :: "('a, 'b) raft_core" and e
    by (auto simp: validate_completion_def split: if_splits option.splits)
  have "post (on_effect_completed sha i outcome) s
      (chain (\<lambda>_. block [assign (record_completion i outcome)]) (rejected_clean s))"
    using rejected_clean_effect_completed [OF assms]
    by (rule post_weaken) (auto simp: chain_iff post_simps)
  then show ?thesis
    by (auto simp: EffectCompleted on_event_def post_simps chain_iff simp del: block.simps dest!: v)
next
  case (MessageReceived env)
  have v: "validate_envelope c env = Err e \<Longrightarrow> \<exists>f. e = Input f" for c :: "('a, 'b) raft_core" and e
    by (auto simp: validate_envelope_def split: if_splits)
  have "post (block [if role (fst s) = Leader then assign (\<lambda>c. c\<lparr>active_members :=
      insert (env_from env) (active_members c)\<rparr>) else ret (),
      on_message sha (env_from env) (env_message env)]) s (rejected_clean s)"
    by (rule rejected_clean_plain) (auto intro!: throws_intros throws_on_message)
  then show ?thesis
    by (auto simp: MessageReceived on_event_def post_action post_block post_pure post_if chain_iff
        simp del: block.simps dest!: v)
next
  case (Tick k)
  then show ?thesis
    by (cases k) (auto simp: on_event_def intro: rejected_clean_plain throws_ticks)
qed (auto simp: on_event_def post_simps intro: rejected_clean_plain throws_on_propose throws_on_read
    throws_request_local_snapshot)

lemma rejected_clean_handle:
  assumes "bt_ordered (pending_snapshot_reads (fst s))"
  shows "post (handle sha event) s (rejected_clean s)"
proof -
  have "post (on_event sha event) s (chain (\<lambda>_. block [emit_apply_if_needed]) (rejected_clean s))"
    using rejected_clean_on_event [OF assms]
  proof (rule post_weaken)
    fix r and t :: "('a, 'b) run" assume "rejected_clean s r t"
    moreover have "post (block [emit_apply_if_needed]) t (rejected_clean s)"
      by (rule rejected_clean_plain) (auto intro!: throws_intros throws_emit_apply)
    ultimately show "chain (\<lambda>_. block [emit_apply_if_needed]) (rejected_clean s) r t"
      by (auto simp: chain_iff)
  qed
  then show ?thesis by (simp add: handle_def post_block(2) del: block.simps)
qed

lemma finish_step_not_input: "fst (finish_step previous s) \<noteq> Err (Input e)"
  by (auto simp: finish_step_def fatal_def Let_def split_beta split: result.splits)

text \<open>
  C19: input that is rejected changes nothing: when a step answers a message or a
  completion with an input error, the core after the step is the core before it.
\<close>

theorem input_error_unchanged:
  assumes "bt_ordered (pending_snapshot_reads c)" "step sha c event = (Err (Input e), c')"
  shows "c' = c"
proof (cases "stopped c")
  case True
  then show ?thesis using assms(2) by (simp add: step_def)
next
  case False
  obtain r s where h: "handle sha event (c, []) = (r, s)" by (cases "handle sha event (c, [])")
  have clean: "rejected_clean (c, []) r s"
    using rejected_clean_handle [of "(c, [])" sha event] assms(1) h by (auto dest: postD)
  show ?thesis
  proof (cases r)
    case (Ok u)
    then show ?thesis using False h assms(2) finish_step_not_input [of "role c" s e] by (simp add: step_def)
  next
    case (Err f)
    then have "f = Input e" "c' = fst s"
      using False h assms(2)
      by (auto simp: step_def fatalize_def fatal_def split_beta split: step_error.splits)
    then show ?thesis using clean Err by (auto simp: rejected_clean_def)
  next
    case Panic
    then show ?thesis using False h assms(2) by (simp add: step_def)
  qed
qed

theorem input_error_unchanged_witness:
  "snd (step plain_sha sample_core (EffectCompleted (EffectId 6 1) Persisted)) = sample_core"
proof (rule input_error_unchanged)
  show "bt_ordered (pending_snapshot_reads sample_core)" by (simp add: sample_defs bt_ordered_def)
  show "step plain_sha sample_core (EffectCompleted (EffectId 6 1) Persisted) =
      (Err (Input StaleEffectGeneration), snd (step plain_sha sample_core (EffectCompleted (EffectId 6 1) Persisted)))"
    by (simp add: core_eval)
qed

section \<open>The run-time check\<close>

lemma micro_reads_ordered:
  "micro ev s t \<Longrightarrow> bt_ordered (pending_snapshot_reads (fst s)) \<Longrightarrow> bt_ordered (pending_snapshot_reads (fst t))"
proof (induction rule: micro.induct)
qed (simp add: frame_def | simp)+

lemma macros_reads_ordered:
  "macros ev s t \<Longrightarrow> bt_ordered (pending_snapshot_reads (fst s)) \<Longrightarrow> bt_ordered (pending_snapshot_reads (fst t))"
proof (induction rule: rtranclp_induct)
  case (step t u)
  from step(2) show ?case
  proof cases
    case work
    then show ?thesis using step micro_reads_ordered by blast
  qed (use step in \<open>auto simp: record_completion_def stop_def Let_def split_beta\<close>)
qed simp

lemma step_core_inv:
  assumes "core_inv c" "\<not> installs_snapshot event"
  shows "core_inv (snd (step sha c event)) \<and> commit_extends c (snd (step sha c event))"
proof -
  obtain fx where "macros (cause c event) (c, []) (snd (step sha c event), fx)"
    using step_macros [of c event sha] by auto
  from macros_core_inv [OF this] show ?thesis using assms installing_cause [of c event] by auto
qed

lemma handle_core_inv:
  assumes "core_inv c" "\<not> installs_snapshot event" "handle sha event (c, []) = (r, s)"
  shows "core_inv (fst s)"
proof -
  have "macros (cause c event) (c, []) s"
    using macros_handle [of sha event "(c, [])"] assms(3) by (auto dest: postD)
  from macros_core_inv [OF this] show ?thesis using assms(1,2) installing_cause [of c event] by auto
qed

lemma fail_core_inv: "core_inv (fst s) \<Longrightarrow> core_inv (fst (snd (fail_uncommitted_proposals s)))"
proof -
  assume inv: "core_inv (fst s)"
  have "macros None s (snd (fail_uncommitted_proposals s))"
    using keeps_micros_macros [OF keeps_reports(2) [THEN keeps_steady]] unfolding keeps_def by blast
  from macros_core_inv [OF this] show ?thesis using inv by (simp add: installing_def completes_def)
qed

lemma finish_core_inv:
  assumes "core_inv (fst s)"
  shows "is_ok (fst (finish_step previous s))"
proof -
  let ?u = "if previous = Leader \<and> role (fst s) \<noteq> Leader then snd (fail_uncommitted_proposals s) else s"
  have "core_inv (fst ?u)" using assms fail_core_inv [of s] by simp
  then have "validate_invariants (fst ?u) = Ok ()" by (simp add: core_inv_def validate_iff)
  then show ?thesis by (cases ?u) (simp add: finish_step_def Let_def)
qed

lemma fatalize_invariant:
  "host_error e \<Longrightarrow> fst (fatalize e c) \<noteq> Fatal (Invariant v)"
  by (auto simp: fatalize_def fatal_def split: step_error.splits)

lemma step_no_violation:
  assumes "core_inv c" "\<not> installs_snapshot event" "bt_ordered (pending_snapshot_reads c)"
  shows "fst (step sha c event) \<noteq> Err (Fatal (Invariant v))"
proof (cases "stopped c")
  case True
  then show ?thesis by (auto simp: step_def step_stopped_def rbind_Err_iff split: event.splits)
next
  case False
  obtain r s where h: "handle sha event (c, []) = (r, s)" by (cases "handle sha event (c, [])")
  have "rejected_clean (c, []) r s"
    using rejected_clean_handle [of "(c, [])" sha event] assms(3) h by (auto dest: postD)
  then have "r = Err e \<Longrightarrow> host_error e" for e by (simp add: rejected_clean_def)
  moreover have "is_ok (fst (finish_step (role c) s))"
    using finish_core_inv [OF handle_core_inv [OF assms(1,2) h]] .
  ultimately show ?thesis
    using False h fatalize_invariant by (cases r) (auto simp: step_def split_beta is_ok_def split: result.splits)
qed

text \<open>
  C10: the run-time invariant check never fires while entries are appended, merged,
  committed, applied and compacted: a step from a core that satisfies the invariant
  leads to a core that satisfies it, on error paths and panics too, and does not
  report a violated invariant. Only the installation of a snapshot is excepted.
\<close>

theorem step_keeps_invariant:
  assumes "core_inv c" "bt_ordered (pending_snapshot_reads c)" "\<not> installs_snapshot event"
  shows "core_inv (snd (step sha c event)) \<and>
    fst (step sha c event) \<notin> {Err (Fatal (Invariant v)) | v. True}"
  using step_core_inv [OF assms(1,3)] step_no_violation [OF assms(1,3,2)] by auto

theorem step_keeps_invariant_witness:
  "core_inv (snd (step plain_sha sample_core (from_peer 2 (AppendEntries 3 2 1 2 None [noop_at 3 3]))))"
  using step_keeps_invariant [OF sample_core_inv, of "from_peer 2 (AppendEntries 3 2 1 2 None [noop_at 3 3])" plain_sha]
  by (simp add: sample_defs bt_ordered_def installs_snapshot_def)

text \<open>
  C2: what is committed stays: a step that does not install a snapshot never lowers
  the commit index or the compaction boundary, and leaves every committed entry above
  the new boundary exactly as it was.
\<close>

theorem committed_entries_stable:
  assumes "core_inv c" "\<not> installs_snapshot event" "c' = snd (step sha c event)"
  shows "commit_index (hard_state c) \<le> commit_index (hard_state c') \<and>
    base (rlog c) \<le> base (rlog c') \<and>
    (\<forall>i. base (rlog c') < i \<and> i \<le> unat (commit_index (hard_state c)) \<longrightarrow>
       view (rlog c') i = view (rlog c) i)"
  using step_core_inv [OF assms(1,2), of sha] assms(3) by (auto simp: commit_extends_def)

theorem committed_entries_stable_witness:
  "view (rlog (snd (step plain_sha sample_core (from_peer 2 (AppendEntries 3 2 1 2 None [noop_at 3 3]))))) 1 =
   view sample_log 1"
proof -
  let ?event = "from_peer 2 (AppendEntries 3 2 1 2 None [noop_at 3 3])"
  have "base (rlog (snd (step plain_sha sample_core ?event))) = 0"
    by (simp add: core_eval)
  then show ?thesis
    using committed_entries_stable [OF sample_core_inv, of ?event _ plain_sha]
    by (simp add: installs_snapshot_def from_peer_def) (simp add: sample_core_def)
qed

text \<open>
  C21: the invariant check is exact: it passes if and only if the log is well-formed,
  the commit index lies between the boundary and the end and agrees with the hard
  state, the cached last index and term are the log's, and nothing uncommitted is
  applied.
\<close>

theorem invariant_check_exact: "validate_invariants c = Ok () \<longleftrightarrow> core_valid c"
  by (rule validate_iff)

section \<open>Runs\<close>

inductive reachable :: "'h sha256 \<Rightarrow> ('c, 'h) raft_core \<Rightarrow> ('c, 'h) raft_core \<Rightarrow> bool" for sha c0 where
  start: "reachable sha c0 c0"
| more: "reachable sha c0 c \<Longrightarrow> step sha c event = (r, c') \<Longrightarrow>
    (installs_snapshot event \<Longrightarrow> is_ok r) \<Longrightarrow> reachable sha c0 c'"

definition pend_inv :: "('c, 'h) raft_core \<Rightarrow> bool" where
  "pend_inv c \<longleftrightarrow> commit_index (hard_state c) \<le> log_committed (rlog c) \<and>
     (\<forall>p. pending_apply c = Some p \<longrightarrow> apply_through p \<le> commit_index (hard_state c))"

lemma install_committed:
  "install_snapshot l snap = Ok l' \<Longrightarrow> log_committed l' = max (log_committed l) (record_index snap)"
  by (auto simp: install_snapshot_def Let_def rbind_Ok_iff max_def split: result.splits if_splits)

lemma compact_committed: "compact l snap = Ok l' \<Longrightarrow> log_committed l' = log_committed l"
  by (auto simp: compact_def Let_def rbind_Ok_iff split: if_splits)

lemma append_committed: "log_append l es = Ok l' \<Longrightarrow> log_committed l' = log_committed l"
  by (auto simp: log_append_def rbind_Ok_iff split: if_splits)

lemma stable_committed: "mark_stable l i = Ok l' \<Longrightarrow> log_committed l' = log_committed l"
  by (auto simp: mark_stable_def split: if_splits)

lemma adopt_commit: "commit_index (adopt t hs commit) = commit"
  by (simp add: adopt_def)

lemma pend_inv_step:
  "commit_index (hard_state c) \<le> commit_index (hard_state c') \<and>
   commit_index (hard_state c') \<le> log_committed (rlog c') \<and> pending_apply c' = pending_apply c \<and> pend_inv c \<Longrightarrow>
   pend_inv (fst (c', fx))"
  by (auto simp: pend_inv_def intro: order_trans)

lemma micro_pend_inv: "micro ev s t \<Longrightarrow> pend_inv (fst s) \<Longrightarrow> pend_inv (fst t)"
proof (induction rule: micro.induct)
  case (leader_commit c i l c' fx)
  have above: "log_committed (rlog c) < i" by (rule quorum_commit_above [OF leader_commit(2)])
  then have "commit_index (hard_state c) \<le> i" using leader_commit(5) by (auto simp: pend_inv_def)
  moreover have "log_committed l = i" using above commit_to_last_index [OF leader_commit(3)] by simp
  ultimately show ?case
    using leader_commit(5) frame_logs [OF leader_commit(4)] by (intro pend_inv_step [of c]) (auto)
next
  case (follow c peer t prev_log_index prev_log_term leader_commit ctx es l appended l' last_t c' fx)
  have "log_committed (rlog c) \<le> log_committed l'"
    using merge_committed [OF follow(5)] commit_to_last_index [OF follow(6)] by simp
  then show ?case using follow(9) frame_logs [OF follow(8)]
    by (intro pend_inv_step [of c]) (auto simp: adopt_commit pend_inv_def)
next
  case (follow_stuck c peer t prev_log_index prev_log_term leader_commit ctx es l appended l' c' fx)
  have "log_committed (rlog c) \<le> log_committed l'"
    using merge_committed [OF follow_stuck(4)] commit_to_last_index [OF follow_stuck(5)] by simp
  then show ?case using follow_stuck(8) frame_logs [OF follow_stuck(7)]
    by (intro pend_inv_step [of c]) (auto simp: pend_inv_def)
next
  case (install i snap c l last_t t c' fx)
  have "max (commit_index (hard_state c)) (record_index snap) \<le> log_committed l"
    unfolding install_committed [OF install(2)] by (rule max.mono) (use install(5) in \<open>simp_all add: pend_inv_def\<close>)
  then show ?case using install(5) frame_logs [OF install(4)]
    by (intro pend_inv_step [of c]) (auto)
next
  case (stabilize j c i l c' fx)
  then show ?case using frame_logs [OF stabilize(3)] stable_committed [OF stabilize(2)]
    by (intro pend_inv_step [of c]) (auto simp: pend_inv_def)
next
  case (compaction j snap c l c' fx)
  then show ?case using frame_logs [OF compaction(3)] compact_committed [OF compaction(2)]
    by (intro pend_inv_step [of c]) (auto simp: pend_inv_def)
next
  case (leader_append c e noop l c' fx)
  then show ?case using frame_logs [OF leader_append(5)] append_committed [OF leader_append(4)]
    by (intro pend_inv_step [of c]) (auto simp: pend_inv_def)
next
  case (reaffirm c peer t prev_log_index prev_log_term leader_commit ctx es hint c' fx)
  then show ?case using frame_logs [OF reaffirm(5)]
    by (intro pend_inv_step [of c]) (auto simp: adopt_commit pend_inv_def)
qed (drule frame_logs, simp add: pend_inv_def | simp)+

lemma macros_pend_inv: "macros ev s t \<Longrightarrow> pend_inv (fst s) \<Longrightarrow> pend_inv (fst t)"
proof (induction rule: rtranclp_induct)
  case (step t u)
  from step(2) show ?case
  proof cases
    case work
    then show ?thesis using step micro_pend_inv by blast
  qed (use step in \<open>auto simp: pend_inv_def record_completion_def stop_def Let_def split_beta\<close>)
qed simp

lemma core_inv_iff: "core_inv c \<longleftrightarrow> core_valid c \<and> pend_inv c"
  by (auto simp: core_inv_def pend_inv_def core_valid_def)

lemma step_Ok_valid:
  assumes "step sha c event = (Ok out, c')" "\<not> stopped c"
  shows "core_valid c'"
proof -
  obtain r s where h: "handle sha event (c, []) = (r, s)" by (cases "handle sha event (c, [])")
  then have "finish_step (role c) s = (Ok out, c')"
    using assms by (auto simp: step_def split_beta split: result.splits)
  then have "validate_invariants c' = Ok ()"
    by (auto simp: finish_step_def fatal_def Let_def split_beta split: result.splits)
  then show ?thesis by (simp add: validate_iff)
qed

lemma step_pend_inv: "pend_inv c \<Longrightarrow> pend_inv (snd (step sha c event))"
  using step_macros [of c event sha] macros_pend_inv by fastforce

lemma reachable_inv:
  assumes "reachable sha c0 c" "core_inv c0"
  shows "core_inv c"
  using assms(1)
proof (induction rule: reachable.induct)
  case (more c event r c')
  show ?case
  proof (cases "installs_snapshot event \<and> \<not> stopped c")
    case True
    then obtain out where "step sha c event = (Ok out, c')"
      using more by (cases r) auto
    then show ?thesis
      using step_Ok_valid True more.IH step_pend_inv [of c sha event] by (auto simp: core_inv_iff)
  next
    case False
    then show ?thesis
      using more step_core_inv [of c event sha] by (auto simp: step_def)
  qed
qed (rule assms(2))

lemma new_core_inv:
  assumes "from_parts v hs sn es = Ok recovered" "core_new cfg recovered = Ok c"
  shows "core_inv c"
proof -
  have "log_inv (from_recovered recovered)" using assms(1) by (rule from_recovered_inv)
  moreover have "recovery_valid hs sn es" "recovered = \<lparr>rec_hard_state = hs, rec_snapshot = sn, rec_entries = es, rec_format_version = v\<rparr>"
    using assms(1) by (auto simp: from_parts_Ok_iff)
  ultimately show ?thesis
    using assms(2) by (auto simp: core_new_def core_inv_def core_valid_def Let_def from_recovered_def
        last_index_def term_of_last recovery_valid_def)
qed

text \<open>
  C7: every core the library can reach satisfies the invariant: built from durable
  state that recovery accepted, and driven by any sequence of events, through failed
  steps too, as long as each step that completes a snapshot installation succeeds.
\<close>

theorem reachable_core_invariant:
  assumes "from_parts v hs sn es = Ok recovered" "core_new cfg recovered = Ok c0" "reachable sha c0 c"
  shows "core_inv c"
  using reachable_inv [OF assms(3) new_core_inv [OF assms(1,2)]] .

theorem reachable_core_invariant_witness:
  "\<exists>c0 :: (unit, u8 list) raft_core. core_new sample_config sample_recovered = Ok c0 \<and>
     core_inv (snd (step plain_sha c0 (Tick ElectionTick)))"
proof -
  obtain c0 :: "(unit, u8 list) raft_core" where c0: "core_new sample_config sample_recovered = Ok c0"
    by (simp add: core_new_def Let_def)
  have "reachable plain_sha c0 (snd (step plain_sha c0 (Tick ElectionTick)))"
    by (rule reachable.more [OF reachable.start prod.collapse [symmetric]]) (simp add: installs_snapshot_def)
  then show ?thesis using c0 reachable_core_invariant [OF sample_recovery c0] by blast
qed

end
