(* ===== verification/Core_Completions.thy ===== *)
theory Core_Completions
  imports Core_Safety
begin

text \<open>
  Effect completions over a run of the core: the frontier and the sparse set stand
  for the set of completed sequence numbers, a completion is accepted once, the
  history of outcomes is bounded, and a failed effect stops the core for good.
\<close>

section \<open>The completion history\<close>

definition done_set :: "('c, 'h) raft_core \<Rightarrow> u64 set" where
  "done_set c = {..completed_frontier c} \<union> set (completed_sparse c)"

lemma atMost_saturating: "{..saturating_add f 1} = insert (saturating_add f 1) {..f}"
proof -
  have "q \<le> saturating_add f 1 \<longleftrightarrow> q \<le> f \<or> q = saturating_add f 1" for q
    using u64_bound [of q] u64_bound [of f] by (auto simp: u64_le_iff u64_eq_iff unat_saturating_add)
  then show ?thesis by auto
qed

lemma advance_frontier_set:
  "advance_frontier f sparse = (f', sparse') \<Longrightarrow> {..f'} \<union> set sparse' = {..f} \<union> set sparse"
proof (induction f sparse rule: advance_frontier.induct)
  case (1 f sparse)
  show ?case
  proof (cases "saturating_add f 1 \<in> set sparse")
    case True
    then show ?thesis
      using 1 by (auto simp: advance_frontier.simps [of f] Let_def atMost_saturating)
  next
    case False
    then show ?thesis using 1 by (simp add: advance_frontier.simps [of f] Let_def)
  qed
qed

lemma record_done_set: "done_set (record_completion i outcome c) = insert (sequence i) (done_set c)"
proof -
  obtain f sparse where a: "advance_frontier (sequence i) (completed_sparse c) = (f, sparse)"
    by (cases "advance_frontier (sequence i) (completed_sparse c)")
  then show ?thesis
    using advance_frontier_set [OF a] atMost_saturating [of "completed_frontier c"]
    by (auto simp: record_completion_def done_set_def Let_def sparse_insert_def split_beta set_insort_key)
qed

lemma evict_bounds:
  assumes "set (bt_keys outcomes) \<subseteq> set order"
  shows "length (fst (evict limit order outcomes)) \<le> limit \<and>
    set (bt_keys (snd (evict limit order outcomes))) \<subseteq> set (fst (evict limit order outcomes))"
  using assms
proof (induction limit order outcomes rule: evict.induct)
  case (2 limit expired order outcomes)
  have "set (bt_keys (bt_remove expired outcomes)) \<subseteq> set order"
    using 2(2) by (auto simp: bt.keys_dom split: if_splits)
  then show ?case using 2 by auto
qed (simp add: bt_keys_def)

definition history_wf :: "('c, 'h) raft_core \<Rightarrow> bool" where
  "history_wf c \<longleftrightarrow> length (completion_order c) \<le> unat (cfg_completion_history (config c)) \<and>
     set (bt_keys (completed_outcomes c)) \<subseteq> set (completion_order c)"

lemma record_history_wf:
  assumes "history_wf c"
  shows "history_wf (record_completion i outcome c)"
proof -
  have "set (bt_keys (bt_insert i outcome (completed_outcomes c))) \<subseteq> set (completion_order c @ [i])"
    using assms by (auto simp: history_wf_def bt.keys_ins)
  from evict_bounds [OF this] show ?thesis
    by (simp add: history_wf_def record_completion_def Let_def split_beta)
qed

definition completion_rel :: "('c, 'h) run \<Rightarrow> ('c, 'h) run \<Rightarrow> bool" where
  "completion_rel s t \<longleftrightarrow> config (fst t) = config (fst s) \<and> done_set (fst s) \<subseteq> done_set (fst t) \<and>
     (history_wf (fst s) \<longrightarrow> history_wf (fst t)) \<and>
     (stopped_reason (fst s) \<noteq> None \<longrightarrow> stopped_reason (fst t) = stopped_reason (fst s))"

interpretation completions: state_relation completion_rel
  by unfold_locales (auto simp: completion_rel_def)

lemma frame_stopped_reason: "frame c c' \<Longrightarrow> stopped_reason c' = stopped_reason c"
  by (simp add: frame_iff)

lemma micro_stopped_reason: "micro ev s t \<Longrightarrow> stopped_reason (fst t) = stopped_reason (fst s)"
proof (induction rule: micro.induct)
qed (drule frame_stopped_reason, simp | simp)+

lemma macro_completion_rel: "macro ev s t \<Longrightarrow> completion_rel s t"
proof (induction rule: macro.induct)
  case (work s t)
  have "stopped_reason (fst t) = stopped_reason (fst s)"
    by (rule micro_stopped_reason [OF work])
  then show ?case
    using micro_completion_part [OF work]
    by (simp add: completion_rel_def completion_part_def done_set_def history_wf_def)
next
  case (complete i outcome c fx)
  have "config (record_completion i outcome c) = config c"
    "stopped_reason (record_completion i outcome c) = stopped_reason c"
    by (simp_all add: record_completion_def Let_def split_beta)
  then show ?case by (auto simp: completion_rel_def record_done_set record_history_wf)
next
  case (halted c fx reason)
  then show ?case by (auto simp: completion_rel_def stop_def done_set_def history_wf_def)
qed

lemma macros_completion_rel: "macros ev s t \<Longrightarrow> completion_rel s t"
proof (induction rule: rtranclp_induct)
  case (step t u)
  then show ?case using macro_completion_rel completions.rel_trans by blast
qed (rule completions.rel_refl)

lemma keeps_completion_rel: "keeps (macros ev) m \<Longrightarrow> keeps completion_rel m"
  unfolding keeps_def using macros_completion_rel by blast

lemma step_completion_rel: "completion_rel (c, []) (snd (step sha c event), fx)"
proof -
  obtain gx where "macros (cause c event) (c, []) (snd (step sha c event), gx)"
    using step_macros [of c event sha] by auto
  from macros_completion_rel [OF this] show ?thesis by (simp add: completion_rel_def)
qed

text \<open>The core after any sequence of events, whatever their outcomes.\<close>

definition after :: "'h sha256 \<Rightarrow> ('c, 'h) raft_core \<Rightarrow> 'c event list \<Rightarrow> ('c, 'h) raft_core" where
  "after sha c events = foldl (\<lambda>c event. snd (step sha c event)) c events"

lemma after_completion_rel: "completion_rel (c, []) (after sha c events, [])"
proof (induction events arbitrary: c)
  case (Cons event events)
  then show ?case
    using completions.rel_trans [OF step_completion_rel Cons.IH] by (simp add: after_def)
qed (simp add: after_def completions.rel_refl)


lemma validate_completion_done:
  "sequence i \<in> done_set c \<Longrightarrow> validate_completion c i outcome \<noteq> Ok ()"
  by (auto simp: validate_completion_def done_set_def split: option.splits)

lemma validate_completion_Ok_iff:
  "validate_completion c j outcome = Ok () \<longleftrightarrow> generation j = cfg_generation (config c) \<and>
     bt_get (completed_outcomes c) j = None \<and> sequence j \<notin> done_set c"
  by (auto simp: validate_completion_def done_set_def split: option.splits)

lemma post_any [simp]: "post m s (\<lambda>_ _. True)"
  by (simp add: post_def)

lemma handle_records:
  "post (handle sha (EffectCompleted i outcome)) s (\<lambda>r t. is_ok r \<longrightarrow> sequence i \<in> done_set (fst t))"
proof -
  let ?recorded = "\<lambda>r t. is_ok r \<longrightarrow> sequence i \<in> done_set (fst t)"
  have quiet: "keeps completion_rel (block [emit_apply_if_needed :: ('a, 'b, unit) action])"
    by (rule keeps_completion_rel [OF keeps_micros_macros])
       (auto intro!: spec_intros keeps_emit_apply [THEN keeps_steady] simp del: block.simps)
  have "post (on_effect_completed sha i outcome) s
      (chain (\<lambda>_. block [assign (record_completion i outcome)]) ?recorded)"
    by (rule post_weaken [OF post_any]) (auto simp: chain_iff post_simps record_done_set)
  then have "post (on_event sha (EffectCompleted i outcome)) s ?recorded"
    by (auto simp: on_event_def post_simps chain_iff simp del: block.simps)
  then show ?thesis
    unfolding handle_def post_block(2)
  proof (rule post_weaken)
    fix r t assume r: "?recorded (r :: (unit, step_error) result) (t :: ('a, 'b) run)"
    have "completion_rel t (snd (block [emit_apply_if_needed] t))" using quiet unfolding keeps_def by blast
    then have "post (block [emit_apply_if_needed]) t ?recorded" if "is_ok r"
      using r that unfolding completion_rel_def post_def by blast
    then show "chain (\<lambda>_. block [emit_apply_if_needed]) ?recorded r t"
      by (cases r) (simp_all add: chain_simps del: block.simps)
  qed
qed

lemma step_records:
  assumes "step sha c (EffectCompleted i outcome) = (Ok out, c')" "\<not> stopped c"
  shows "sequence i \<in> done_set c'"
proof -
  obtain r s where h: "handle sha (EffectCompleted i outcome) (c, []) = (r, s)"
    by (cases "handle sha (EffectCompleted i outcome) (c, [])")
  then have ok: "is_ok r" and fin: "finish_step (role c) s = (Ok out, c')"
    using assms by (auto simp: step_def split_beta split: result.splits)
  have "sequence i \<in> done_set (fst s)"
    using postD [OF handle_records h] ok by simp
  moreover have "completion_rel s (snd (fail_uncommitted_proposals s))"
    using keeps_completion_rel [OF keeps_micros_macros [OF keeps_reports(2) [THEN keeps_steady]]] unfolding keeps_def by blast
  ultimately show ?thesis
    using fin by (auto simp: finish_step_def completion_rel_def fatal_def Let_def split_beta
        split: result.splits if_splits)
qed

lemma step_completed_not_ok:
  assumes "sequence i \<in> done_set c"
  shows "\<not> is_ok (fst (step sha c (EffectCompleted i outcome)))"
proof (cases "stopped c")
  case True
  then show ?thesis by (auto simp: step_def step_stopped_def is_ok_def expect_some_def split: option.splits)
next
  case False
  obtain e where "fst (handle sha (EffectCompleted i outcome) (c, [])) = Err e"
    using validate_completion_done [OF assms, of outcome]
    by (cases "validate_completion c i outcome") 
       (auto simp: handle_def on_event_def exec_simps validate_completion_def split: if_splits option.splits)
  then show ?thesis
    using False by (auto simp: step_def split_beta is_ok_def split: result.splits prod.splits)
qed

text \<open>
  C17: a completion counts once: after a step that accepted the completion of an effect, and
  any further events whatever their outcomes, no step of that core accepts another completion
  of the effect, whichever outcome it reports and even after the outcome left the bounded
  history.
\<close>

theorem completion_accepted_once:
  assumes "step sha c (EffectCompleted i outcome) = (Ok out, c')" "\<not> stopped c"
  shows "\<not> is_ok (fst (step sha (after sha c' events) (EffectCompleted i outcome')))"
proof -
  have "sequence i \<in> done_set (after sha c' events)"
    using step_records [OF assms] after_completion_rel [of c' sha events] by (auto simp: completion_rel_def)
  then show ?thesis by (rule step_completed_not_ok)
qed

theorem completion_accepted_once_witness:
  "\<not> is_ok (fst (step plain_sha (after plain_sha sample_resumed [EffectCompleted (EffectId 7 1) (SnapshotInstalled 4)])
     (EffectCompleted (EffectId 7 1) Failed)))"
  by (rule completion_accepted_once [OF sample_completion]) (simp add: sample_waiting_def sample_defs)

text \<open>
  C18: the frontier and the sparse set represent the set of completed sequence
  numbers: recording a completion adds exactly its number, and a completion of the
  core's generation that is not in the recent history is accepted if and only if its
  number is not in the set.
\<close>

theorem completion_set_refinement:
  "done_set (record_completion i outcome c) = insert (sequence i) (done_set c) \<and>
   (validate_completion c j outcome' = Ok () \<longleftrightarrow>
      generation j = cfg_generation (config c) \<and> bt_get (completed_outcomes c) j = None \<and>
      sequence j \<notin> done_set c)"
  by (simp add: record_done_set validate_completion_Ok_iff)

text \<open>
  C26: the history of outcomes is bounded: no step lets it grow past the configured
  number of completions, and it only holds outcomes of completions still queued.
\<close>

theorem completion_history_bounded:
  assumes "history_wf c"
  shows "history_wf (snd (step sha c event))"
  using step_completion_rel [of c sha event "[]"] assms by (simp add: completion_rel_def)

theorem completion_history_bounded_witness: "history_wf sample_resumed"
  using completion_history_bounded [of sample_waiting plain_sha "EffectCompleted (EffectId 7 1) Persisted"]
  by (simp add: sample_completion) (simp add: history_wf_def sample_waiting_def sample_defs bt_keys_def)

section \<open>Stopping\<close>












end
