(* ===== verification/Core_Footprint.thy ===== *)
theory Core_Footprint
  imports Core_Completions
begin

text \<open>
  What the methods of the core leave alone. A property that follows a few fields
  through a step (who was promised a vote, which proposals are unanswered, which
  reads are waiting) needs, of nearly every method, only that it does not touch
  them. The locale \<open>core_frame\<close> collects the few laws such a relation has to satisfy
  and shows once, for every method, that it stays inside the relation;
  \<open>core_footprint\<close> adds the laws of the read handlers and goes on to the methods that
  call them.
  The theories that follow interpret them.
\<close>

section \<open>What is watched\<close>

definition watched where
  "watched c = (pending_persist c, proposals c, pending_reads c, read_round c, applied_index c)"

fun observed :: "'c effect \<Rightarrow> bool" where
  "observed (SendMessage to (VoteResponse t grant)) = grant"
| "observed (ProposalResult pid verdict) = True"
| "observed (ReadReady rid i) = True"
| "observed e = False"

fun grants_vote :: "persist_continuation \<Rightarrow> bool" where
  "grants_vote (SendVoteResponse to t grant) = grant"
| "grants_vote k = False"

definition within :: "(('c, 'h) raft_core \<Rightarrow> ('c, 'h) raft_core \<Rightarrow> bool) \<Rightarrow>
    (('c, 'h) raft_core \<Rightarrow> 'c effect \<Rightarrow> bool) \<Rightarrow> ('c, 'h) run \<Rightarrow> ('c, 'h) run \<Rightarrow> bool" where
  "within Q ok s t \<longleftrightarrow> Q (fst s) (fst t) \<and>
     (\<exists>new. snd t = snd s @ new \<and> (\<forall>e \<in> set new. ok (fst t) e))"

locale core_frame =
  fixes Q :: "('c, 'h) raft_core \<Rightarrow> ('c, 'h) raft_core \<Rightarrow> bool"
    and ok :: "('c, 'h) raft_core \<Rightarrow> 'c effect \<Rightarrow> bool"
  assumes same: "watched c' = watched c \<Longrightarrow> Q c c'"
    and trans: "Q a b \<Longrightarrow> Q b c \<Longrightarrow> Q a c"
    and later: "Q c c' \<Longrightarrow> ok c e \<Longrightarrow> ok c' e"
    and quiet: "\<not> observed e \<Longrightarrow> ok c e"
    and queue: "\<not> grants_vote (continuation p) \<Longrightarrow> Q c (c\<lparr>pending_persist := Some p\<rparr>)"
    and settle: "Q c (c\<lparr>pending_persist := None\<rparr>)"
    and raise: "applied_index c \<le> i \<Longrightarrow> Q c (c\<lparr>applied_index := i\<rparr>)"
    and drop_reads: "Q c (c\<lparr>pending_reads := [], read_round := None\<rparr>)"
begin

lemma within_trans: "within Q ok s t \<Longrightarrow> within Q ok t u \<Longrightarrow> within Q ok s u"
  unfolding within_def
proof (elim conjE exE)
  fix a b
  assume "Q (fst s) (fst t)" "Q (fst t) (fst u)" "snd t = snd s @ a" "snd u = snd t @ b"
    "\<forall>e\<in>set a. ok (fst t) e" "\<forall>e\<in>set b. ok (fst u) e"
  then show "Q (fst s) (fst u) \<and> (\<exists>new. snd u = snd s @ new \<and> (\<forall>e\<in>set new. ok (fst u) e))"
    by (intro conjI exI [of _ "a @ b"]) (auto intro: trans later)
qed

end

sublocale core_frame \<subseteq> state_relation "within Q ok"
proof
  show "within Q ok s s" for s by (simp add: within_def same)
qed (rule within_trans)

context core_frame
begin

lemma stays_write: "(\<And>c. Q c (f c)) \<Longrightarrow> keeps (within Q ok) (assign f)"
  by (simp add: keeps_post post_simps within_def)

lemma stays_assign: "(\<And>c. watched (f c) = watched c) \<Longrightarrow> keeps (within Q ok) (assign f)"
  by (rule stays_write) (rule same)

lemma stays_emit: "\<not> observed e \<Longrightarrow> keeps (within Q ok) (emit e)"
  by (simp add: keeps_post post_simps within_def same quiet)

lemma stays_attempt: "keeps (within Q ok) (attempt g r)"
  by (simp add: attempt_def keeps_pure)

lemma stays_next_effect_id: "keeps (within Q ok) next_effect_id"
  by (auto simp: next_effect_id_def watched_def intro!: keeps_bnd keeps_self stays_attempt stays_assign keeps_pure)

lemmas frame_intros = keeps_pure keeps_bnd keeps_andThen keeps_block keeps_for_each keeps_self
  stays_attempt stays_next_effect_id stays_assign stays_emit

lemma stays_queue_persist:
  assumes "\<not> grants_vote k"
  shows "keeps (within Q ok) (queue_persist b k)"
proof -
  have "keeps (within Q ok) (assign (\<lambda>c. c\<lparr>pending_persist := Some \<lparr>persist_id = i, stable_through = x,
      continuation = k\<rparr>\<rparr>))" for i x
    using assms by (intro stays_write queue) simp
  then show ?thesis
    by (auto simp: queue_persist_def intro!: keeps_bnd keeps_block stays_next_effect_id stays_emit simp del: block.simps)
qed

lemma stays_become_follower: "keeps (within Q ok) (assign become_follower)"
proof (rule stays_write)
  fix c
  show "Q c (become_follower c)"
    by (rule trans [OF drop_reads same]) (simp add: watched_def become_follower_def)
qed

lemma stays_begin_term_transition: "\<not> grants_vote k \<Longrightarrow> keeps (within Q ok) (begin_term_transition t k)"
  by (auto simp: begin_term_transition_def watched_def intro!: keeps_block stays_become_follower stays_assign
      keeps_self stays_queue_persist simp del: block.simps)

lemma stays_responses:
  "keeps (within Q ok) (send_append_entries_response to response)"
  "keeps (within Q ok) (send_pre_vote_response to grant)"
  "keeps (within Q ok) (send_vote_response to t False)"
  by (auto simp: send_vote_response_def send_append_entries_response_def send_pre_vote_response_def
      intro!: frame_intros)

lemma stays_broadcasts:
  "keeps (within Q ok) (broadcast_pre_vote t)" "keeps (within Q ok) (broadcast_vote_request t)"
  "keeps (within Q ok) send_read_heartbeats"
  by (auto simp: broadcast_pre_vote_def broadcast_vote_request_def send_read_heartbeats_def intro!: frame_intros)

lemma stays_replication:
  "keeps (within Q ok) initialize_progress" "keeps (within Q ok) (read_snapshot_chunk to)"
  by (auto simp: initialize_progress_def read_snapshot_chunk_def watched_def intro!: frame_intros
      simp del: block.simps split: option.splits)

lemma stays_replicate_to: "keeps (within Q ok) (replicate_to to)"
  by (auto simp: replicate_to_def watched_def intro!: frame_intros stays_replication simp del: block.simps
      split: option.splits)

lemma stays_replicate_all: "keeps (within Q ok) replicate_all"
  by (auto simp: replicate_all_def intro!: frame_intros stays_replicate_to)

lemma stays_advance_commit: "keeps (within Q ok) advance_commit"
  by (auto simp: advance_commit_def watched_def intro!: frame_intros stays_queue_persist
      simp del: block.simps split: option.splits)

lemma stays_emit_apply: "keeps (within Q ok) emit_apply_if_needed"
  by (auto simp: emit_apply_if_needed_def watched_def intro!: frame_intros simp del: block.simps)

lemma stays_candidacy:
  "keeps (within Q ok) become_candidate" "keeps (within Q ok) persist_leader_noop"
  by (auto simp: become_candidate_def persist_leader_noop_def watched_def intro!: frame_intros stays_queue_persist
      simp del: block.simps)

lemma stays_start_pre_vote: "keeps (within Q ok) start_pre_vote"
  by (auto simp: start_pre_vote_def watched_def intro!: frame_intros stays_candidacy stays_broadcasts
      simp del: block.simps)

lemma stays_vote_responses:
  "keeps (within Q ok) (on_pre_vote_response peer t grant)" "keeps (within Q ok) (on_vote_response peer t grant)"
  by (auto simp: on_pre_vote_response_def on_vote_response_def watched_def Let_def intro!: frame_intros stays_candidacy
      stays_begin_term_transition simp del: block.simps split: option.splits)

lemma stays_on_heartbeat_tick: "keeps (within Q ok) on_heartbeat_tick"
  by (auto simp: on_heartbeat_tick_def watched_def intro!: stays_become_follower frame_intros stays_replicate_all
      simp del: block.simps)

lemma stays_on_append_entries:
  "keeps (within Q ok) (on_append_entries peer t prev_log_index prev_log_term leader_commit ctx entries)"
  by (auto simp: on_append_entries_def append_to_log_def conclude_append_def watched_def Let_def
      intro!: stays_become_follower frame_intros stays_responses stays_queue_persist split: prefix_decision.splits)

lemma stays_local_snapshots:
  "keeps (within Q ok) request_local_snapshot" "keeps (within Q ok) maybe_request_local_snapshot"
  by (auto simp: request_local_snapshot_def maybe_request_local_snapshot_def watched_def intro!: frame_intros
      simp del: block.simps)

lemma stays_on_snapshot_completion: "keeps (within Q ok) (on_snapshot_completion i outcome)"
  by (auto simp: on_snapshot_completion_def on_build_completion_def on_record_completion_def
      on_compact_completion_def watched_def Let_def intro!: frame_intros
      split: local_snapshot_state.splits effect_outcome.splits result.splits)

lemma stays_on_install_snapshot_chunk:
  "keeps (within Q ok) (on_install_snapshot_chunk sha peer t m offset bytes final)"
  by (auto simp: on_install_snapshot_chunk_def watched_def intro!: frame_intros simp del: block.simps)

lemma stays_on_install_snapshot_response: "keeps (within Q ok) (on_install_snapshot_response peer t success)"
  by (auto simp: on_install_snapshot_response_def watched_def intro!: frame_intros stays_begin_term_transition
      stays_replicate_to simp del: block.simps split: option.splits)

lemma stays_on_outgoing_snapshot_completion: "keeps (within Q ok) (on_outgoing_snapshot_completion i outcome)"
  by (auto simp: on_outgoing_snapshot_completion_def watched_def Let_def intro!: frame_intros stays_replication
      split: option.splits effect_outcome.splits result.splits)

lemma stays_install_now: "keeps (within Q ok) (install_now snap peer t)"
proof -
  have "Q c (c\<lparr>rlog := l, snapshot_index := record_index snap, applied_index := max (applied_index c) i,
      hard_state := h, last_log_index := last_index l\<rparr>)" for c l i h
    by (rule trans [OF raise [of c "max (applied_index c) i"] same]) (simp_all add: watched_def)
  then have "keeps (within Q ok) (assign (\<lambda>c. c\<lparr>rlog := l, snapshot_index := record_index snap,
       applied_index := max (applied_index c) (record_index snap),
       hard_state := hard_state_new (max (current_term (hard_state c)) t) None
         (max (commit_index (hard_state c)) (record_index snap)),
       last_log_index := last_index l\<rparr>))" for l
    by (intro stays_write)
  then show ?thesis
    by (auto simp: install_now_def watched_def intro!: keeps_pure keeps_bnd keeps_self stays_attempt stays_emit
        stays_assign [of "\<lambda>c. c\<lparr>last_log_term := _, incoming_snapshot := None\<rparr>"])
qed

lemma stays_on_incoming_state: "keeps (within Q ok) (on_incoming_state i outcome)"
  by (auto simp: on_incoming_state_def on_incoming_persisted_def on_incoming_installed_def watched_def Let_def
      intro!: frame_intros stays_install_now split: option.splits incoming_snapshot_state.splits effect_outcome.splits)

lemma stays_on_incoming_snapshot_completion: "keeps (within Q ok) (on_incoming_snapshot_completion sha i outcome)"
  by (auto simp: on_incoming_snapshot_completion_def on_chunk_stored_def watched_def Let_def intro!: frame_intros
      stays_on_incoming_state split: option.splits effect_outcome.splits)

lemma stays_reports:
  assumes "\<And>c v. Q c (c\<lparr>proposals := v\<rparr>)" "\<And>c pid v. ok c (ProposalResult pid v)"
  shows "keeps (within Q ok) (finish_apply through)" "keeps (within Q ok) fail_uncommitted_proposals"
proof -
  have "keeps (within Q ok) (emit (ProposalResult pid v))" for pid v
    using assms(2) by (simp add: keeps_post post_simps within_def same)
  then have "keeps (within Q ok) (report_at verdict i)" for verdict i
    using assms(1) by (auto simp: report_at_def intro!: keeps_self keeps_pure keeps_block keeps_for_each stays_write
        simp del: block.simps split: option.splits)
  then show "keeps (within Q ok) (finish_apply through)" "keeps (within Q ok) fail_uncommitted_proposals"
    by (auto simp: finish_apply_def fail_uncommitted_proposals_def intro!: keeps_self keeps_for_each)
qed

lemma stays_on_propose:
  assumes "\<And>c v. Q c (c\<lparr>proposals := v\<rparr>)" "\<And>c pid v. ok c (ProposalResult pid v)"
  shows "keeps (within Q ok) (on_propose pid cmd len)"
proof -
  have "keeps (within Q ok) (emit (ProposalResult pid v))" for v
    using assms(2) by (simp add: keeps_post post_simps within_def same)
  moreover have "Q c (c\<lparr>rlog := l, last_log_index := i, last_log_term := t, proposals := v\<rparr>)" for c l i t v
    by (rule trans [OF assms(1) [of c v] same]) (simp add: watched_def)
  ultimately show ?thesis
    by (auto simp: on_propose_def intro!: keeps_self keeps_bnd stays_attempt keeps_block stays_write stays_queue_persist
        simp del: block.simps)
qed

end

text \<open>The same with laws for the reads: what the read handlers do to the queue and to
  the round in flight.\<close>

locale core_footprint = core_frame +
  assumes queue_reads: "Q c (c\<lparr>pending_reads := q\<rparr>)"
    and open_round: "Q c (c\<lparr>next_read_context := n, read_round := Some (fresh_round c n rid)\<rparr>)"
    and confirm_round: "round_has_quorum (fresh_round c n rid) \<Longrightarrow>
      Q c (c\<lparr>next_read_context := n,
        read_round := Some (set_safe_index (fresh_round c n rid) (commit_index (hard_state c)))\<rparr>)"
    and join_round: "read_round c = Some r \<Longrightarrow> Q c (c\<lparr>read_round := Some (round_push r rid)\<rparr>)"
    and count_round: "read_round c = Some r \<Longrightarrow> Q c (c\<lparr>read_round := Some (acknowledge r peer)\<rparr>)"
    and complete_round: "read_round c = Some r \<Longrightarrow> round_has_quorum (acknowledge r peer) \<Longrightarrow>
      Q c (c\<lparr>read_round := Some (set_safe_index (acknowledge r peer) (commit_index (hard_state c)))\<rparr>)"
    and release: "within Q ok s (release_round s)"
begin

lemma release_ok: "keeps (within Q ok) release_read_round"
  by (simp add: release_read_round_def keeps_post post_simps release)

lemma start_ok: "keeps (within Q ok) (start_read_round rid)" "keeps (within Q ok) start_pending_reads"
  by (rule start_reads_keep; (rule state_relation_axioms release stays_broadcasts |
      simp add: within_def queue_reads open_round confirm_round))+

lemma stays_on_read: "keeps (within Q ok) (on_read rid)"
  unfolding keeps_post
proof
  fix s :: "('a, 'b) run"
  have "within Q ok s ((fst s)\<lparr>pending_reads := q\<rparr>, snd s)" for q
    by (simp add: within_def queue_reads)
  moreover have "within Q ok s ((fst s)\<lparr>read_round := Some (round_push r rid)\<rparr>, snd s)"
    if "read_round (fst s) = Some r" for r
    by (simp add: within_def join_round [OF that])
  moreover have "post (start_read_round rid) s (\<lambda>_ t. within Q ok s t)"
    using start_ok(1) unfolding keeps_post by blast
  ultimately show "post (on_read rid) s (\<lambda>_ t. within Q ok s t)"
    by (auto simp: on_read_def post_simps rel_refl split: option.splits)
qed

lemma acknowledge_ok: "keeps (within Q ok) (acknowledge_read_context peer ctx)"
  unfolding keeps_post
proof
  fix s :: "('a, 'b) run"
  have acked: "within Q ok s ((fst s)\<lparr>read_round := Some (acknowledge r peer)\<rparr>, snd s)"
    "round_has_quorum (acknowledge r peer) \<Longrightarrow> within Q ok s ((fst s)\<lparr>read_round :=
       Some (set_safe_index (acknowledge r peer) (commit_index (hard_state (fst s))))\<rparr>, snd s)"
    if "read_round (fst s) = Some r" for r
    using that by (auto simp: within_def count_round complete_round)
  then show "post (acknowledge_read_context peer ctx) s (\<lambda>_ t. within Q ok s t)"
    by (auto simp: acknowledge_read_context_def Let_def post_simps rel_refl intro!: post_then release_ok start_ok
        keeps_block simp del: block.simps split: option.splits)
qed

lemma stays_on_append_entries_response:
  "keeps (within Q ok) (on_append_entries_response peer t success matched conflict ctx)"
  by (auto simp: on_append_entries_response_def watched_def intro!: frame_intros acknowledge_ok
      stays_begin_term_transition stays_replicate_to stays_advance_commit simp del: block.simps split: option.splits)

lemma stays_run_continuation: "\<not> grants_vote k \<Longrightarrow> keeps (within Q ok) (run_continuation k)"
  by (cases k) (auto simp: run_continuation_def watched_def intro!: frame_intros stays_candidacy
      stays_broadcasts stays_responses stays_emit_apply stays_replicate_all stays_advance_commit
      start_ok stays_replication simp del: block.simps)

lemma stays_after_apply:
  "keeps (within Q ok) (block [release_read_round, start_pending_reads, emit_apply_if_needed, maybe_request_local_snapshot])"
  by (auto intro!: keeps_block release_ok start_ok stays_emit_apply stays_local_snapshots simp del: block.simps)

lemma stays_on_message:
  assumes "\<And>t index log_t. m = RequestVote t index log_t \<Longrightarrow> keeps (within Q ok) (on_vote_request peer t index log_t)"
  shows "keeps (within Q ok) (on_message sha peer m)"
  using assms by (cases m) (auto simp: on_message_def intro!: keeps_self keeps_pure stays_responses
      stays_vote_responses stays_on_append_entries stays_on_append_entries_response
      stays_on_install_snapshot_chunk stays_on_install_snapshot_response)

lemma stays_on_vote_request:
  assumes "\<And>c p. Q c (c\<lparr>pending_persist := Some p\<rparr>)" "\<And>c to t. ok c (SendMessage to (VoteResponse t True))"
  shows "keeps (within Q ok) (on_vote_request peer t index log_t)"
proof -
  have "keeps (within Q ok) (queue_persist b k)" for b k
    using assms(1) by (auto simp: queue_persist_def intro!: keeps_bnd keeps_block stays_next_effect_id stays_emit
        stays_write simp del: block.simps)
  moreover have "keeps (within Q ok) (send_vote_response to t grant)" for to t grant
    using assms(2) stays_responses(3) [of to t]
    by (cases grant) (auto simp: send_vote_response_def keeps_post post_simps within_def same quiet)
  ultimately show ?thesis
    by (auto simp: on_vote_request_def Let_def watched_def intro!: keeps_self keeps_block stays_assign
        simp del: block.simps split: option.splits)
qed

end

end
