(* ===== verification/Core_Proposals.thy ===== *)
theory Core_Proposals
  imports Core_Footprint "HOL-Library.Multiset"
begin

text \<open>
  Client proposals over a run of the core: a proposal waits under the index of its
  entry until the entry is applied or the leadership is lost, and is answered once.
\<close>

section \<open>Unanswered proposals\<close>

definition pending_ids :: "('c, 'h) raft_core \<Rightarrow> proposal_id multiset" where
  "pending_ids c = mset (concat (bt_values (proposals c)))"

fun result_of :: "'c effect \<Rightarrow> proposal_id option" where
  "result_of (ProposalResult pid verdict) = Some pid"
| "result_of e = None"

definition reported :: "'c effect list \<Rightarrow> proposal_id multiset" where
  "reported fx = mset (List.map_filter result_of fx)"

lemma reported_simps [simp]:
  "reported [] = {#}" "reported (fx @ gx) = reported fx + reported gx"
  "reported (ProposalResult pid verdict # fx) = add_mset pid (reported fx)"
  by (simp_all add: reported_def List.map_filter_def)

lemma reported_none: "\<forall>e \<in> set fx. result_of e = None \<Longrightarrow> reported fx = {#}"
  by (induction fx) (simp_all add: reported_def List.map_filter_def)

lemma bt_remove_absent: "k \<notin> fst ` set m \<Longrightarrow> bt_remove k m = m"
  by (induction m) (auto simp: bt_remove_def)

lemma values_remove:
  "bt_ordered m \<Longrightarrow> bt_get m k = Some v \<Longrightarrow>
   mset (concat (bt_values m)) = mset v + mset (concat (bt_values (bt_remove k m)))"
proof (induction m)
  case (Cons p m)
  then have "fst p \<notin> fst ` set m" by (auto simp: bt_ordered_def)
  then have "bt_remove (fst p) m = m" by (rule bt_remove_absent)
  then show ?case
    using Cons by (auto simp: bt_get_def bt_values_def bt_remove_def bt_ordered_def split: if_splits)
qed (simp add: bt_get_def)

lemma get_above: "bt_ordered ((k, v) # m) \<Longrightarrow> j < k \<Longrightarrow> bt_get ((k, v) # m) j = None"
  by (auto simp: bt_ordered_def bt_get_def map_of_eq_None_iff)

lemma values_insert:
  "bt_ordered m \<Longrightarrow> mset (concat (bt_values (bt_insert k (old @ new) m))) = mset (concat (bt_values m)) + mset new"
  if "old = (case bt_get m k of None \<Rightarrow> [] | Some w \<Rightarrow> w)"
  using that
proof (induction m)
  case Nil
  then show ?case by (simp add: bt_values_def bt_get_def)
next
  case (Cons p m)
  obtain j w where p: "p = (j, w)" by (cases p)
  have "bt_ordered m" using Cons by (auto simp: bt_ordered_def)
  moreover have "k < j \<Longrightarrow> old = []" using Cons get_above [of j w m k] by (auto simp: p)
  ultimately show ?case
    using Cons by (auto simp: p bt_values_def bt_get_def split: if_splits)
qed

definition settled :: "('c, 'h) run \<Rightarrow> ('c, 'h) run \<Rightarrow> bool" where
  "settled s t \<longleftrightarrow> (bt_ordered (proposals (fst s)) \<longrightarrow> bt_ordered (proposals (fst t)) \<and>
     pending_ids (fst t) + reported (snd t) = pending_ids (fst s) + reported (snd s))"

interpretation settling: state_relation settled
  by unfold_locales (auto simp: settled_def)

interpretation result_frame: core_frame "\<lambda>c c'. proposals c' = proposals c" "\<lambda>c e. result_of e = None"
proof
  show "result_of e = None" if "\<not> observed e" for e :: "'a effect" using that by (cases e) auto
qed (auto simp: watched_def)

interpretation results: core_footprint "\<lambda>c c'. proposals c' = proposals c" "\<lambda>c e. result_of e = None"
  by unfold_locales (auto simp: within_def release_round_def split: option.splits)

abbreviation unasked :: "('c, 'h) run \<Rightarrow> ('c, 'h) run \<Rightarrow> bool" where
  "unasked \<equiv> within (\<lambda>c c'. proposals c' = proposals c) (\<lambda>c e. result_of e = None)"

lemma unasked_settled: "unasked s t \<Longrightarrow> settled s t"
  by (auto simp: within_def settled_def pending_ids_def reported_none)

lemma keeps_settled: "keeps unasked m \<Longrightarrow> keeps settled m"
  unfolding keeps_def using unasked_settled by blast

lemma post_emit_all:
  "post (for_each xs (\<lambda>x. emit (f x))) s P = P (Ok ()) (fst s, snd s @ map f xs)"
  by (induction xs arbitrary: s) (simp_all add: post_simps)

lemma keeps_report_at: "keeps settled (report_at verdict i)"
  unfolding keeps_post
proof
  fix s :: "('a, 'b) run"
  have "reported (map (\<lambda>pid. ProposalResult pid v) ids) = mset ids" for v and ids :: "proposal_id list"
    by (induction ids) simp_all
  then show "post (report_at verdict i) s (\<lambda>_ t. settled s t)"
    using values_remove [of "proposals (fst s)" i]
    by (auto simp: report_at_def post_simps post_emit_all settled_def pending_ids_def split: option.splits)
qed

lemma keeps_settled_reports:
  "keeps settled (finish_apply through)" "keeps settled fail_uncommitted_proposals"
  by (auto simp: finish_apply_def fail_uncommitted_proposals_def
      intro!: keeps_self settling.keeps_for_each keeps_report_at)

lemma settled_propose:
  "post (on_propose pid cmd len) s (\<lambda>r t. is_ok r \<longrightarrow> bt_ordered (proposals (fst s)) \<longrightarrow> bt_ordered (proposals (fst t)) \<and>
     pending_ids (fst t) + reported (snd t) = add_mset pid (pending_ids (fst s) + reported (snd s)))"
  using values_insert [OF refl, of "proposals (fst s)" _ "[pid]"]
  by (auto simp: on_propose_def queue_persist_def next_effect_id_def post_simps chain_iff pending_ids_def reported_def List.map_filter_def
      simp del: block.simps)

text \<open>The rest of the handlers answers no proposal.\<close>

lemma keeps_unasked_assign: "(\<And>c. proposals (f c) = proposals c) \<Longrightarrow> keeps settled (assign f)"
  by (rule keeps_settled) (rule result_frame.stays_write)

lemma keeps_settled_continuation: "keeps settled (run_continuation k)"
proof (cases "grants_vote k")
  case True
  have "keeps unasked (send_vote_response to t grant)" for to t grant
    by (auto simp: send_vote_response_def keeps_post post_simps within_def)
  then show ?thesis
    using True by (cases k) (auto simp: run_continuation_def intro: keeps_settled)
next
  case False
  then show ?thesis by (intro keeps_settled results.stays_run_continuation)
qed

lemma keeps_settled_apply: "keeps settled (on_apply_completion pending i outcome)"
  by (auto simp: on_apply_completion_def Let_def intro!: settling.keeps_pure settling.keeps_block settling.keeps_bnd
      keeps_unasked_assign keeps_settled_reports keeps_settled [OF results.release_ok] keeps_settled [OF results.start_ok(2)]
      keeps_settled [OF result_frame.stays_emit_apply] keeps_settled [OF result_frame.stays_local_snapshots(2)]
      simp del: block.simps split: effect_outcome.splits)

lemma keeps_settled_persist: "keeps settled (on_persist_completion pending i outcome)"
  by (auto simp: on_persist_completion_def Let_def attempt_def intro!: settling.keeps_pure settling.keeps_block
      settling.keeps_bnd keeps_self keeps_unasked_assign keeps_settled_continuation simp del: block.simps split: option.splits)

lemma keeps_settled_effect_completed: "keeps settled (on_effect_completed sha i outcome)"
  by (auto simp: on_effect_completed_def on_barrier_completion_def intro!: settling.keeps_pure settling.keeps_bnd keeps_self
      keeps_unasked_assign keeps_settled_apply keeps_settled_persist
      keeps_settled [OF result_frame.stays_on_outgoing_snapshot_completion]
      keeps_settled [OF result_frame.stays_on_incoming_snapshot_completion]
      keeps_settled [OF result_frame.stays_on_snapshot_completion] split: option.splits)

lemma life_proposals: "proposals (record_completion i outcome c) = proposals c" "proposals (stop reason c) = proposals c"
  by (simp_all add: record_completion_def stop_def Let_def split_beta)

definition asked :: "'c event \<Rightarrow> proposal_id multiset" where
  "asked event = (case event of Propose pid _ _ \<Rightarrow> {#pid#} | _ \<Rightarrow> {#})"

lemma settled_other_event:
  assumes "\<And>pid cmd len. event \<noteq> Propose pid cmd len"
  shows "keeps settled (on_event sha event)"
proof (cases event)
  case (MessageReceived env)
  have "keeps unasked (on_message sha peer m)" for peer m
    by (intro results.stays_on_message results.stays_on_vote_request) simp_all
  then have "keeps settled (on_message sha peer m)" for peer m by (rule keeps_settled)
  then show ?thesis
    by (auto simp: MessageReceived on_event_def intro!: keeps_self settling.keeps_block settling.keeps_pure
        keeps_unasked_assign simp del: block.simps)
next
  case (EffectCompleted i outcome)
  then show ?thesis
    by (auto simp: on_event_def intro!: keeps_self settling.keeps_block settling.keeps_pure
        keeps_unasked_assign keeps_settled_effect_completed life_proposals simp del: block.simps)
next
  case (Tick k)
  then show ?thesis
    by (cases k) (auto simp: on_event_def intro: keeps_settled result_frame.stays_start_pre_vote
        result_frame.stays_on_heartbeat_tick)
next
  case (Read rid ctx)
  then show ?thesis by (auto simp: on_event_def intro: keeps_settled results.stays_on_read)
qed (use assms in \<open>auto simp: on_event_def intro!: keeps_settled [OF result_frame.stays_local_snapshots(1)]
    keeps_unasked_assign life_proposals\<close>)

lemma settled_on_event:
  "post (on_event sha event) s (\<lambda>r t. is_ok r \<longrightarrow> bt_ordered (proposals (fst s)) \<longrightarrow> bt_ordered (proposals (fst t)) \<and>
     pending_ids (fst t) + reported (snd t) = asked event + pending_ids (fst s) + reported (snd s))"
proof (cases "\<exists>pid cmd len. event = Propose pid cmd len")
  case True
  then obtain pid cmd len where "event = Propose pid cmd len" by blast
  then show ?thesis using settled_propose [of pid cmd len s] by (simp add: on_event_def asked_def)
next
  case False
  then have "keeps settled (on_event sha event)" and none: "asked event = {#}"
    by (auto intro!: settled_other_event simp: asked_def split: event.splits)
  from keeps_at [OF this(1), of s] show ?thesis by (auto simp: settled_def post_def none)
qed

lemma settled_step:
  fixes c :: "('c, 'h) raft_core"
  assumes "step sha c event = (Ok out, c')" "bt_ordered (proposals c)"
  shows "bt_ordered (proposals c') \<and>
    pending_ids c' + reported (out_effects out) = pending_ids c + asked event"
proof (cases "stopped c")
  case True
  then show ?thesis using assms
    by (auto simp: step_def step_stopped_def no_output_def rbind_Ok_iff asked_def split: event.splits)
next
  case False
  obtain r s where h: "handle sha event (c, []) = (r, s)" by (cases "handle sha event (c, [])")
  have ok: "is_ok r" and fin: "finish_step (role c) s = (Ok out, c')"
    using assms False h by (auto simp: step_def split_beta split: result.splits)
  have "post (handle sha event) (c, []) (\<lambda>r t. is_ok r \<longrightarrow> bt_ordered (proposals (fst t)) \<and>
      pending_ids (fst t) + reported (snd t) = asked event + pending_ids c)"
    unfolding handle_def post_block(2)
  proof (rule post_weaken [OF settled_on_event])
    fix r' :: "(unit, step_error) result" and t :: "('c, 'h) run"
    assume a: "is_ok r' \<longrightarrow> bt_ordered (proposals (fst (c, []))) \<longrightarrow> bt_ordered (proposals (fst t)) \<and>
      pending_ids (fst t) + reported (snd t) = asked event + pending_ids (fst (c, [])) + reported (snd (c, []))"
    have "keeps settled (block [emit_apply_if_needed :: ('c, 'h, unit) action])"
      by (rule settling.keeps_block) (simp add: keeps_settled [OF result_frame.stays_emit_apply])
    from keeps_at [OF this, of t] show "chain (\<lambda>_. block [emit_apply_if_needed]) (\<lambda>r t. is_ok r \<longrightarrow> bt_ordered (proposals (fst t)) \<and>
        pending_ids (fst t) + reported (snd t) = asked event + pending_ids c) r' t"
      using a assms(2) by (cases r') (auto simp: chain_simps post_def settled_def is_ok_def simp del: block.simps)
  qed
  then have s: "bt_ordered (proposals (fst s))" "pending_ids (fst s) + reported (snd s) = pending_ids c + asked event"
    using h ok by (auto dest: postD simp: ac_simps)
  moreover have "settled s (snd (fail_uncommitted_proposals s))"
    using keeps_settled_reports(2) unfolding keeps_def by blast
  ultimately show ?thesis
    using fin by (auto simp: finish_step_def settled_def fatal_def Let_def split_beta split: result.splits if_splits)
qed

section \<open>Runs\<close>

text \<open>The effects and the last core of a run whose steps all succeed.\<close>

fun replay :: "'h sha256 \<Rightarrow> ('c, 'h) raft_core \<Rightarrow> 'c event list \<Rightarrow> ('c effect list \<times> ('c, 'h) raft_core) option" where
  "replay sha c [] = Some ([], c)"
| "replay sha c (e # es) = (case step sha c e of
     (Ok out, c') \<Rightarrow> map_option (\<lambda>(fx, d). (out_effects out @ fx, d)) (replay sha c' es)
   | _ \<Rightarrow> None)"

lemma replay_Cons: "replay sha c (e # es) = Some (fx, d) \<longleftrightarrow>
    (\<exists>out c' gx. step sha c e = (Ok out, c') \<and> replay sha c' es = Some (gx, d) \<and> fx = out_effects out @ gx)"
  by (auto split: prod.splits result.splits)

lemma replay_settled:
  "replay sha c es = Some (fx, d) \<Longrightarrow> bt_ordered (proposals c) \<Longrightarrow>
   pending_ids d + reported fx = pending_ids c + sum_list (map asked es)"
proof (induction es arbitrary: c fx)
  case (Cons e es)
  then obtain out c' gx where s: "step sha c e = (Ok out, c')" and r: "replay sha c' es = Some (gx, d)"
    and fx: "fx = out_effects out @ gx" unfolding replay_Cons by blast
  have one: "pending_ids c' + reported (out_effects out) = pending_ids c + asked e"
    and rest: "pending_ids d + reported gx = pending_ids c' + sum_list (map asked es)"
    using settled_step [OF s Cons.prems(2)] Cons.IH [OF r] by auto
  have "pending_ids d + reported fx = (pending_ids d + reported gx) + reported (out_effects out)"
    by (simp add: fx)
  also have "\<dots> = (pending_ids c' + reported (out_effects out)) + sum_list (map asked es)"
    by (simp only: rest ac_simps)
  finally show ?case by (simp only: one list.map sum_list.Cons ac_simps)
qed simp

text \<open>
  C11: every proposal is answered once. Over any run of successful steps from a
  recovered core, the proposals that were answered and those still waiting are, with
  multiplicity, the proposals that were made: none is lost, and none is answered twice.
\<close>

theorem proposals_answered_once:
  assumes "core_new cfg recovered = Ok c0" "replay sha c0 events = Some (fx, c)"
  shows "reported fx + pending_ids c = sum_list (map asked events)"
proof -
  have "bt_ordered (proposals c0)" "pending_ids c0 = {#}"
    using assms(1) by (auto simp: core_new_def Let_def pending_ids_def bt_values_def)
  then show ?thesis using replay_settled [OF assms(2)] by (simp add: ac_simps)
qed

text \<open>A group of one node elects itself, accepts a proposal and applies it.\<close>

definition solo_config :: raft_config where
  "solo_config = sample_config\<lparr>cfg_members := [1], cfg_quorum := 1\<rparr>"

definition solo_events :: "unit event list" where
  "solo_events = Tick ElectionTick # map (\<lambda>n. EffectCompleted (EffectId 7 n) Persisted) [1, 2, 3] @
     [EffectCompleted (EffectId 7 4) (AppliedThrough 1), Propose 5 () 1] @
     map (\<lambda>n. EffectCompleted (EffectId 7 n) Persisted) [5, 6] @ [EffectCompleted (EffectId 7 7) (AppliedThrough 2)]"

definition solo_core :: "(unit, u8 list) raft_core" where
  "solo_core = sample_core\<lparr>config := solo_config, hard_state := hard_state_new 0 None 0,
     rlog := \<lparr>log_snapshot = None, log_entries = [], log_committed = 0, log_unstable = unstable_default\<rparr>,
     last_log_index := 0, last_log_term := 0, applied_index := 0\<rparr>"

lemma solo_new: "core_new solo_config \<lparr>rec_hard_state = hard_state_new 0 None 0, rec_snapshot = None, rec_entries = [],
     rec_format_version = format_version\<rparr> = Ok solo_core"
  by (simp add: core_new_def solo_core_def sample_defs Let_def from_recovered_def boundary_index_def boundary_term_def)

lemma solo_replay: "map_option fst (replay plain_sha solo_core solo_events) =
   Some [Persist (EffectId 7 1) (batch_of_hard_state (hard_state_new 1 (Some 1) 0)),
     Persist (EffectId 7 2) (batch_of_entries [noop_at 1 1]),
     Persist (EffectId 7 3) (batch_of_hard_state (hard_state_new 1 (Some 1) 1)),
     Apply (EffectId 7 4) [noop_at 1 1],
     Persist (EffectId 7 5) (batch_of_entries [\<lparr>entry_index = 2, entry_term = 1, encoded_len = 1, payload = Command ()\<rparr>]),
     Persist (EffectId 7 6) (batch_of_hard_state (hard_state_new 1 (Some 1) 2)),
     Apply (EffectId 7 7) [\<lparr>entry_index = 2, entry_term = 1, encoded_len = 1, payload = Command ()\<rparr>],
     ProposalResult 5 (Applied 2)]"
  by (simp add: core_eval solo_core_def solo_events_def solo_config_def less_effect_id_def less_eq_effect_id_def
      start_pending_reads.simps current_leader_noop_is_committed_def)

theorem proposals_answered_once_witness:
  "reported (fst (the (replay plain_sha solo_core solo_events))) +
   pending_ids (snd (the (replay plain_sha solo_core solo_events))) = {#5#}"
proof -
  obtain fx c where r: "replay plain_sha solo_core solo_events = Some (fx, c)"
    using solo_replay by (cases "replay plain_sha solo_core solo_events") auto
  from proposals_answered_once [OF solo_new this] show ?thesis
    by (simp add: r) (simp add: solo_events_def asked_def)
qed

end
