(* ===== verification/Core_Votes.thy ===== *)
theory Core_Votes
  imports Core_Footprint
begin

text \<open>
  Granted votes over a run of the core: a grant is sent once its vote is recorded,
  and in one term all grants go to one node.
\<close>

section \<open>Votes\<close>

definition promises :: "('c, 'h) raft_core \<Rightarrow> (node_id \<times> log_term) set" where
  "promises c = {(to, t). \<exists>p. pending_persist c = Some p \<and> continuation p = SendVoteResponse to t True}"

definition grants :: "'c effect list \<Rightarrow> (node_id \<times> log_term) set" where
  "grants fx = {(to, t). SendMessage to (VoteResponse t True) \<in> set fx}"

definition no_grant :: "'c effect \<Rightarrow> bool" where
  "no_grant e \<longleftrightarrow> (\<forall>to t. e \<noteq> SendMessage to (VoteResponse t True))"

interpretation ballot_frame: core_frame "\<lambda>c c'. promises c' \<subseteq> promises c" "\<lambda>c. no_grant"
proof
  fix e :: "'a effect"
  show "no_grant e" if "\<not> observed e" using that by (auto simp: no_grant_def)
next
  fix p and c :: "('a, 'b) raft_core"
  show "promises (c\<lparr>pending_persist := Some p\<rparr>) \<subseteq> promises c" if "\<not> grants_vote (continuation p)"
    using that by (auto simp: promises_def)
qed (auto simp: promises_def watched_def)

interpretation ballots: core_footprint "\<lambda>c c'. promises c' \<subseteq> promises c" "\<lambda>c. no_grant"
  by unfold_locales (auto simp: promises_def no_grant_def within_def release_round_def split: option.splits)

abbreviation silent :: "('c, 'h) run \<Rightarrow> ('c, 'h) run \<Rightarrow> bool" where
  "silent \<equiv> within (\<lambda>c c'. promises c' \<subseteq> promises c) (\<lambda>c. no_grant)"

lemma silent_promise: "promises (c\<lparr>proposals := v\<rparr>) \<subseteq> promises c" "promises (c\<lparr>applied_index := i\<rparr>) \<subseteq> promises c"
  "no_grant (ProposalResult pid verdict)"
  by (simp_all add: promises_def no_grant_def)

lemma keeps_silent:
  "keeps silent (finish_apply through)" "keeps silent fail_uncommitted_proposals"
  "keeps silent (on_propose pid cmd len)" "keeps silent (on_read rid)"
proof -
  show "keeps silent (finish_apply through)" "keeps silent fail_uncommitted_proposals"
    "keeps silent (on_propose pid cmd len)"
    by (rule ballot_frame.stays_reports ballot_frame.stays_on_propose; simp add: silent_promise)+
  show "keeps silent (on_read rid)"
    by (rule ballots.stays_on_read)
qed

lemma keeps_silent_apply: "keeps silent (on_apply_completion pending i outcome)"
proof -
  have "keeps silent (assign (\<lambda>c. c\<lparr>applied_index := through\<rparr>))" for through
    by (rule ballot_frame.stays_write) (rule silent_promise)
  then show ?thesis
    by (auto simp: on_apply_completion_def Let_def watched_def intro!: ballot_frame.keeps_pure ballot_frame.keeps_block
        ballot_frame.keeps_bnd ballot_frame.stays_assign [of "\<lambda>c. c\<lparr>pending_apply := _\<rparr>"]
        ballot_frame.stays_assign [of "\<lambda>c. c\<lparr>stopped := _\<rparr>"] keeps_silent
        ballots.release_ok ballots.start_ok ballot_frame.stays_emit_apply ballot_frame.stays_local_snapshots
        simp del: block.simps split: effect_outcome.splits)
qed

text \<open>Grants that are sent come out of promises.\<close>

definition owed :: "('c, 'h) run \<Rightarrow> ('c, 'h) run \<Rightarrow> bool" where
  "owed s t \<longleftrightarrow> promises (fst t) \<subseteq> promises (fst s) \<and> grants (snd t) \<subseteq> grants (snd s) \<union> promises (fst s)"

interpretation owing: state_relation owed
  by unfold_locales (auto simp: owed_def)

lemma silent_owed: "silent s t \<Longrightarrow> owed s t"
  by (auto simp: within_def owed_def grants_def no_grant_def) blast

lemma keeps_silent_owed: "keeps silent m \<Longrightarrow> keeps owed m"
  unfolding keeps_def using silent_owed by blast

lemma owed_persist_completion:
  assumes "pending_persist (fst s) = Some p"
  shows "post (on_persist_completion p i outcome) ((fst s)\<lparr>pending_persist := None\<rparr>, snd s) (\<lambda>_ t. owed s t)"
proof -
  let ?c = "(fst s)\<lparr>pending_persist := None\<rparr>"
  have run: "post (run_continuation (continuation p)) (?c\<lparr>rlog := l\<rparr>, snd s) (\<lambda>_ t. owed s t)" for l
  proof (cases "grants_vote (continuation p)")
    case True
    then show ?thesis using assms
      by (cases "continuation p")
         (auto simp: run_continuation_def send_vote_response_def post_simps owed_def promises_def grants_def)
  next
    case False
    have "owed s (?c\<lparr>rlog := l\<rparr>, snd s)" by (auto simp: owed_def promises_def)
    then show ?thesis
      using owing.post_keeps [OF keeps_silent_owed [OF ballots.stays_run_continuation [OF False]]] by blast
  qed
  moreover have "rlog (fst s) = rlog ?c" by simp
  moreover have "?c = ?c\<lparr>rlog := rlog ?c\<rparr>" by simp
  moreover have "owed s (?c, snd s)" "owed s (?c\<lparr>stopped := True\<rparr>, snd s)" "owed s (?c\<lparr>pending_persist := Some p\<rparr>, snd s)"
    using assms by (auto simp: owed_def promises_def)
  ultimately show ?thesis
    using run [of "rlog ?c"]
    by (auto simp: on_persist_completion_def post_simps Let_def chain_iff split: option.splits)
qed

lemma keeps_owed_effect_completed: "keeps owed (on_effect_completed sha i outcome)"
proof -
  have "keeps owed (on_barrier_completion i outcome :: ('a, 'b, unit) action)"
    unfolding keeps_post
  proof
    fix s :: "('a, 'b) run"
    have "owed s ((fst s)\<lparr>pending_apply := None\<rparr>, snd s)" by (auto simp: owed_def promises_def)
    then show "post (on_barrier_completion i outcome) s (\<lambda>_ t. owed s t)"
      by (auto simp: on_barrier_completion_def post_simps intro!: owed_persist_completion owing.rel_refl
          owing.post_keeps [OF keeps_silent_owed [OF keeps_silent_apply]] split: option.splits)
  qed
  then show ?thesis
    by (auto simp: on_effect_completed_def
        intro!: owing.keeps_pure owing.keeps_bnd keeps_self
          keeps_silent_owed [OF ballot_frame.stays_on_outgoing_snapshot_completion]
          keeps_silent_owed [OF ballot_frame.stays_on_incoming_snapshot_completion]
          keeps_silent_owed [OF ballot_frame.stays_on_snapshot_completion])
qed


text \<open>A vote that is recorded or was cast in an earlier term.\<close>

definition kept_vote :: "hard_state \<Rightarrow> node_id \<Rightarrow> log_term \<Rightarrow> bool" where
  "kept_vote hs to t \<longleftrightarrow> t < current_term hs \<or> t = current_term hs \<and> voted_for hs = Some to"

lemma kept_vote_mono: "kept_vote a to t \<Longrightarrow> hard_le a b \<Longrightarrow> kept_vote b to t"
  by (auto simp: kept_vote_def hard_le_def)

text \<open>The grants of a run so far, with those promised: each is kept, and no two of a
  term go to different nodes.\<close>

definition ballot :: "(node_id \<times> log_term) set \<Rightarrow> ('c, 'h) run \<Rightarrow> (node_id \<times> log_term) set" where
  "ballot past s = past \<union> grants (snd s) \<union> promises (fst s)"

definition pledged :: "(node_id \<times> log_term) set \<Rightarrow> ('c, 'h) run \<Rightarrow> bool" where
  "pledged past s \<longleftrightarrow> (\<forall>a t. (a, t) \<in> ballot past s \<longrightarrow> kept_vote (hard_state (fst s)) a t) \<and>
     (\<forall>a b t. (a, t) \<in> ballot past s \<longrightarrow> (b, t) \<in> ballot past s \<longrightarrow> a = b)"

lemma pledged_subset:
  assumes "pledged past s" "hard_le (hard_state (fst s)) (hard_state (fst t))" "ballot past' t \<subseteq> ballot past s"
  shows "pledged past' t"
  using assms kept_vote_mono [OF _ assms(2)] unfolding pledged_def by blast

lemma pledged_owed: "owed s t \<Longrightarrow> macros ev s t \<Longrightarrow> \<not> installing ev \<Longrightarrow> pledged past s \<Longrightarrow> pledged past t"
  by (rule pledged_subset [OF _ macros_vote]) (auto simp: owed_def ballot_def)

abbreviation pledge :: "(node_id \<times> log_term) set \<Rightarrow> ('c, 'h) run \<Rightarrow> ('c, 'h) run \<Rightarrow> bool" where
  "pledge past s t \<equiv> pledged past s \<longrightarrow> pledged past t"

interpretation pledges: state_relation "pledge past"
  by unfold_locales auto

text \<open>The causes under which a handler runs.\<close>

lemma heard_message: "\<exists>ev. heard ev peer m \<and> \<not> installing ev"
  by (rule exI [of _ "Some (MessageReceived \<lparr>env_cluster_id = 0, env_from = peer, env_to = 0, env_message = m\<rparr>)"])
    (simp add: heard_def installing_def completes_def)

lemma not_installing [simp]:
  "\<not> installing None" "\<not> installing (Some (Tick k))" "\<not> installing (Some (Propose pid cmd len))" "\<not> installing (Some (Read rid x))"
  by (simp_all add: installing_def completes_def)

lemma keeps_pledged:
  fixes m :: "('c, 'h, 'a) action"
  assumes "keeps owed m" "keeps (micros ev) m" "\<not> installing ev"
  shows "keeps (pledge past) m"
  unfolding keeps_def
proof (intro allI impI)
  fix s :: "('c, 'h) run"
  assume "pledged past s"
  moreover have "owed s (snd (m s))" "macros ev s (snd (m s))" using assms(1) keeps_micros_macros [OF assms(2)] unfolding keeps_def by blast+
  ultimately show "pledged past (snd (m s))" using pledged_owed assms(3) by blast
qed

text \<open>A vote request adds at most the vote it records.\<close>

lemma vote_request_grants:
  "post (on_vote_request peer t index log_t) s (\<lambda>_ u. \<forall>to n. (to, n) \<in> grants (snd u) \<union> promises (fst u) \<longrightarrow>
     (to, n) \<in> grants (snd s) \<union> promises (fst s) \<or>
     n = current_term (hard_state (fst u)) \<and> voted_for (hard_state (fst u)) = Some to)"
proof -
  obtain c fx where s: "s = (c, fx)" by (cases s)
  show ?thesis
    by (auto simp: on_vote_request_def send_vote_response_def queue_persist_def next_effect_id_def s
      post_simps Let_def chain_iff grants_def promises_def split: option.splits)
qed

lemma pledged_vote_request: "keeps (pledge past) (on_vote_request peer t index log_t)"
  unfolding keeps_def
proof (intro allI impI)
  fix s :: "('a, 'b) run"
  let ?u = "snd (on_vote_request peer t index log_t s)"
  let ?hs = "hard_state (fst ?u)"
  assume p: "pledged past s"
  obtain ev where ev: "heard ev peer (RequestVote t index log_t :: 'a message)" "\<not> installing ev" using heard_message by blast
  then have "macros ev s ?u"
    using keeps_micros_macros [OF keeps_on_vote_request] unfolding keeps_def by blast
  then have mono: "hard_le (hard_state (fst s)) ?hs" using ev(2) by (rule macros_vote)
  have new: "(to, n) \<in> ballot past s \<or> n = current_term ?hs \<and> voted_for ?hs = Some to"
    if "(to, n) \<in> ballot past ?u" for to n
    using vote_request_grants [of peer t index log_t s] that unfolding post_def ballot_def by blast
  have kept: "kept_vote ?hs to n" if "(to, n) \<in> ballot past s" for to n
    using p that kept_vote_mono [OF _ mono] unfolding pledged_def by blast
  have "kept_vote ?hs to n" if "(to, n) \<in> ballot past ?u" for to n
    using new [OF that] kept by (auto simp: kept_vote_def)
  moreover have "a = b" if a: "(a, n) \<in> ballot past ?u" and b: "(b, n) \<in> ballot past ?u" for a b n
    using new [OF a] new [OF b] kept [of a n] kept [of b n] p unfolding pledged_def kept_vote_def by auto
  ultimately show "pledged past ?u" unfolding pledged_def by blast
qed

lemma pledged_core: "promises c' = promises c \<Longrightarrow> hard_state c' = hard_state c \<Longrightarrow> pledged past (c', fx) = pledged past (c, fx)"
  by (simp add: pledged_def ballot_def)

lemma promises_life [simp]: "promises (record_completion i outcome c) = promises c" "promises (stop reason c) = promises c"
  by (simp_all add: promises_def record_completion_def stop_def Let_def split_beta)

lemma pledged_on_event:
  assumes "\<not> installs_snapshot event"
  shows "keeps (pledge past) (on_event sha event)"
proof (cases event)
  case (EffectCompleted i outcome)
  have "outcome \<noteq> SnapshotInstalled sid" for sid
    using assms by (auto simp: installs_snapshot_def EffectCompleted)
  then have "keeps (pledge past) (on_effect_completed sha i outcome)"
    by (intro keeps_pledged [where ev = "Some (EffectCompleted i outcome)"] keeps_owed_effect_completed keeps_on_effect_completed)
      (auto simp: completes_def installing_def)
  moreover have "keeps (pledge past) (assign (record_completion i outcome))"
    by (simp add: keeps_post post_simps pledged_core)
  ultimately show ?thesis
    by (auto simp: EffectCompleted on_event_def intro!: keeps_self pledges.keeps_block pledges.keeps_pure
        simp del: block.simps)
next
  case (MessageReceived env)
  have "keeps (pledge past) (on_message sha peer m)" for peer m
  proof (cases "\<exists>t index log_t. m = RequestVote t index log_t")
    case True
    then show ?thesis using pledged_vote_request by (auto simp: on_message_def)
  next
    case False
    obtain ev where ev: "heard ev peer m" "\<not> installing ev" using heard_message by blast
    show ?thesis
      by (rule keeps_pledged [OF keeps_silent_owed [OF ballots.stays_on_message] keeps_on_message [OF ev(1)] ev(2)]) (use False in auto)
  qed
  moreover have "keeps (pledge past) (assign (\<lambda>c. c\<lparr>active_members := x c\<rparr>))" for x
    by (simp add: keeps_post post_simps pledged_def ballot_def promises_def)
  ultimately show ?thesis
    by (auto simp: MessageReceived on_event_def intro!: keeps_self pledges.keeps_block pledges.keeps_pure
        simp del: block.simps)
next
  case (Tick k)
  then show ?thesis
    by (cases k) (auto simp: on_event_def intro!: keeps_pledged [where ev = "Some (Tick k)"] keeps_silent_owed
        keeps_start_pre_vote keeps_on_heartbeat_tick ballot_frame.stays_start_pre_vote ballot_frame.stays_on_heartbeat_tick)
next
  case Shutdown
  then show ?thesis by (simp add: on_event_def keeps_post post_simps pledged_core)
next
  case (Propose pid cmd len)
  then show ?thesis
    by (auto simp: on_event_def intro!: keeps_pledged [where ev = "Some event"] keeps_silent_owed keeps_silent keeps_on_propose)
next
  case (Read rid x)
  then show ?thesis
    by (auto simp: on_event_def intro!: keeps_pledged [where ev = "Some event"] keeps_silent_owed keeps_silent keeps_on_read [THEN keeps_steady])
next
  case SnapshotRequested
  then show ?thesis
    by (auto simp: on_event_def intro!: keeps_pledged [where ev = None] keeps_silent_owed keeps_silent
        keeps_request_local_snapshot [THEN keeps_steady] ballot_frame.stays_local_snapshots)
qed

lemma pledged_handle:
  assumes "\<not> installs_snapshot event"
  shows "keeps (pledge past) (handle sha event)"
proof -
  have "keeps (pledge past) emit_apply_if_needed"
    by (intro keeps_pledged [where ev = None] keeps_silent_owed ballot_frame.stays_emit_apply keeps_emit_apply [THEN keeps_steady]) simp
  then show ?thesis
    using pledged_on_event [OF assms] by (auto simp: handle_def intro!: pledges.keeps_block simp del: block.simps)
qed

lemma pledged_step:
  assumes "\<not> installs_snapshot event" "pledged past (c, [])" "step sha c event = (r, c')"
  shows "pledged past (c', case r of Ok out \<Rightarrow> out_effects out | _ \<Rightarrow> [])"
proof (cases "stopped c")
  case True
  then show ?thesis using assms(2,3)
    by (auto simp: step_def step_stopped_def no_output_def rbind_Ok_iff split: event.splits result.splits)
next
  case False
  obtain h d fx where h: "handle sha event (c, []) = (h, (d, fx))" by (metis prod.exhaust)
  have p: "pledged past (d, fx)"
    using pledged_handle [OF assms(1)] h assms(2) by (auto dest: keepsD)
  have less: "pledged past (e, [])" if "promises e = promises d" "hard_state e = hard_state d" for e
    by (rule pledged_subset [OF p]) (auto simp: that ballot_def grants_def)
  let ?u = "if role c = Leader \<and> role d \<noteq> Leader then snd (fail_uncommitted_proposals (d, fx)) else (d, fx)"
  have "keeps (pledge past) fail_uncommitted_proposals"
    by (intro keeps_pledged [where ev = None] keeps_silent_owed keeps_silent keeps_reports [THEN keeps_steady]) simp
  then have "pledged past (snd (fail_uncommitted_proposals (d, fx)))" using p unfolding keeps_def by blast
  then have u: "pledged past ?u" using p by simp
  then have "pledged past (e, [])" if "promises e = promises (fst ?u)" "hard_state e = hard_state (fst ?u)" for e
    by (rule pledged_subset) (auto simp: that ballot_def grants_def)
  then have "pledged past (c', case r of Ok out \<Rightarrow> out_effects out | _ \<Rightarrow> [])"
    if "finish_step (role c) (d, fx) = (r, c')"
    using that u by (auto simp: finish_step_def fatal_def Let_def split_beta split: result.splits)
  then show ?thesis
    using False assms(3) h less
    by (auto simp: step_def fatalize_def fatal_def split_beta split: result.splits step_error.splits)
qed

text \<open>Runs in which no snapshot installation completes.\<close>

inductive walk :: "'h sha256 \<Rightarrow> ('c, 'h) raft_core \<Rightarrow> ('c, 'h) raft_core \<Rightarrow> bool" for sha c0 where
  here: "walk sha c0 c0"
| onward: "walk sha c0 c \<Longrightarrow> \<not> installs_snapshot event \<Longrightarrow> step sha c event = (r, c') \<Longrightarrow> walk sha c0 c'"

lemma pledged_forget: "pledged past (c, fx) \<Longrightarrow> pledged (past \<union> grants fx) (c, [])"
  by (rule pledged_subset) (auto simp: ballot_def grants_def)

lemma pledged_walk: "walk sha c c' \<Longrightarrow> pledged past (c, []) \<Longrightarrow> pledged past (c', [])"
proof (induction rule: walk.induct)
  case (onward c event r c')
  then have "pledged past (c', case r of Ok out \<Rightarrow> out_effects out | _ \<Rightarrow> [])"
    using pledged_step by blast
  then show ?case by (rule pledged_subset) (auto simp: ballot_def grants_def)
qed

lemma pledged_new: "core_new cfg recovered = Ok c \<Longrightarrow> pledged {} (c, [])"
  by (auto simp: core_new_def Let_def pledged_def ballot_def grants_def promises_def)

text \<open>
  C3: a node votes for at most one candidate in a term. Over any run from a
  recovered core in which no snapshot installation completes, through failing steps
  too, two granted vote responses of the same term go to the same node.
\<close>

theorem one_grant_per_term:
  assumes "core_new cfg recovered = Ok c0" "walk sha c0 c"
    and "step sha c e1 = (Ok out1, c1)" "\<not> installs_snapshot e1" "walk sha c1 c2"
    and "step sha c2 e2 = (Ok out2, c3)" "\<not> installs_snapshot e2"
    and "SendMessage a (VoteResponse t True) \<in> set (out_effects out1)"
    and "SendMessage b (VoteResponse t True) \<in> set (out_effects out2)"
  shows "a = b"
proof -
  have "pledged {} (c1, out_effects out1)"
    using pledged_step [OF assms(4) pledged_walk [OF assms(2) pledged_new [OF assms(1)]] assms(3)] by simp
  then have "pledged (grants (out_effects out1)) (c2, [])"
    using pledged_walk [OF assms(5)] pledged_forget by fastforce
  then have "pledged (grants (out_effects out1)) (c3, out_effects out2)"
    using pledged_step [OF assms(7) _ assms(6)] by fastforce
  moreover have "(a, t) \<in> ballot (grants (out_effects out1)) (c3, out_effects out2)"
      "(b, t) \<in> ballot (grants (out_effects out1)) (c3, out_effects out2)"
    using assms(8,9) by (simp_all add: ballot_def grants_def)
  ultimately show ?thesis unfolding pledged_def by blast
qed

text \<open>A recovered core, and the same core after a vote request of term 3 from node 2.\<close>

definition sample_start :: "(unit, u8 list) raft_core" where
  "sample_start = sample_core\<lparr>hard_state := hard_state_new 2 None 1,
     rlog := \<lparr>log_snapshot = None, log_entries = [noop_at 1 1, noop_at 2 1], log_committed = 1,
              log_unstable = unstable_default\<rparr>,
     last_log_index := 2, last_log_term := 1, applied_index := 0\<rparr>"

lemma sample_start_new: "core_new sample_config sample_recovered = Ok sample_start"
  by (simp add: core_new_def sample_start_def sample_recovered_def sample_defs Let_def from_recovered_def boundary_index_def)

definition sample_asked :: "(unit, u8 list) raft_core" where
  "sample_asked = sample_start\<lparr>hard_state := hard_state_new 3 (Some 2) 1, next_effect_sequence := 1,
     pending_persist := Some \<lparr>persist_id = EffectId 7 1, stable_through = None,
       continuation = SendVoteResponse 2 3 True\<rparr>\<rparr>"

lemma sample_ask:
  "step plain_sha sample_start (from_peer 2 (RequestVote 3 9 2)) =
   (Ok \<lparr>out_effects = [Persist (EffectId 7 1) (batch_of_hard_state (hard_state_new 3 (Some 2) 1))],
      soft_state_changed = False\<rparr>, sample_asked)"
  by (simp add: core_eval sample_start_def sample_asked_def)

lemma sample_ask_again:
  "step plain_sha sample_asked (from_peer 2 (RequestVote 3 9 2)) =
   (Ok \<lparr>out_effects = [SendMessage 2 (VoteResponse 3 True)], soft_state_changed = False\<rparr>, sample_asked)"
  by (simp add: core_eval sample_start_def sample_asked_def)

lemma sample_answer:
  "step plain_sha sample_asked (EffectCompleted (EffectId 7 1) Persisted) =
   (Ok \<lparr>out_effects = [SendMessage 2 (VoteResponse 3 True), Apply (EffectId 7 2) [noop_at 1 1]],
      soft_state_changed = False\<rparr>, snd (step plain_sha sample_asked (EffectCompleted (EffectId 7 1) Persisted)))"
  by (simp add: core_eval sample_start_def sample_asked_def)

theorem one_grant_per_term_witness:
  "{b. SendMessage b (VoteResponse 3 True) \<in>
       set [SendMessage 2 (VoteResponse 3 True), Apply (EffectId 7 2) [noop_at 1 1]]} = {2}"
proof -
  have "walk plain_sha sample_start sample_asked"
    by (rule walk.onward [OF walk.here _ sample_ask]) (simp add: installs_snapshot_def from_peer_def)
  from one_grant_per_term [OF sample_start_new this sample_ask_again _ walk.here sample_answer, of 2 3]
  show ?thesis by (auto simp: installs_snapshot_def from_peer_def)
qed

end
