(* ===== verification/Core_Scenarios.thy ===== *)
theory Core_Scenarios
  imports Core_Votes
begin

text \<open>
  Concrete runs of the core in which the code does something its comments or its
  purpose rule out. Each run is evaluated step by step from a recovered core or from
  the state of a leader.
\<close>

section \<open>Driving a core\<close>

definition collect :: "('c step_output, step_error) result \<Rightarrow> 'c effect list" where
  "collect r = (case r of Ok out \<Rightarrow> out_effects out | _ \<Rightarrow> [])"

fun drive :: "'h sha256 \<Rightarrow> ('c, 'h) raft_core \<Rightarrow> 'c event list \<Rightarrow> 'c effect list \<times> ('c, 'h) raft_core" where
  "drive sha c [] = ([], c)"
| "drive sha c (e # es) = (let (r, c') = step sha c e; (fx, d) = drive sha c' es in (collect r @ fx, d))"

text \<open>A node that recovered an empty log in term 2, and a two-byte snapshot through
  index 4.\<close>

definition fresh_core :: "(unit, u8 list) raft_core" where
  "fresh_core = sample_core\<lparr>hard_state := hard_state_new 2 None 0,
     rlog := \<lparr>log_snapshot = None, log_entries = [], log_committed = 0, log_unstable = unstable_default\<rparr>,
     last_log_index := 0, last_log_term := 0, applied_index := 0\<rparr>"

definition short_snapshot :: snapshot_metadata where
  "short_snapshot = \<lparr>snap_id = 9, last_included_index = 4, last_included_term = 1, snap_members = [1, 2, 3],
     snap_size = 2, snap_digest = [6, 5]\<rparr>"

lemma fresh_core_new:
  "core_new sample_config \<lparr>rec_hard_state = hard_state_new 2 None 0, rec_snapshot = None, rec_entries = [],
     rec_format_version = format_version\<rparr> = Ok fresh_core"
  by (simp add: core_new_def fresh_core_def sample_defs Let_def from_recovered_def boundary_index_def boundary_term_def)

abbreviation finished :: "u64 \<Rightarrow> effect_outcome \<Rightarrow> 'c event" where
  "finished n outcome \<equiv> EffectCompleted (EffectId 7 n) outcome"

lemmas transfer_eval = on_install_snapshot_chunk_def accept_chunk_def receiver_new_def is_complete_and_valid_def
  receiver_record_def on_chunk_stored_def on_incoming_persisted_def on_incoming_installed_def install_now_def
  on_install_snapshot_response_def sender_new_def advance_def plain_sha_def u64_try_from_def

lemmas read_eval = on_read_def start_read_round.simps start_pending_reads.simps fresh_round_def read_round_new_def
  round_has_quorum_def send_read_heartbeats_def current_leader_noop_is_committed_def acknowledge_read_context_def
  acknowledge_def set_safe_index_def round_push_def request_count_def

lemmas run_eval = core_eval fresh_core_def short_snapshot_def collect_def transfer_eval read_eval
  boundary_index_def boundary_term_def less_effect_id_def less_eq_effect_id_def

section \<open>Runs\<close>

text \<open>A vote request that is repeated while the vote is still being persisted is granted at
  once, before the completion of the persist: a crash forgets a vote that was granted.\<close>

theorem vote_answered_before_durable:
  "fst (drive plain_sha fresh_core [from_peer 2 (RequestVote 3 0 0), from_peer 2 (RequestVote 3 0 0)]) =
   [Persist (EffectId 7 1) (batch_of_hard_state (hard_state_new 3 (Some 2) 0)),
    SendMessage 2 (VoteResponse 3 True)]"
  by (simp add: run_eval)

text \<open>The completion of a snapshot installation drops the vote of the current term, and the
  persisted batch before it already did: a node that voted for its leader installs the
  leader's snapshot and then grants another candidate its vote in the same term.\<close>

theorem two_votes_after_installation:
  "{SendMessage 2 (VoteResponse 3 True), SendMessage 3 (VoteResponse 3 True)} \<subseteq>
   set (fst (drive plain_sha fresh_core
     [from_peer 2 (RequestVote 3 0 0), finished 1 Persisted,
      from_peer 2 (InstallSnapshot 3 short_snapshot 0 [5, 6] True),
      finished 2 (SnapshotChunkStored 9 2 (Some [1])), finished 3 Persisted, finished 4 (SnapshotInstalled 9),
      from_peer 3 (RequestVote 3 9 2), finished 5 Persisted]))"
  by (simp add: run_eval)

text \<open>While an apply is outstanding, the completion of an outstanding persist is refused as an
  unknown effect.\<close>

theorem durable_batch_refused_during_apply:
  "let (fx, c) = drive plain_sha fresh_core
     [from_peer 2 (AppendEntries 3 0 0 1 None [noop_at 1 3]), finished 1 Persisted,
      from_peer 2 (AppendEntries 3 1 3 1 None [noop_at 2 3])]
   in {Apply (EffectId 7 2) [noop_at 1 3], Persist (EffectId 7 3) (batch_of_entries [noop_at 2 3])} \<subseteq> set fx \<and>
      fst (step plain_sha c (finished 3 Persisted)) = Err (Input UnknownEffect)"
  by (simp add: run_eval)

text \<open>A vote that arrives after the quorum, while the no-op is being persisted, appends a
  second no-op and replaces the pending persist: the completion of the first is refused.\<close>

theorem late_vote_appends_second_noop:
  "let (fx, c) = drive plain_sha fresh_core
     [Tick ElectionTick, from_peer 2 (PreVoteResponse 2 True), finished 1 Persisted,
      from_peer 2 (VoteResponse 3 True), from_peer 3 (VoteResponse 3 True)]
   in log_entries (rlog c) = [noop_at 1 3, noop_at 2 3] \<and>
      fst (step plain_sha c (finished 2 Persisted)) = Err (Input UnknownEffect)"
  by (simp add: run_eval)

text \<open>An apply that completes after a snapshot was installed sets the applied index back below
  the snapshot boundary. This step and every later one fail.\<close>

theorem applied_index_regresses:
  "let (fx, c) = drive plain_sha fresh_core
     [from_peer 2 (AppendEntries 3 0 0 1 None [noop_at 1 3]), finished 1 Persisted,
      from_peer 2 (InstallSnapshot 3 short_snapshot 0 [5, 6] True),
      finished 3 (SnapshotChunkStored 9 2 (Some [1])), finished 4 Persisted, finished 5 (SnapshotInstalled 9)];
     (r, d) = step plain_sha c (finished 2 (AppliedThrough 1))
   in applied_index c = 4 \<and> applied_index d = 1 \<and> r = Err (Log (Compacted 2 4)) \<and>
      fst (step plain_sha d (Tick ElectionTick)) = Err (Log (Compacted 2 4))"
  by (simp add: run_eval)

text \<open>The leader of five nodes that all hold its log.\<close>

definition five_leader :: "(unit, u8 list) raft_core" where
  "five_leader = sample_leader\<lparr>config := sample_config\<lparr>cfg_members := [1, 2, 3, 4, 5], cfg_quorum := 3\<rparr>,
     hard_state := hard_state_new 2 (Some 1) 3, rlog := sample_log\<lparr>log_committed := 3\<rparr>, applied_index := 3,
     progress := map (\<lambda>n. (n, (progress_new 4 4)\<lparr>match_index := 3, progress_state := Replicate\<rparr>)) [2, 3, 4, 5]\<rparr>"

text \<open>A read that joins a round in flight is released by acknowledgements that were received
  before it was requested.\<close>

theorem read_joins_earlier_acknowledgements:
  "let ctx = read_context_of 2 1;
       (_, c) = drive plain_sha five_leader
         [Read 1 [], from_peer 2 (AppendEntriesResponse 2 True 3 None (Some ctx)), Read 2 []]
   in {ReadReady 1 3, ReadReady 2 3} \<subseteq>
        set (fst (drive plain_sha c [from_peer 3 (AppendEntriesResponse 2 True 3 None (Some ctx))]))"
  by (simp add: run_eval five_leader_def)

text \<open>An acknowledgement of what is already known makes the leader send another empty append,
  which the follower acknowledges again.\<close>

theorem idle_replication_never_settles:
  "fst (drive plain_sha five_leader [from_peer 2 (AppendEntriesResponse 2 True 3 None None)]) =
     [SendMessage 2 (AppendEntries 2 3 2 3 None [])] \<and>
   fst (drive plain_sha (sample_core\<lparr>hard_state := hard_state_new 2 (Some 2) 3,
       rlog := sample_log\<lparr>log_committed := 3\<rparr>, applied_index := 3\<rparr>)
       [from_peer 2 (AppendEntries 2 3 2 3 None [])]) =
     [SendMessage 2 (AppendEntriesResponse 2 True 3 None None)]"
  by (simp add: run_eval five_leader_def)

text \<open>A leader with a snapshot through index 4 whose follower 3 needs it.\<close>

definition sending_leader :: "(unit, u8 list) raft_core" where
  "sending_leader = sample_leader\<lparr>hard_state := hard_state_new 2 (Some 1) 4,
     rlog := \<lparr>log_snapshot = Some \<lparr>metadata = short_snapshot, body_ref = [1]\<rparr>, log_entries = [noop_at 5 2],
              log_committed = 4, log_unstable = unstable_default\<rparr>,
     last_log_index := 5, applied_index := 4, snapshot_index := 4,
     progress := [(2, (progress_new 6 4)\<lparr>match_index := 5, progress_state := Replicate\<rparr>), (3, progress_new 2 4)],
     leader_noop_index := Some 5\<rparr>"

text \<open>An InstallSnapshotResponse that arrives while a chunk is being read removes the sender,
  and the completion of the read panics.\<close>

theorem early_install_response_panics:
  "let (fx, c) = drive plain_sha sending_leader [Tick HeartbeatTick, from_peer 3 (InstallSnapshotResponse 2 True)]
   in fst (step plain_sha c (finished 1 (SnapshotChunkRead 9 0 [5, 6] True))) = Panic"
  by (simp add: run_eval sending_leader_def)

text \<open>The batch that makes a received snapshot durable carries the term of the transfer, not the
  current one: if the node has moved to a newer term and voted there in the meantime, the
  batch writes the older term without the vote.\<close>

theorem snapshot_batch_lowers_durable_term:
  "let (fx, c) = drive plain_sha fresh_core
     [from_peer 2 (InstallSnapshot 3 short_snapshot 0 [5, 6] True),
      from_peer 3 (RequestVote 4 0 0), finished 2 Persisted,
      finished 1 (SnapshotChunkStored 9 2 (Some [1]))]
   in hard_state c = hard_state_new 4 (Some 3) 0 \<and> SendMessage 3 (VoteResponse 4 True) \<in> set fx \<and>
      last fx = Persist (EffectId 7 3) \<lparr>batch_hard_state = Some (hard_state_new 3 None 4), batch_entries = [],
        batch_snapshot = Some \<lparr>metadata = short_snapshot, body_ref = [1]\<rparr>\<rparr>"
  by (simp add: run_eval)

text \<open>The leader sends the chunks of a snapshot without waiting for the follower. A second
  chunk replaces the pending store of the first, whose completion is then refused.\<close>

theorem chunk_store_forgotten:
  "let (fx, c) = drive plain_sha fresh_core
     [from_peer 2 (InstallSnapshot 3 short_snapshot 0 [5] False),
      from_peer 2 (InstallSnapshot 3 short_snapshot 1 [6] True)]
   in {StoreSnapshotChunk (EffectId 7 1) short_snapshot 0 [5], StoreSnapshotChunk (EffectId 7 2) short_snapshot 1 [6]} \<subseteq> set fx \<and>
      fst (step plain_sha c (finished 1 (SnapshotChunkStored 9 1 None))) = Err (Input UnknownEffect)"
  by (simp add: run_eval)

text \<open>A leader that steps down keeps its snapshot senders, and the completion of a chunk read does
  not look at the role: the node sends InstallSnapshot in the new term, in which it voted for
  another node and leads nothing.\<close>

theorem stepped_down_sender_claims_term:
  "let (_, c) = drive plain_sha sending_leader [Tick HeartbeatTick, from_peer 2 (RequestVote 3 9 2), finished 2 Persisted]
   in role c = Follower \<and> hard_state c = hard_state_new 3 (Some 2) 4 \<and>
      fst (drive plain_sha c [finished 1 (SnapshotChunkRead 9 0 [5, 6] True)]) =
        [SendMessage 3 (InstallSnapshot 3 short_snapshot 0 [5, 6] True)]"
  by (simp add: run_eval sending_leader_def)

text \<open>A leader that steps down on a vote request of a higher term keeps its read round. When it
  leads again, new reads join that round, whose heartbeats were sent in the old term and are
  not sent again: nothing is emitted for them.\<close>

theorem dead_round_adopts_reads:
  "let (_, c) = drive plain_sha five_leader
     [Read 1 [], from_peer 2 (RequestVote 3 9 2), finished 1 Persisted,
      Tick ElectionTick, from_peer 2 (PreVoteResponse 3 True), from_peer 3 (PreVoteResponse 3 True), finished 2 Persisted,
      from_peer 2 (VoteResponse 4 True), from_peer 3 (VoteResponse 4 True), finished 3 Persisted,
      from_peer 2 (AppendEntriesResponse 4 True 4 None None), from_peer 3 (AppendEntriesResponse 4 True 4 None None),
      finished 4 Persisted, finished 5 (AppliedThrough 4)];
      (r, d) = step plain_sha c (Read 2 [])
   in role c = Leader \<and> commit_index (hard_state c) = 4 \<and> applied_index c = 4 \<and> collect r = [] \<and>
      map_option round_context (read_round d) = Some (read_context_of 2 1) \<and>
      map_option requests (read_round d) = Some [1, 2]"
  by (simp add: run_eval five_leader_def)

end
