(* ===== verification/Core_Batches.thy ===== *)
theory Core_Batches
  imports Core_Samples
begin

text \<open>
  The batches of \<open>RaftCore::replication_batch\<close>: how many entries, and which, go into one
  AppendEntries message.
\<close>

section \<open>Batches\<close>

text \<open>The size of a batch, without the saturation of the 64-bit sum.\<close>

definition total_size :: "'c entry list \<Rightarrow> nat" where
  "total_size es = sum_list (map (\<lambda>e. unat (encoded_len e)) es)"

text \<open>A batch within the limits: at most \<open>max_entries\<close> entries, and more than one entry
  only within \<open>max_bytes\<close>. Sizes are added with saturation.\<close>

definition fits :: "usize \<Rightarrow> usize \<Rightarrow> 'c entry list \<Rightarrow> bool" where
  "fits max_entries max_bytes es \<longleftrightarrow> length es \<le> unat max_entries \<and>
     (length es \<le> 1 \<or> min (total_size es) (2 ^ 64 - 1) \<le> unat max_bytes)"

lemma total_size_simps [simp]: "total_size [] = 0" "total_size (es @ fs) = total_size es + total_size fs"
  "total_size (e # es) = unat (encoded_len e) + total_size es"
  by (simp_all add: total_size_def)

lemma fits_Nil [simp]: "fits max_entries max_bytes []"
  by (simp add: fits_def)

lemma batch_loop_spec:
  assumes "unat bytes = min (total_size batch) (2 ^ 64 - 1)" "length batch < unat max_entries" "fits max_entries max_bytes batch"
  shows "\<exists>n \<le> length es. batch_loop max_entries max_bytes batch bytes es = batch @ take n es \<and>
    fits max_entries max_bytes (batch @ take n es) \<and> (es \<noteq> [] \<and> batch = [] \<longrightarrow> n \<noteq> 0) \<and>
    (n = length es \<or> \<not> fits max_entries max_bytes (batch @ take (Suc n) es))"
  using assms
proof (induction es arbitrary: batch bytes)
  case (Cons e es)
  let ?next = "saturating_add bytes (encoded_len e)"
  have sat: "unat ?next = min (total_size (batch @ [e])) (2 ^ 64 - 1)"
    using Cons.prems(1) by (simp add: unat_saturating_add)
  show ?case
  proof (cases "batch \<noteq> [] \<and> ?next > max_bytes")
    case True
    then have "\<not> fits max_entries max_bytes (batch @ [e])"
      using sat by (cases batch) (auto simp: fits_def u64_less_iff)
    then show ?thesis
      using True Cons.prems by (intro exI [of _ 0]) (auto simp: Let_def)
  next
    case False
    then have fit: "fits max_entries max_bytes (batch @ [e])"
      using Cons.prems(2,3) sat by (cases batch) (auto simp: fits_def u64_less_iff)
    show ?thesis
    proof (cases "length (batch @ [e]) = unat max_entries")
      case True
      then have "\<not> fits max_entries max_bytes (batch @ e # take 1 es)" if "es \<noteq> []"
        using that by (cases es) (auto simp: fits_def)
      then show ?thesis
        using True False fit Cons.prems(2) by (intro exI [of _ "Suc 0"]) (auto simp: Let_def)
    next
      case False': False
      then have "length (batch @ [e]) < unat max_entries" using Cons.prems(2) by simp
      from Cons.IH [OF sat this fit] obtain n where n: "n \<le> length es"
        "batch_loop max_entries max_bytes (batch @ [e]) ?next es = (batch @ [e]) @ take n es"
        "fits max_entries max_bytes ((batch @ [e]) @ take n es)"
        "n = length es \<or> \<not> fits max_entries max_bytes ((batch @ [e]) @ take (Suc n) es)" by blast
      then show ?thesis
        using False False' Cons.prems(2) by (intro exI [of _ "Suc n"]) (auto simp: Let_def)
    qed
  qed
qed (simp add: fits_def)

text \<open>
  C22: a replication batch is the longest run of the log from the follower's next index
  that respects the limits of one message: the entries are the log's at those indexes,
  their number and their total size stay within the limits, a single entry is sent
  even if it is too large, and one more entry would not fit.
\<close>

theorem replication_batch_bounds:
  assumes "log_wf (rlog c)" "cfg_max_entries_per_rpc (config c) \<noteq> 0"
    and "base (rlog c) < unat start" "start \<le> last_index (rlog c)"
  shows "\<exists>es rest. replication_batch c start = Ok es \<and> es \<noteq> [] \<and>
    log_range (rlog c) start (last_index (rlog c)) = Ok (es @ rest) \<and>
    (\<forall>k < length es. view (rlog c) (unat start + k) = Some (es ! k)) \<and>
    fits (cfg_max_entries_per_rpc (config c)) (cfg_max_bytes_per_rpc (config c)) es \<and>
    (rest = [] \<or> \<not> fits (cfg_max_entries_per_rpc (config c)) (cfg_max_bytes_per_rpc (config c)) (es @ [hd rest]))"
proof -
  let ?max = "cfg_max_entries_per_rpc (config c)" and ?bytes = "cfg_max_bytes_per_rpc (config c)"
  have "unat (last_index (rlog c)) = log_end (rlog c)" using assms(1) by (rule unat_last_index)
  then obtain all where all: "log_range (rlog c) start (last_index (rlog c)) = Ok all"
    using assms by (auto simp: log_range_Ok_iff)
  then have ne: "all \<noteq> []" using log_range_nth(1) [OF assms(1)] assms(4) by (fastforce simp: u64_le_iff)
  have "0 < unat ?max" using assms(2) by (simp add: unat_gt_0)
  then obtain n where n: "n \<le> length all" "batch_loop ?max ?bytes [] 0 all = take n all"
    "fits ?max ?bytes (take n all)" "n \<noteq> 0" "n = length all \<or> \<not> fits ?max ?bytes (take (Suc n) all)"
    using batch_loop_spec [of 0 "[]" ?max ?bytes all] ne fits_Nil by auto
  have "replication_batch c start = Ok (take n all)"
    using all n(2) assms(4) by (simp add: replication_batch_def u64_less_iff u64_le_iff)
  moreover have "take (Suc n) all = take n all @ [hd (drop n all)]" if "n < length all"
    using that by (simp add: take_hd_drop)
  ultimately show ?thesis
    using n ne all log_range_nth(2) [OF assms(1) all]
    by (intro exI [of _ "take n all"] exI [of _ "drop n all"]) (auto simp: le_less)
qed

theorem replication_batch_bounds_witness:
  "\<exists>es rest. replication_batch sample_leader 1 = Ok es \<and> es \<noteq> [] \<and> fits 2 64 es \<and>
     log_range sample_log 1 3 = Ok (es @ rest)"
proof -
  have "log_wf (rlog sample_leader)" using sample_log_inv by (simp add: log_inv_def sample_leader_def sample_core_def)
  moreover have "last_index sample_log = 3" by (simp add: log_eval sample_log_def noop_at_def)
  ultimately show ?thesis
    using replication_batch_bounds [of sample_leader 1]
    by (auto simp: sample_leader_def sample_core_def sample_config_def sample_log_def u64_le_iff)
qed

end
