(* ===== verification/Snapshot_Transfer.thy ===== *)
theory Snapshot_Transfer
  imports Protocol_Helpers
begin

text \<open>
  The sender and the receiver of \<open>raft/snapshot.rs\<close> together: a body that is sent in
  chunks arrives.
\<close>

section \<open>Transfer\<close>

text \<open>The sender's and the receiver's side of one transfer without losses: every chunk is sent
  at the sender's cursor, which moves on (\<open>on_outgoing_snapshot_completion\<close>), and is taken in by the
  receiver (\<open>on_install_snapshot_chunk\<close>); the last chunk carries the flag.\<close>

fun transfer :: "'h sha256 \<Rightarrow> snapshot_sender \<Rightarrow> 'h snapshot_receiver \<Rightarrow> u8 list list \<Rightarrow>
    (snapshot_sender \<times> 'h snapshot_receiver, unit) result" where
  "transfer sha s r [] = Ok (s, r)"
| "transfer sha s r (bytes # rest) = rbind (advance s (length bytes)) (\<lambda>s'.
     rbind (accept_chunk sha r (send_offset s) bytes (rest = [])) (\<lambda>(r', _). transfer sha s' r' rest))"

lemma advance_Ok:
  assumes "unat (send_offset s) + bytes < 2 ^ 64"
  shows "advance s bytes = Ok (s\<lparr>send_offset := send_offset s + of_nat bytes\<rparr>) \<and>
    unat (send_offset s + of_nat bytes) = unat (send_offset s) + bytes"
proof -
  have "u64_try_from bytes = Some (of_nat bytes)" "unat (of_nat bytes :: u64) = bytes"
    using assms by (simp_all add: u64_try_from_def unat_of_nat_u64)
  then show ?thesis using assms by (simp add: advance_def checked_add_def unat_add_u64)
qed

lemma transfer_completes:
  assumes "received sha m r body" "sha_streams sha" "send_offset s = next_offset r" "\<not> final_chunk r"
    and "length body + length (concat chunks) = unat (snap_size m)" "chunks \<noteq> []"
  shows "\<exists>s' r'. transfer sha s r chunks = Ok (s', r') \<and> received sha m r' (body @ concat chunks) \<and>
    final_chunk r' \<and> send_offset s' = snap_size m \<and> send_snapshot s' = send_snapshot s"
  using assms
proof (induction chunks arbitrary: s r body)
  case (Cons bytes chunks)
  let ?off = "next_offset r + of_nat (length bytes)"
  let ?r = "r\<lparr>hasher := sha_update sha (hasher r) bytes, next_offset := ?off,
    last_chunk := Some (next_offset r, bytes), final_chunk := (chunks = [])\<rparr>"
  have r: "rcv_metadata r = m" "unat (next_offset r) = length body"
    using received_inv [OF Cons.prems(1,2)] by simp_all
  then have "unat (send_offset s) + length bytes < 2 ^ 64"
    using Cons.prems(3,5) u64_bound [of "snap_size m"] by simp
  note adv = advance_Ok [OF this]
  have acc: "accept_chunk sha r (next_offset r) bytes (chunks = []) = Ok (?r, True)"
    using Cons.prems(4,5) r by (simp add: accept_chunk_Ok)
  have after: "received sha m ?r (body @ bytes)" using received.chunk [OF Cons.prems(1) acc] by simp
  show ?case
  proof (cases "chunks = []")
    case True
    moreover have "?off = snap_size m"
      using adv r Cons.prems(3,5) True by (simp add: word_unat_eq_iff)
    ultimately show ?thesis using adv acc after Cons.prems(3) by simp
  next
    case False
    then show ?thesis
      using Cons.IH [OF after Cons.prems(2), of "s\<lparr>send_offset := ?off\<rparr>"] adv acc Cons.prems(3,5) by simp
  qed
qed simp

text \<open>
  C24: a snapshot survives its transfer. However a body of the advertised size and
  digest is cut into chunks, the chunks sent at the sender's offsets are all accepted,
  the receiver has taken in the body byte for byte, declares it complete and valid,
  and the record it makes is the one that was sent.
\<close>

theorem snapshot_transfer_roundtrip:
  assumes "sha_streams sha" "chunks \<noteq> []" "length (concat chunks) = unat (snap_size (metadata rec))"
    and "sha_finalize sha (sha_update sha (sha_new sha) (concat chunks)) = snap_digest (metadata rec)"
  shows "\<exists>s r. transfer sha (sender_new rec) (receiver_new sha (metadata rec)) chunks = Ok (s, r) \<and>
    received sha (metadata rec) r (concat chunks) \<and> is_complete_and_valid sha r \<and>
    receiver_record r (body_ref rec) = send_snapshot s \<and> send_snapshot s = rec \<and> send_offset s = snap_size (metadata rec)"
proof -
  have "send_offset (sender_new rec) = next_offset (receiver_new sha (metadata rec))" "\<not> final_chunk (receiver_new sha (metadata rec))"
    by (simp_all add: sender_new_def receiver_new_def)
  from transfer_completes [OF received.start assms(1) this, of chunks] assms(2,3) obtain s r
    where t: "transfer sha (sender_new rec) (receiver_new sha (metadata rec)) chunks = Ok (s, r)"
      "received sha (metadata rec) r (concat chunks)" "final_chunk r" "send_offset s = snap_size (metadata rec)" "send_snapshot s = rec"
    by (auto simp: sender_new_def)
  moreover have "is_complete_and_valid sha r" "rcv_metadata r = metadata rec"
    using received_inv [OF t(2) assms(1)] t(3) assms(3,4) by (auto simp: is_complete_and_valid_def word_unat_eq_iff)
  ultimately show ?thesis by (auto simp: receiver_record_def)
qed

theorem snapshot_transfer_roundtrip_witness:
  "\<exists>s r. transfer plain_sha (sender_new \<lparr>metadata = two_bytes, body_ref = [1]\<rparr>)
      (receiver_new plain_sha two_bytes) [[8], [9]] = Ok (s, r) \<and>
    is_complete_and_valid plain_sha r"
  using snapshot_transfer_roundtrip [of plain_sha "[[8], [9]]" "\<lparr>metadata = two_bytes, body_ref = [1]\<rparr>"]
  by (auto simp: sha_streams_def plain_sha_def two_bytes_def)

end
