(* ===== verification/Log_Links.thy ===== *)
theory Log_Links
  imports Log_Refinement
begin

text \<open>
  A log as a set of links. A link is an entry together with the term of the entry before it;
  it is what AppendEntries carries and what the prefix check compares. The operations of the
  log only drop links, add the link of an appended entry or take over those of a leader's
  batch. Two logs whose links come from one coherent set, in which index and term determine
  the link, agree below every entry they share: the Log Matching property of Raft.
\<close>

section \<open>Links\<close>

definition links :: "'c raft_log \<Rightarrow> (log_term \<times> 'c entry) set" where
  "links l = {(term_of l (i - 1), e) |i e. view l i = Some e}"

fun joints :: "log_term \<Rightarrow> 'c entry list \<Rightarrow> (log_term \<times> 'c entry) set" where
  "joints p [] = {}"
| "joints p (e # es) = insert (p, e) (joints (entry_term e) es)"

definition coherent :: "(log_term \<times> 'c entry) set \<Rightarrow> bool" where
  "coherent G \<longleftrightarrow> (\<forall>(p, e) \<in> G. \<forall>(q, f) \<in> G.
     entry_index e = entry_index f \<longrightarrow> entry_term e = entry_term f \<longrightarrow> p = q \<and> e = f)"

lemma linksI: "view l i = Some e \<Longrightarrow> (term_of l (i - 1), e) \<in> links l"
  by (auto simp: links_def)

lemma links_unchanged [simp]: "links (l\<lparr>log_committed := c\<rparr>) = links l" "links (l\<lparr>log_unstable := u\<rparr>) = links l"
  by (simp_all add: links_def)

lemma links_index: "log_wf l \<Longrightarrow> (p, e) \<in> links l \<Longrightarrow> unat (entry_index e) \<le> log_end l"
  using view_index by (fastforce simp: links_def view_Some_iff)

lemma term_of_view: "view l i = Some e \<Longrightarrow> view m i = Some f \<Longrightarrow> entry_term e = entry_term f \<Longrightarrow> term_of l i = term_of m i"
  using view_term_of by metis

section \<open>Operations\<close>

lemma joints_nth: "k < length es \<Longrightarrow> (if k = 0 then p else entry_term (es ! (k - 1)), es ! k) \<in> joints p es"
proof (induction es arbitrary: p k)
  case (Cons e es)
  then show ?case using Cons.IH [of "k - 1" "entry_term e"] by (cases k) (auto simp: nth_Cons')
qed simp

text \<open>What lies above an index is replaced.\<close>

lemma links_replace:
  assumes "log_snapshot l' = log_snapshot l" "log_entries l' = take (b - base l) (log_entries l) @ new"
    and "base l \<le> b" "b \<le> log_end l"
  shows "links l' \<subseteq> links l \<union> joints (term_of l b) new"
proof
  fix x assume "x \<in> links l'"
  then obtain i e where x: "x = (term_of l' (i - 1), e)" "view l' i = Some e" by (auto simp: links_def)
  have ends: "base l' = base l" "log_end l' = b + length new" "length (take (b - base l) (log_entries l)) = b - base l"
    using assms by (auto simp: log_end_def)
  have below: "term_of l' j = term_of l j" if "base l \<le> j" "j \<le> b" for j
    using that assms(1,2) ends(3) by (auto simp: term_of_def nth_append)
  show "x \<in> links l \<union> joints (term_of l b) new"
  proof (cases "i \<le> b")
    case True
    then have "view l i = Some e" using x(2) assms ends by (auto simp: view_Some_iff nth_append)
    moreover have "term_of l' (i - 1) = term_of l (i - 1)" by (rule below) (use True x(2) ends(1) in \<open>auto simp: view_Some_iff\<close>)
    ultimately show ?thesis using linksI [of l i e] x(1) by simp
  next
    case False
    then have "i - b - 1 < length new" "b < i" using x(2) ends by (auto simp: view_Some_iff)
    then obtain k where k: "i = b + 1 + k" "k < length new" using that [of "i - b - 1"] by simp
    have e: "e = new ! k" using x(2) k assms(2,3) ends by (auto simp: view_Some_iff nth_append)
    have "term_of l' (i - 1) = (if k = 0 then term_of l b else entry_term (new ! (k - 1)))"
      using below [of b] k assms(2,3) ends by (auto simp: term_of_def nth_append)
    then show ?thesis using joints_nth [OF k(2), of "term_of l b"] x(1) e by simp
  qed
qed

lemma links_append:
  assumes "log_wf l" "log_append l [e] = Ok l'"
  shows "links l' \<subseteq> insert (term_of l (log_end l), e) (links l)" "log_wf l'" "log_end l' = log_end l + 1"
    "unat (entry_index e) = log_end l + 1"
proof -
  show "log_wf l'" using assms by (rule log_append_wf)
  have l': "log_snapshot l' = log_snapshot l" "log_entries l' = log_entries l @ [e]" "unat (entry_index e) = log_end l + 1"
    using assms by (auto simp: log_append_Ok_iff contiguous_Cons)
  then show "log_end l' = log_end l + 1" "unat (entry_index e) = log_end l + 1" by (simp_all add: log_end_def)
  show "links l' \<subseteq> insert (term_of l (log_end l), e) (links l)"
    using links_replace [of l' l "log_end l" "[e]"] l' by (auto simp: log_end_def)
qed

lemma links_compact:
  assumes "log_wf l" "compact l r = Ok l'"
  shows "links l' \<subseteq> links l" "log_wf l'" "log_end l' = log_end l"
proof -
  have r: "base l \<le> unat (record_index r)" "unat (record_index r) \<le> log_end l"
      "record_term r = term_of l (unat (record_index r))" "l' = rebase l r"
    using assms by (auto simp: compact_Ok_iff)
  note re = rebase_wf [OF assms(1) r(1-3)]
  show wf: "log_wf l'" using re(1) r(4) by simp
  have b: "base l' = unat (record_index r)" "boundary_term (log_snapshot l') = record_term r"
    using r(4) by (simp_all add: rebase_def boundary_index_def boundary_term_def)
  show ends: "log_end l' = log_end l" using r b by (simp add: log_end_def) (simp add: rebase_def)
  have "term_of l' i = term_of l i" if "unat (record_index r) \<le> i" "i \<le> log_end l" for i
    using that r b by (auto simp: term_of_def rebase_def log_end_def)
  then show "links l' \<subseteq> links l"
    using re(2) r(4) ends by (fastforce simp: links_def view_Some_iff [of l] split: if_splits)
qed

lemma splice_entries: "log_snapshot (splice_log l b new) = log_snapshot l"
    "log_entries (splice_log l b new) = take (b - base l) (log_entries l) @ new"
  by (simp_all add: splice_log_def)

lemma joints_drop:
  "n \<le> length es \<Longrightarrow> joints (if n = 0 then p else entry_term (es ! (n - 1))) (drop n es) \<subseteq> joints p es"
proof (induction es arbitrary: p n)
  case (Cons e es)
  show ?case
  proof (cases n)
    case (Suc m)
    then show ?thesis using Cons.IH [of m "entry_term e"] Cons.prems by (auto simp: nth_Cons' split: if_splits)
  qed simp
qed simp

lemma links_merge:
  assumes "log_wf l" "contiguous_from b es" "base l \<le> b" "b \<le> log_end l" "term_of l b = p"
    and "merge_from_leader l es = Ok (l', appended)"
  shows "links l' \<subseteq> links l \<union> joints p es"
proof -
  consider "l' = l" | n where "n < length es" "n = length (takeWhile (holds l) es)" "b + n \<le> log_end l"
      "l' = splice_log l (b + n) (drop n es)"
    using merge_from_leader_Ok [OF assms(1-3,6)] by auto
  then show ?thesis
  proof cases
    case 2
    have "term_of l (b + n) = (if n = 0 then p else entry_term (es ! (n - 1)))"
    proof (cases n)
      case (Suc m)
      then have "holds l (es ! m)" using 2(1,2) by (metis lessI nth_mem set_takeWhileD takeWhile_nth)
      moreover have "unat (entry_index (es ! m)) = b + n" using contiguous_nth [OF assms(2), of m] 2(1) Suc by simp
      ultimately show ?thesis using Suc by (auto simp: holds_def dest: view_term_of split: option.splits)
    qed (simp add: assms(5))
    then have "joints (term_of l (b + n)) (drop n es) \<subseteq> joints p es" using joints_drop [of n es p] 2(1) by simp
    moreover have "links l' \<subseteq> links l \<union> joints (term_of l (b + n)) (drop n es)"
      unfolding 2(4) by (rule links_replace [OF splice_entries]) (use assms(3) 2(3) in simp_all)
    ultimately show ?thesis by blast
  qed simp
qed

text \<open>What a leader reads out of its log for one message.\<close>

lemma joints_range:
  assumes "log_wf l" "log_range l start stop = Ok es" "unat start = b + 1"
  shows "joints (term_of l b) (take n es) \<subseteq> links l" "contiguous_from b (take n es)"
proof -
  have r: "base l \<le> b" "unat stop \<le> log_end l" "es = take (unat stop - b) (drop (b - base l) (log_entries l))"
    using assms by (auto simp: log_range_Ok_iff)
  have *: "joints (term_of l b) fs \<subseteq> links l"
    if "\<forall>k < length fs. view l (b + 1 + k) = Some (fs ! k)" for fs b
    using that
  proof (induction fs arbitrary: b)
    case (Cons f fs)
    have "view l (b + 1) = Some f" using Cons.prems by (metis add.right_neutral length_greater_0_conv list.distinct(1) nth_Cons_0)
    moreover have "\<forall>k < length fs. view l (b + 1 + 1 + k) = Some (fs ! k)" using Cons.prems by fastforce
    ultimately show ?case using Cons.IH [of "b + 1"] linksI [of l "b + 1" f] view_term_of [of l "b + 1" f] by simp
  qed simp
  show "joints (term_of l b) (take n es) \<subseteq> links l"
    using log_range_nth [OF assms(1,2)] assms(3) by (intro *) auto
  show "contiguous_from b (take n es)"
    using drain_suffix(1) [OF assms(1) r(1)] r assms by (auto simp: log_range_Ok_iff u64_le_iff intro!: contiguous_take)
qed

section \<open>Matching\<close>

lemma coherent_match:
  assumes "coherent G" "links l \<subseteq> G" "links m \<subseteq> G" "log_wf l" "log_wf m"
    and "view l i = Some e" "view m i = Some f" "entry_term e = entry_term f"
    and "k \<le> i" "base l < k" "base m < k"
  shows "view l k = view m k"
  using assms(6-9)
proof (induction "i - k" arbitrary: i e f)
  case 0
  have "entry_index e = entry_index f"
    using view_index [OF assms(4) 0(2)] view_index [OF assms(5) 0(3)] by (simp add: word_unat_eq_iff)
  then have "e = f"
    using assms(1-3) linksI [OF 0(2)] linksI [OF 0(3)] 0(4) unfolding coherent_def by blast
  then show ?case using 0 by simp
next
  case (Suc n)
  have "entry_index e = entry_index f"
    using view_index [OF assms(4) Suc(3)] view_index [OF assms(5) Suc(4)] by (simp add: word_unat_eq_iff)
  then have prev: "term_of l (i - 1) = term_of m (i - 1)"
    using assms(1-3) linksI [OF Suc(3)] linksI [OF Suc(4)] Suc(5) unfolding coherent_def by blast
  have "base l < i - 1" "base m < i - 1" using assms(10,11) Suc(2) by auto
  then obtain e' f' where "view l (i - 1) = Some e'" "view m (i - 1) = Some f'"
    using Suc(3,4) by (auto simp: view_Some_iff)
  then show ?case using Suc(1) [of "i - 1" e' f'] Suc(2) prev view_term_of [of l "i - 1" e'] view_term_of [of m "i - 1" f'] by simp
qed

end
