(* ===== verification/Core_Leadership.thy ===== *)
theory Core_Leadership
  imports Core_Scenarios Log_Links
begin

text \<open>
  How a node comes to lead, and what it says when it does. The locale \<open>tenure\<close> names the few
  methods in which a core stands for, wins, uses or leaves office; whatever survives them
  survives every step. It is interpreted here for \<open>serves\<close>: a node that leads, or whose no-op or
  proposal is being made durable, stands in its current term and is backed by a quorum of
  the members; the grants it counts are the ones it was sent. Every step keeps this while
  effect identifiers last: a term change replaces the pending activation by the persist it
  queues, so that an activation never outlives its term, and only a failure to issue the
  identifier would leave it behind. \<open>Core_Logs\<close> interprets it again for the log.
\<close>

section \<open>What is sent of the log\<close>

text \<open>An AppendEntries of a core carries its term, a run of links of its log and goes to another
  node. In the relation below, \<open>b\<close> says whether it is sent in the role of the leader.\<close>

definition lonely :: "('c, 'h) raft_core \<Rightarrow> bool" where
  "lonely c \<longleftrightarrow> cfg_local_id (config c) \<notin> set (bt_keys (progress c))"

definition voiced :: "bool \<Rightarrow> ('c, 'h) raft_core \<Rightarrow> 'c effect \<Rightarrow> bool" where
  "voiced b c e = (case e of
     SendMessage to (AppendEntries t prev_log_index prev_log_term leader_commit ctx es) \<Rightarrow>
       (b \<longrightarrow> role c = Leader) \<and> t = current_term (hard_state c) \<and> (lonely c \<longrightarrow> to \<noteq> cfg_local_id (config c)) \<and>
       (log_wf (rlog c) \<longrightarrow> contiguous_from (unat prev_log_index) es \<and> joints prev_log_term es \<subseteq> links (rlog c))
   | _ \<Rightarrow> True)"

section \<open>What leaves the office alone\<close>

text \<open>A node is about to act as the leader when the persist of its no-op or of a proposal is
  outstanding.\<close>

fun leads :: "persist_continuation \<Rightarrow> bool" where
  "leads ActivateLeader = True"
| "leads ReplicateProposal = True"
| "leads k = False"

definition activating :: "('c, 'h) raft_core \<Rightarrow> bool" where
  "activating c \<longleftrightarrow> (\<exists>p. pending_persist c = Some p \<and> leads (continuation p))"

definition trimmed :: "'c raft_log \<Rightarrow> 'c raft_log \<Rightarrow> bool" where
  "trimmed l l' \<longleftrightarrow> (log_wf l \<longrightarrow> log_wf l' \<and> links l' \<subseteq> links l \<and> log_end l' = log_end l)"

definition calm :: "('c, 'h) raft_core \<Rightarrow> ('c, 'h) raft_core \<Rightarrow> bool" where
  "calm c c' \<longleftrightarrow> config c' = config c \<and> current_term (hard_state c') = current_term (hard_state c) \<and>
     voted_for (hard_state c') = voted_for (hard_state c) \<and>
     (votes c' = votes c \<or> votes c' = None) \<and> (role c' = Leader \<longrightarrow> role c = Leader) \<and>
     (activating c' \<longrightarrow> activating c) \<and> next_effect_sequence c \<le> next_effect_sequence c' \<and>
     trimmed (rlog c) (rlog c') \<and> (lonely c \<longrightarrow> lonely c')"

definition eased :: "bool \<Rightarrow> ('c, 'h) run \<Rightarrow> ('c, 'h) run \<Rightarrow> bool" where
  "eased b s t \<longleftrightarrow> calm (fst s) (fst t) \<and> (\<exists>new. snd t = snd s @ new \<and> (\<forall>e \<in> set new. voiced b (fst s) e))"

lemma trimmed_refl [simp]: "trimmed l l"
  by (simp add: trimmed_def)

lemma calm_trans: "calm a b \<Longrightarrow> calm b c \<Longrightarrow> calm a c"
  by (auto simp: calm_def trimmed_def)

lemma voiced_calm: "calm c c' \<Longrightarrow> voiced b c' e \<Longrightarrow> voiced b c e"
  by (auto simp: calm_def voiced_def trimmed_def split: effect.splits message.splits)

interpretation ease: state_relation "eased b"
proof
  show "eased b s s" for s by (simp add: eased_def calm_def)
  show "eased b s u" if st: "eased b s t" and tu: "eased b t u" for s t u
  proof -
    obtain x where x: "calm (fst s) (fst t)" "snd t = snd s @ x" "\<forall>e \<in> set x. voiced b (fst s) e"
      using st by (auto simp: eased_def)
    obtain y where y: "calm (fst t) (fst u)" "snd u = snd t @ y" "\<forall>e \<in> set y. voiced b (fst t) e"
      using tu by (auto simp: eased_def)
    have "snd u = snd s @ (x @ y)" "\<forall>e \<in> set (x @ y). voiced b (fst s) e" using x y voiced_calm [OF x(1)] by auto
    then show ?thesis using calm_trans [OF x(1) y(1)] unfolding eased_def by blast
  qed
qed

lemma voiced_weaken: "voiced True c e \<Longrightarrow> voiced b c e" "voiced False c e \<Longrightarrow> role c = Leader \<Longrightarrow> voiced b c e"
  by (auto simp: voiced_def split: effect.splits message.splits)

lemma eased_weaken: "eased True s t \<Longrightarrow> eased b s t"
  using voiced_weaken(1) unfolding eased_def by blast

lemma eased_leading: "eased False s t \<Longrightarrow> role (fst s) = Leader \<Longrightarrow> eased b s t"
  using voiced_weaken(2) unfolding eased_def by blast

lemma eased_assign: "(\<And>c fx. eased b (c, fx) (f c, fx)) \<Longrightarrow> keeps (eased b) (assign f)"
  by (simp add: keeps_post post_simps)

fun appends :: "'c effect \<Rightarrow> bool" where
  "appends (SendMessage to (AppendEntries t prev_log_index prev_log_term leader_commit ctx es)) = True"
| "appends e = False"

lemma voiced_other: "\<not> appends e \<Longrightarrow> voiced b c e"
  by (cases e rule: appends.cases) (auto simp: voiced_def)

lemma eased_plain: "\<not> appends e \<Longrightarrow> keeps (eased b) (emit e)" "keeps (eased b) (attempt g r)"
  by (auto simp: keeps_post post_simps attempt_def eased_def calm_def voiced_other)

lemma eased_number: "keeps (eased b) next_effect_id"
  by (auto simp: keeps_post next_effect_id_def post_simps chain_iff eased_def calm_def activating_def u64_le_iff
      checked_add_Some_iff ok_or_iff map_err_Ok_iff lonely_def)

lemmas ease_intros = ease.keeps_pure ease.keeps_bnd ease.keeps_andThen ease.keeps_block ease.keeps_for_each keeps_self
  eased_plain eased_number eased_assign

lemmas ease_defs = eased_def calm_def activating_def lonely_def

lemma eased_queue_persist: "\<not> leads k \<Longrightarrow> keeps (eased b) (queue_persist batch k)"
  by (auto simp: queue_persist_def ease_defs intro!: ease_intros simp del: block.simps)

lemma eased_become_follower: "keeps (eased b) (assign become_follower)"
  by (rule eased_assign) (simp add: ease_defs become_follower_def bt_keys_def)

lemma eased_sends:
  "keeps (eased b) (send_append_entries_response to response)" "keeps (eased b) (send_pre_vote_response to grant)"
  "keeps (eased b) (send_vote_response to t grant)" "keeps (eased b) (broadcast_pre_vote t)"
  "keeps (eased b) (broadcast_vote_request t)"
  by (auto simp: send_vote_response_def send_append_entries_response_def send_pre_vote_response_def
      broadcast_pre_vote_def broadcast_vote_request_def intro!: ease_intros)

text \<open>The two places where AppendEntries are sent.\<close>

lemma batch_loop_prefix: "\<exists>n. batch_loop max_entries max_bytes batch bytes es = batch @ take n es"
proof (induction max_entries max_bytes batch bytes es rule: batch_loop.induct)
  case (2 max_entries max_bytes batch bytes e es)
  let ?next = "saturating_add bytes (encoded_len e)"
  consider (full) "batch \<noteq> [] \<and> (length batch = unat max_entries \<or> ?next > max_bytes)"
    | (last) "\<not> (batch \<noteq> [] \<and> (length batch = unat max_entries \<or> ?next > max_bytes))" "length (batch @ [e]) = unat max_entries"
    | (more) "\<not> (batch \<noteq> [] \<and> (length batch = unat max_entries \<or> ?next > max_bytes))" "length (batch @ [e]) \<noteq> unat max_entries"
    by blast
  then show ?case
  proof cases
    case full
    then show ?thesis by (intro exI [of _ 0]) (auto simp: Let_def)
  next
    case last
    then show ?thesis by (intro exI [of _ 1]) (auto simp: Let_def)
  next
    case more
    then obtain n where "batch_loop max_entries max_bytes (batch @ [e]) ?next es = (batch @ [e]) @ take n es" using 2 by blast
    then show ?thesis using more by (intro exI [of _ "Suc n"]) (auto simp: Let_def)
  qed
qed simp

lemma batch_links:
  assumes "log_wf (rlog c)" "replication_batch c next_idx = Ok es" "unat next_idx = i + 1" "base (rlog c) \<le> i"
    "i \<le> log_end (rlog c)"
  shows "contiguous_from i es" "joints (term_of (rlog c) i) es \<subseteq> links (rlog c)"
proof -
  consider "es = []" | n fs where "log_range (rlog c) next_idx (last_index (rlog c)) = Ok fs" "es = take n fs"
    using assms(2) batch_loop_prefix [of "cfg_max_entries_per_rpc (config c)" "cfg_max_bytes_per_rpc (config c)" "[]" 0]
    by (fastforce simp: replication_batch_def rbind_Ok_iff map_err_Ok_iff split: if_splits)
  then have "contiguous_from i es \<and> joints (term_of (rlog c) i) es \<subseteq> links (rlog c)"
  proof cases
    case 1
    then show ?thesis using log_wf_bound [OF assms(1)] assms(5) by simp
  next
    case 2
    then show ?thesis using joints_range [OF assms(1) 2(1) assms(3)] by simp
  qed
  then show "contiguous_from i es" "joints (term_of (rlog c) i) es \<subseteq> links (rlog c)" by auto
qed

lemma post_emit_some:
  "Q (Ok ()) (fst s, snd s @ map f (filter P xs)) \<Longrightarrow> post (for_each xs (\<lambda>x. if P x then emit (f x) else ret ())) s Q"
  by (induction xs arbitrary: s) (auto simp: post_simps)

lemma eased_read_snapshot_chunk: "keeps (eased b) (read_snapshot_chunk to)"
  by (auto simp: read_snapshot_chunk_def ease_defs intro!: ease_intros simp del: block.simps split: option.splits)

lemma eased_initialize_progress: "keeps (eased b) initialize_progress"
  unfolding keeps_post
proof
  fix s :: "('a, 'b) run"
  have loop: "post (for_each ms (\<lambda>node. if node \<noteq> n then assign (\<lambda>c. c\<lparr>progress := bt_insert node
      (progress_new i (cfg_max_inflight_appends (config c))) (progress c)\<rparr>) else ret ())) t (\<lambda>_ u. eased b s u)"
    if "eased b s t" "cfg_local_id (config (fst t)) = n" for ms n i t
    using that
  proof (induction ms arbitrary: t)
    case (Cons m ms)
    have "eased b t ((fst t)\<lparr>progress := bt_insert m (progress_new i (cfg_max_inflight_appends (config (fst t)))) (progress (fst t))\<rparr>, snd t)"
      if "m \<noteq> n" using that Cons.prems(2) by (simp add: ease_defs bt.keys_ins)
    note ease.rel_trans [OF Cons.prems(1) this]
    then show ?case using Cons.IH Cons.prems by (simp add: post_simps)
  qed (simp add: post_simps)
  have "eased b s ((fst s)\<lparr>progress := []\<rparr>, snd s)" by (simp add: ease_defs bt_keys_def)
  then show "post initialize_progress s (\<lambda>_ u. eased b s u)"
    by (auto simp: initialize_progress_def post_simps chain_iff ease.rel_refl intro!: loop)
qed

lemma eased_replicate_to: "keeps (eased False) (replicate_to to)"
  unfolding keeps_post
proof
  fix s :: "('a, 'b) run"
  let ?c = "fst s" and ?l = "rlog (fst s)"
  have step: "eased False s (?c\<lparr>progress := bt_insert to p' (progress ?c)\<rparr>, snd s)"
    if "bt_get (progress ?c) to = Some p" for p p'
    using that by (auto simp: ease_defs bt.keys_ins bt.keys_dom)
  have send: "eased False s (?c\<lparr>progress := bt_insert to p' (progress ?c)\<rparr>,
      snd s @ [SendMessage to (AppendEntries (current_term (hard_state ?c)) i t (commit_index (hard_state ?c)) None es)])"
    if "bt_get (progress ?c) to = Some p" "sub_u64 (next_index p) 1 = Ok i" "log_term_at ?l i = Ok t"
      "replication_batch ?c (next_index p) = Ok es" for p p' i t es
  proof -
    have "lonely ?c \<Longrightarrow> to \<noteq> cfg_local_id (config ?c)" using that(1) by (auto simp: lonely_def bt.keys_dom)
    moreover have "contiguous_from (unat i) es \<and> joints t es \<subseteq> links ?l" if "log_wf ?l"
    proof -
      have "unat (next_index p) = unat i + 1"
        using \<open>sub_u64 (next_index p) 1 = Ok i\<close> by (auto simp: sub_u64_def unat_sub_u64 u64_less_iff u64_le_iff not_less split: if_splits)
      then show ?thesis
        using batch_links [OF that \<open>replication_batch ?c (next_index p) = Ok es\<close>] \<open>log_term_at ?l i = Ok t\<close> that
        by (simp add: log_term_at_Ok_iff)
    qed
    ultimately show ?thesis using step [OF that(1)] by (auto simp: eased_def voiced_def)
  qed
  show "post (replicate_to to) s (\<lambda>_ u. eased False s u)"
    by (auto simp: replicate_to_def post_simps chain_iff ease.rel_refl intro!: step send
        ease.post_keeps [OF eased_read_snapshot_chunk] split: option.splits)
qed

lemma eased_replicate_all: "keeps (eased False) replicate_all"
  by (auto simp: replicate_all_def intro!: ease_intros eased_replicate_to)

lemma eased_send_read_heartbeats: "keeps (eased False) send_read_heartbeats"
  unfolding keeps_post
proof
  fix s :: "('a, 'b) run"
  let ?c = "fst s" and ?l = "rlog (fst s)"
  have "voiced False ?c (SendMessage node (AppendEntries (current_term (hard_state ?c)) (last_index ?l) t
      (commit_index (hard_state ?c)) ctx []))" if "node \<noteq> cfg_local_id (config ?c)" for node t ctx
    using that log_wf_bound [of ?l] unat_last_index [of ?l] by (auto simp: voiced_def)
  then have "eased False s (?c, snd s @ map (\<lambda>node. SendMessage node (AppendEntries (current_term (hard_state ?c)) (last_index ?l) t
      (commit_index (hard_state ?c)) ctx [])) (filter (\<lambda>node. node \<noteq> cfg_local_id (config ?c)) ms))" for t ctx ms
    by (auto simp: eased_def calm_def)
  then show "post send_read_heartbeats s (\<lambda>_ u. eased False s u)"
    by (auto simp: send_read_heartbeats_def post_simps chain_iff ease.rel_refl intro!: post_emit_some)
qed

text \<open>In the role of the leader they are allowed.\<close>

lemma post_leading: "keeps (eased False) m \<Longrightarrow> role (fst s) = Leader \<Longrightarrow> post m s (\<lambda>_ t. eased b s t)"
  using eased_leading unfolding keeps_def post_def by blast

lemma keeps_leading:
  assumes "\<And>c. role c = Leader \<Longrightarrow> keeps (eased False) (f c)" "\<And>c. role c \<noteq> Leader \<Longrightarrow> keeps (eased b) (f c)"
  shows "keeps (eased b) (self f)"
  unfolding keeps_post
proof
  fix s :: "('a, 'b) run"
  have "post (f (fst s)) s (\<lambda>_ t. eased b s t)"
  proof (cases "role (fst s) = Leader")
    case True
    then show ?thesis using post_leading [OF assms(1)] by blast
  next
    case False
    then show ?thesis using assms(2) unfolding keeps_post by blast
  qed
  then show "post (self f) s (\<lambda>_ t. eased b s t)" by (simp add: post_simps)
qed

lemma eased_advance_commit: "keeps (eased b) advance_commit"
  unfolding keeps_post
proof
  fix s :: "('a, 'b) run"
  let ?hs = "hard_state (fst s)"
  have "eased b s ((fst s)\<lparr>rlog := l, hard_state := hard_state_new (current_term ?hs) (voted_for ?hs) i\<rparr>, snd s)"
    if "commit_to (rlog (fst s)) i = Ok l" for i l
    using that by (auto simp: ease_defs trimmed_def commit_to_Ok_iff hard_state_new_simps)
  then show "post advance_commit s (\<lambda>_ t. eased b s t)"
    by (auto simp: advance_commit_def post_simps chain_iff ease.rel_refl intro!: ease.post_keeps [OF eased_queue_persist]
        split: option.splits)
qed

lemma eased_emit_apply: "keeps (eased b) emit_apply_if_needed"
  by (auto simp: emit_apply_if_needed_def ease_defs intro!: ease_intros simp del: block.simps)

lemma eased_reports: "keeps (eased b) (finish_apply through)" "keeps (eased b) fail_uncommitted_proposals"
  by (auto simp: finish_apply_def fail_uncommitted_proposals_def report_at_def ease_defs
      intro!: ease_intros simp del: block.simps split: option.splits)

lemma eased_release: "eased b s (release_round s)"
  by (auto simp: release_round_def ease_defs voiced_def split: option.splits)

lemma eased_release_read_round: "keeps (eased b) release_read_round"
  by (simp add: release_read_round_def keeps_post post_simps eased_release)

lemma eased_start_reads: "keeps (eased False) (start_read_round rid)" "keeps (eased False) start_pending_reads"
  by (rule start_reads_keep; (rule ease.state_relation_axioms eased_release eased_send_read_heartbeats | simp add: ease_defs))+

lemma eased_start_pending_reads: "keeps (eased b) start_pending_reads"
  unfolding keeps_def
proof
  fix s :: "('a, 'b) run"
  show "eased b s (snd (start_pending_reads s))"
    using keeps_at [OF eased_start_reads(2), of s] eased_leading [of s]
    by (cases "role (fst s) = Leader") (auto simp: start_pending_reads.simps [of s] ease.rel_refl)
qed

lemma eased_acknowledge: "keeps (eased b) (acknowledge_read_context peer ctx)"
  by (auto simp: acknowledge_read_context_def ease_defs Let_def intro!: ease_intros eased_start_pending_reads eased_release_read_round
      simp del: block.simps split: option.splits)

lemma eased_on_read: "keeps (eased b) (on_read rid)"
  unfolding on_read_def
  by (rule keeps_leading) (auto simp: ease_defs intro!: ease_intros eased_start_reads split: option.splits)

lemma eased_local_snapshots: "keeps (eased b) request_local_snapshot" "keeps (eased b) maybe_request_local_snapshot"
  by (auto simp: request_local_snapshot_def maybe_request_local_snapshot_def ease_defs intro!: ease_intros
      simp del: block.simps)

lemma eased_compaction:
  "keeps (eased b) (self (\<lambda>c. bnd (attempt Log (compact (rlog c) snap))
     (\<lambda>l. bnd (assign (\<lambda>c. c\<lparr>rlog := l, snapshot_index := through\<rparr>)) (\<lambda>_. ret True))))"
  by (auto simp: keeps_post post_simps chain_iff ease_defs trimmed_def links_compact dest: links_compact(1) [THEN subsetD])

lemma eased_on_snapshot_completion: "keeps (eased b) (on_snapshot_completion i outcome)"
proof -
  have "keeps (eased b) (on_compact_completion j snap outcome)" for j snap
    using eased_compaction by (auto simp: on_compact_completion_def Let_def ease_defs intro!: ease.keeps_pure ease.keeps_bnd
        eased_assign split: effect_outcome.splits)
  then show ?thesis
    by (auto simp: on_snapshot_completion_def on_build_completion_def on_record_completion_def ease_defs Let_def
        intro!: ease_intros split: local_snapshot_state.splits effect_outcome.splits result.splits)
qed

lemma eased_on_install_snapshot_chunk: "keeps (eased b) (on_install_snapshot_chunk sha peer t m offset bytes final)"
  by (auto simp: on_install_snapshot_chunk_def ease_defs intro!: ease_intros simp del: block.simps)

lemma eased_on_outgoing_snapshot_completion: "keeps (eased b) (on_outgoing_snapshot_completion i outcome)"
  by (auto simp: on_outgoing_snapshot_completion_def ease_defs Let_def intro!: ease_intros eased_read_snapshot_chunk
      split: option.splits effect_outcome.splits result.splits)

lemma eased_on_incoming_snapshot_completion:
  assumes "\<And>sid. outcome \<noteq> SnapshotInstalled sid"
  shows "keeps (eased b) (on_incoming_snapshot_completion sha i outcome)"
proof -
  have "keeps (eased b) (on_incoming_state i outcome)"
    using assms by (auto simp: on_incoming_state_def on_incoming_persisted_def on_incoming_installed_def ease_defs Let_def
      intro!: ease_intros split: option.splits incoming_snapshot_state.splits effect_outcome.splits)
  then show ?thesis
    using assms by (auto simp: on_incoming_snapshot_completion_def on_chunk_stored_def ease_defs Let_def intro!: ease_intros
      split: option.splits effect_outcome.splits)
qed

lemma eased_on_heartbeat_tick: "keeps (eased b) on_heartbeat_tick"
  unfolding on_heartbeat_tick_def
  by (rule keeps_leading) (auto simp: ease_defs bt_keys_def split_beta image_image intro!: eased_become_follower ease_intros eased_replicate_all
      simp del: block.simps)

lemma eased_on_apply_completion: "keeps (eased b) (on_apply_completion pending i outcome)"
  by (auto simp: on_apply_completion_def Let_def ease_defs intro!: ease_intros eased_reports eased_start_pending_reads eased_release_read_round
      eased_emit_apply eased_local_snapshots simp del: block.simps split: effect_outcome.splits)

section \<open>What holds through a term\<close>

text \<open>
  A relation between runs that survives what a core does with its office. The laws speak of
  the few methods in which a node stands for, wins, uses or leaves office or follows another
  leader; from them the relation is shown once for every other method and for whole steps.
  \<open>fair c peer m\<close> says what the relation takes for granted of a received message.
\<close>

locale tenure = state_relation Rel for Rel :: "('c, 'h) run \<Rightarrow> ('c, 'h) run \<Rightarrow> bool" +
  fixes fair :: "('c, 'h) raft_core \<Rightarrow> node_id \<Rightarrow> 'c message \<Rightarrow> bool"
  assumes ease: "eased True s t \<Longrightarrow> Rel s t"
    and speak: "activating (fst s) \<Longrightarrow> eased False s t \<Longrightarrow> Rel s t"
    and inaugurate: "activating (fst s) \<Longrightarrow> eased False s t \<Longrightarrow>
      Rel s ((fst t)\<lparr>role := Leader, votes := None, active_members := a\<rparr>, snd t)"
    and step_down: "current_term (hard_state (fst s)) < n \<Longrightarrow> post (begin_term_transition n NoContinuation) s (\<lambda>_ t. Rel s t)"
    and candidacy: "keeps Rel become_candidate"
    and noop: "votes (fst s) = Some q \<Longrightarrow> has_quorum q \<Longrightarrow> post persist_leader_noop s (\<lambda>_ t. Rel s t)"
    and propose: "keeps Rel (on_propose pid cmd len)"
    and vote_request: "keeps Rel (on_vote_request peer n index log_t)"
    and tally: "fair c peer (VoteResponse (current_term (hard_state c)) grant) \<Longrightarrow> votes c = Some q \<Longrightarrow>
      Rel (c, fx) (c\<lparr>votes := Some (record_vote q peer grant)\<rparr>, fx)"
    and follow: "fair c peer (AppendEntries n prev_log_index prev_log_term leader_commit ctx es) \<Longrightarrow>
      post (on_append_entries peer n prev_log_index prev_log_term leader_commit ctx es) (c, fx) (\<lambda>_ t. Rel (c, fx) t)"
    and fair_active: "fair (c\<lparr>active_members := a\<rparr>) peer m = fair c peer m"
begin

lemma eases: "keeps (eased True) m \<Longrightarrow> keeps Rel m"
  unfolding keeps_def using ease by blast

lemma post_eases: "keeps (eased True) m \<Longrightarrow> post m s (\<lambda>_ t. Rel s t)"
  using eases unfolding keeps_post by blast

lemmas tenure_intros = keeps_pure keeps_bnd keeps_block keeps_self candidacy
  eased_plain [THEN eases] eased_assign [THEN eases]

lemma rel_start_pre_vote: "keeps Rel start_pre_vote"
  by (auto simp: start_pre_vote_def ease_defs intro!: tenure_intros eases [OF eased_sends(4)] simp del: block.simps)

lemma rel_term_guard:
  assumes "post (k (fst s)) s (\<lambda>_ u. Rel s u)"
  shows "post (self (\<lambda>c. if t > current_term (hard_state c) then begin_term_transition t NoContinuation else k c)) s (\<lambda>_ u. Rel s u)"
  using assms step_down by (simp add: post_simps)

lemma rel_on_pre_vote_response: "keeps Rel (on_pre_vote_response peer t grant)"
  unfolding keeps_post on_pre_vote_response_def
  by (intro allI rel_term_guard post_keeps [OF _ rel_refl]) (auto simp: Let_def ease_defs intro!: tenure_intros
      simp del: block.simps split: option.splits)

lemma rel_on_vote_response:
  assumes "fair (fst s) peer (VoteResponse t grant)"
  shows "post (on_vote_response peer t grant) s (\<lambda>_ u. Rel s u)"
proof -
  let ?c = "fst s"
  have count: "Rel s (?c\<lparr>votes := Some (record_vote q peer grant)\<rparr>, snd s)"
    if "votes ?c = Some q" "t = current_term (hard_state ?c)" for q
    using tally [of ?c peer grant q "snd s"] assms that by simp
  have "post persist_leader_noop (?c\<lparr>votes := Some (record_vote q peer grant)\<rparr>, snd s) (\<lambda>_ u. Rel s u)"
    if "votes ?c = Some q" "t = current_term (hard_state ?c)" "has_quorum (record_vote q peer grant)" for q
    by (rule post_weaken [OF noop]) (use that in \<open>auto intro: rel_trans [OF count]\<close>)
  moreover have "Rel s (?c\<lparr>role := Follower, votes := None\<rparr>, snd s)" by (rule ease) (simp add: ease_defs)
  ultimately show ?thesis
    unfolding on_vote_response_def
    by (intro rel_term_guard) (use count in \<open>auto simp: post_simps Let_def chain_iff rel_refl split: option.splits\<close>)
qed

lemma rel_leading:
  assumes "role (fst s) = Leader \<Longrightarrow> post (k (fst s)) s (\<lambda>_ u. eased False s u)"
  shows "post (self (\<lambda>c. if t > current_term (hard_state c) then begin_term_transition t NoContinuation
      else if role c \<noteq> Leader \<or> P c then ret () else k c)) s (\<lambda>_ u. Rel s u)"
proof -
  have "post (k (fst s)) s (\<lambda>_ u. Rel s u)" if "role (fst s) = Leader"
    by (rule post_weaken [OF assms [OF that]]) (rule ease [OF eased_leading], simp_all add: that)
  then show ?thesis by (intro rel_term_guard) (auto simp: post_simps rel_refl)
qed

lemma rel_leader_responses:
  "keeps Rel (on_append_entries_response peer t success matched conflict ctx)"
  "keeps Rel (on_install_snapshot_response peer t success)"
proof -
  have note_reply: "eased False (c, fx) (c\<lparr>snapshot_senders := v, progress := bt_insert peer p' (progress c)\<rparr>, fx)"
    "eased False (c, fx) (c\<lparr>progress := bt_insert peer p' (progress c)\<rparr>, fx)"
    if "bt_get (progress c) peer = Some p" for p p' v fx and c :: "('c, 'h) raft_core"
    using that by (auto simp: ease_defs bt.keys_ins bt.keys_dom)
  have forget: "eased False (c, fx) (c\<lparr>snapshot_senders := v\<rparr>, fx)" for v fx and c :: "('c, 'h) raft_core" by (simp add: ease_defs)
  have go_on: "post (replicate_to peer) u (chain (\<lambda>_. block [advance_commit]) (chain (\<lambda>_. block []) (\<lambda>_ v. eased False s v)))"
    if "eased False s u" for s u :: "('c, 'h) run"
  proof -
    have "post (block [replicate_to peer, advance_commit]) u (chain (\<lambda>_. block []) (\<lambda>_ v. eased False s v))"
      using that by (intro ease.post_then) (auto intro!: ease_intros eased_replicate_to eased_advance_commit simp del: block.simps)
    then show ?thesis by (simp add: post_simps del: block.simps)
  qed
  show "keeps Rel (on_append_entries_response peer t success matched conflict ctx)"
    unfolding keeps_post on_append_entries_response_def
    by (intro allI rel_leading) (auto simp: post_simps chain_iff ease.rel_refl intro!: go_on ease.post_then note_reply
        eased_acknowledge ease_intros eased_replicate_to eased_advance_commit simp del: block.simps split: option.splits)
  show "keeps Rel (on_install_snapshot_response peer t success)"
    unfolding keeps_post on_install_snapshot_response_def
    by (intro allI rel_leading) (auto simp: post_simps chain_iff ease.rel_refl intro!: ease.post_then eased_replicate_to note_reply forget
        ease_intros simp del: block.simps split: option.splits)
qed

text \<open>The completion of a persist: the continuation runs with the office the node held when it
  was queued.\<close>

lemma rel_run_continuation:
  assumes "eased False s0 s" "leads k \<Longrightarrow> activating (fst s0)" "\<not> leads k \<Longrightarrow> Rel s0 s"
  shows "post (run_continuation k) s (\<lambda>_ t. Rel s0 t)"
proof (cases "leads k")
  case True
  then have act: "activating (fst s0)" by (rule assms(2))
  show ?thesis
  proof (cases "k = ActivateLeader")
    case True
    let ?t = "\<lambda>a. ((fst s)\<lparr>role := Leader, votes := None, active_members := a\<rparr>, snd s)"
    have "keeps (eased False) (block [initialize_progress, replicate_all, advance_commit])"
      by (auto intro!: ease_intros eased_initialize_progress eased_replicate_all eased_advance_commit simp del: block.simps)
    then have "post (block [initialize_progress, replicate_all, advance_commit]) (?t a) (\<lambda>_ u. eased True (?t a) u)" for a
      by (rule post_leading) simp
    then have "post (block [initialize_progress, replicate_all, advance_commit]) (?t a) (\<lambda>_ u. Rel s0 u)" for a
      by (rule post_weaken) (blast intro: rel_trans [OF inaugurate [OF act assms(1)]] ease)
    then show ?thesis by (simp add: True run_continuation_def post_simps)
  next
    case False
    then have "k = ReplicateProposal" using True by (cases k) auto
    then have "keeps (eased False) (run_continuation k)"
      by (auto simp: run_continuation_def intro!: ease_intros eased_replicate_all eased_advance_commit
          eased_start_pending_reads simp del: block.simps)
    then show ?thesis using ease.post_keeps [OF _ assms(1)] speak [OF act] by (blast intro: post_weaken)
  qed
next
  case False
  have "post (run_continuation k) s (\<lambda>_ u. Rel s u)"
  proof (cases "k = BroadcastVoteRequests")
    case True
    have "post (broadcast_vote_request t) s (\<lambda>_ u. Rel s u)" for t by (rule post_eases [OF eased_sends(5)])
    then show ?thesis using True noop [of s] by (auto simp: run_continuation_def post_simps split: option.splits)
  next
    case other: False
    then have "keeps (eased True) (run_continuation k)" using False
      by (cases k) (auto simp: run_continuation_def intro!: ease_intros eased_sends eased_emit_apply eased_start_pending_reads
          simp del: block.simps)
    then show ?thesis by (rule post_eases)
  qed
  then show ?thesis by (rule post_weaken) (rule rel_trans [OF assms(3) [OF False]])
qed

lemma rel_persist_completion:
  assumes "pending_persist (fst s) = Some p"
  shows "post (on_persist_completion p i outcome) ((fst s)\<lparr>pending_persist := None\<rparr>, snd s) (\<lambda>_ t. Rel s t)"
proof -
  let ?c = "(fst s)\<lparr>pending_persist := None\<rparr>"
  have settle: "eased b s (?c\<lparr>stopped := True\<rparr>, fx)" "eased b s ((fst s)\<lparr>pending_persist := Some p\<rparr>, fx)" "eased b s (?c, fx)"
    if "fx = snd s" for fx b
    using assms that by (auto simp: ease_defs)
  have stable: "eased b s (?c\<lparr>rlog := l\<rparr>, snd s)" if "mark_stable (rlog (fst s)) n = Ok l" for n l b
    using that by (auto simp: ease_defs trimmed_def mark_stable_Ok_iff)
  have run: "post (run_continuation (continuation p)) t (\<lambda>_ u. Rel s u)" if "\<And>b. eased b s t" for t
    by (rule rel_run_continuation [OF that]) (use assms that ease in \<open>auto simp: activating_def\<close>)
  show ?thesis
    by (auto simp: on_persist_completion_def post_simps Let_def chain_iff intro!: run settle stable ease split: option.splits)
qed

lemma rel_on_effect_completed:
  assumes "\<And>sid. outcome \<noteq> SnapshotInstalled sid"
  shows "keeps Rel (on_effect_completed sha i outcome)"
proof -
  have "keeps Rel (on_barrier_completion i outcome :: ('c, 'h, unit) action)"
    unfolding keeps_post
  proof
    fix s :: "('c, 'h) run"
    have "Rel s ((fst s)\<lparr>pending_apply := None\<rparr>, snd s)" by (rule ease) (simp add: ease_defs)
    then show "post (on_barrier_completion i outcome) s (\<lambda>_ t. Rel s t)"
      by (auto simp: on_barrier_completion_def post_simps intro!: rel_persist_completion rel_refl
          post_keeps [OF eases [OF eased_on_apply_completion]] split: option.splits)
  qed
  then show ?thesis
    by (auto simp: on_effect_completed_def intro!: tenure_intros eases [OF eased_on_outgoing_snapshot_completion]
        eases [OF eased_on_incoming_snapshot_completion [OF assms]] eases [OF eased_on_snapshot_completion])
qed

lemma rel_on_message:
  assumes "fair (fst s) peer m"
  shows "post (on_message sha peer m) s (\<lambda>_ t. Rel s t)"
proof (cases m)
  case (VoteResponse t grant)
  then show ?thesis using assms by (simp add: on_message_def rel_on_vote_response)
next
  case (AppendEntries t i lt commit ctx es)
  then show ?thesis using assms by (cases s) (simp add: on_message_def follow)
qed (auto simp: on_message_def post_simps rel_refl intro!: post_keeps [OF _ rel_refl] vote_request rel_on_pre_vote_response
      rel_leader_responses eases [OF eased_on_install_snapshot_chunk] eases [OF eased_sends(2)])

lemma rel_on_event:
  assumes "\<not> installs_snapshot event"
    and "\<And>env. event = MessageReceived env \<Longrightarrow> fair (fst s) (env_from env) (env_message env)"
  shows "post (on_event sha event) s (\<lambda>_ t. Rel s t)"
proof (cases event)
  case (EffectCompleted i outcome)
  have "outcome \<noteq> SnapshotInstalled sid" for sid
    using assms(1) by (auto simp: installs_snapshot_def EffectCompleted)
  then have "keeps Rel (on_effect_completed sha i outcome)" by (rule rel_on_effect_completed)
  moreover have "keeps (eased True) (assign (record_completion i outcome))"
    by (rule eased_assign) (simp add: ease_defs record_completion_def Let_def split_beta)
  ultimately show ?thesis
    by (auto simp: EffectCompleted on_event_def intro!: post_keeps [OF _ rel_refl] keeps_self keeps_block keeps_pure
        intro: eases simp del: block.simps)
next
  case (MessageReceived env)
  have active: "Rel s ((fst s)\<lparr>active_members := a\<rparr>, snd s)" for a by (rule ease) (simp add: ease_defs)
  have "post (on_message sha (env_from env) (env_message env)) ((fst s)\<lparr>active_members := a\<rparr>, snd s) (\<lambda>_ t. Rel s t)" for a
    by (rule post_weaken [OF rel_on_message]) (use assms(2) MessageReceived fair_active in \<open>auto intro: rel_trans [OF active]\<close>)
  moreover have "post (on_message sha (env_from env) (env_message env)) s (\<lambda>_ t. Rel s t)"
    by (rule rel_on_message) (use assms(2) MessageReceived in simp)
  ultimately show ?thesis
    by (auto simp: MessageReceived on_event_def post_simps chain_iff rel_refl)
next
  case (Tick k)
  then show ?thesis
    by (cases k) (auto simp: on_event_def intro!: post_keeps [OF _ rel_refl] rel_start_pre_vote eases [OF eased_on_heartbeat_tick])
next
  case Shutdown
  then show ?thesis by (auto simp: on_event_def ease_defs stop_def intro!: post_eases eased_assign)
qed (auto simp: on_event_def intro!: post_keeps [OF _ rel_refl] propose eases [OF eased_on_read] eases [OF eased_local_snapshots(1)])

lemma rel_step:
  assumes "\<not> installs_snapshot event" "\<And>env. event = MessageReceived env \<Longrightarrow> fair c (env_from env) (env_message env)"
    and "step sha c event = (r, c')"
  shows "\<exists>fx. Rel (c, []) (c', fx) \<and> (collect r = fx \<or> collect r = [])"
proof (cases "stopped c")
  case True
  then show ?thesis using assms(3) rel_refl [of "(c, [])"] by (auto simp: step_def step_stopped_def collect_def no_output_def
        rbind_Ok_iff split: event.splits result.splits)
next
  case False
  obtain h d fx where h: "handle sha event (c, []) = (h, (d, fx))" by (metis prod.exhaust)
  have "post (handle sha event) (c, []) (\<lambda>_ t. Rel (c, []) t)"
    using rel_on_event [OF assms(1), of "(c, [])"] assms(2)
    by (auto simp: handle_def post_simps chain_iff intro!: post_weaken [OF rel_on_event [OF assms(1)]] post_keeps [OF eases [OF eased_emit_apply]])
  then have run: "Rel (c, []) (d, fx)" using h by (rule postD)
  obtain e gx where e: "snd (fail_uncommitted_proposals (d, fx)) = (e, gx)" by (metis prod.exhaust)
  have reports: "Rel (c, []) (e, gx)"
    unfolding e [symmetric] by (rule rel_trans [OF run keeps_at [OF eases [OF eased_reports(2)]]])
  have halt: "Rel (c, []) (stop reason e, gx)" if "Rel (c, []) (e, gx)" for e gx reason
    by (rule rel_trans [OF that]) (rule ease, simp add: ease_defs stop_def)
  show ?thesis
    using False assms(3) h run reports halt
    by (auto simp: step_def finish_step_def fatalize_def fatal_def Let_def e collect_def split: result.splits step_error.splits if_splits)
qed

end

section \<open>Elected\<close>

definition backed :: "(node_id \<times> log_term) set \<Rightarrow> ('c, 'h) raft_core \<Rightarrow> node_id set \<Rightarrow> bool" where
  "backed R c S \<longleftrightarrow> S \<subseteq> set (cfg_members (config c)) \<and>
     (\<forall>g \<in> S. g = cfg_local_id (config c) \<or> (g, current_term (hard_state c)) \<in> R)"

definition stands :: "('c, 'h) raft_core \<Rightarrow> bool" where
  "stands c \<longleftrightarrow> voted_for (hard_state c) = Some (cfg_local_id (config c))"

definition elected :: "(node_id \<times> log_term) set \<Rightarrow> ('c, 'h) raft_core \<Rightarrow> bool" where
  "elected R c \<longleftrightarrow> stands c \<and>
     (\<exists>S. backed R c S \<and> card (set (cfg_members (config c))) div 2 + 1 \<le> card S)"

definition office :: "(node_id \<times> log_term) set \<Rightarrow> ('c, 'h) raft_core \<Rightarrow> bool" where
  "office R c \<longleftrightarrow>
     (\<forall>q. votes c = Some q \<longrightarrow> stands c \<and> qt_members q = set (cfg_members (config c)) \<and> backed R c (granted q)) \<and>
     (role c = Leader \<or> activating c \<longrightarrow> elected R c)"

definition local_member :: "('c, 'h) raft_core \<Rightarrow> bool" where
  "local_member c \<longleftrightarrow> cfg_local_id (config c) \<in> set (cfg_members (config c))"

abbreviation exhausted :: "('c, 'h) raft_core \<Rightarrow> bool" where
  "exhausted c \<equiv> next_effect_sequence c = - 1"

definition serves :: "(node_id \<times> log_term) set \<Rightarrow> ('c, 'h) run \<Rightarrow> ('c, 'h) run \<Rightarrow> bool" where
  "serves R s t \<longleftrightarrow> config (fst t) = config (fst s) \<and> (exhausted (fst s) \<longrightarrow> exhausted (fst t)) \<and>
     (local_member (fst s) \<longrightarrow> office R (fst s) \<longrightarrow> exhausted (fst t) \<or> office R (fst t))"

interpretation service: state_relation "serves R"
  by unfold_locales (auto simp: serves_def local_member_def)

lemma backed_same:
  "config c' = config c \<Longrightarrow> current_term (hard_state c') = current_term (hard_state c) \<Longrightarrow> backed R c' S = backed R c S"
  by (simp add: backed_def)

lemma serves_alike:
  assumes "config (fst t) = config (fst s)" "current_term (hard_state (fst t)) = current_term (hard_state (fst s))"
    and "voted_for (hard_state (fst t)) = voted_for (hard_state (fst s))" "votes (fst t) = votes (fst s) \<or> votes (fst t) = None"
    and "role (fst t) = Leader \<Longrightarrow> role (fst s) = Leader" "activating (fst t) \<Longrightarrow> activating (fst s)"
    and "next_effect_sequence (fst s) \<le> next_effect_sequence (fst t)"
  shows "serves R s t"
proof -
  have same: "backed R (fst t) = backed R (fst s)" "stands (fst t) = stands (fst s)" "elected R (fst t) = elected R (fst s)"
    using assms(1-3) by (auto simp: backed_def stands_def elected_def fun_eq_iff)
  have "office R (fst t)" if "office R (fst s)"
    using that assms(1,4-6) unfolding office_def same by auto
  then show ?thesis using assms(1,7) by (auto simp: serves_def word_order.extremum_unique)
qed

lemma eased_serves: "eased b s t \<Longrightarrow> serves R s t"
  by (rule serves_alike) (auto simp: eased_def calm_def)

lemma keeps_serves: "keeps (eased b) m \<Longrightarrow> keeps (serves R) m"
  unfolding keeps_def using eased_serves by blast

text \<open>A new term ends whatever the node stood for, unless the identifiers have run out.\<close>

lemma serves_retire:
  assumes "config (fst t) = config (fst s)" "next_effect_sequence (fst s) \<le> next_effect_sequence (fst t)"
    and "\<not> exhausted (fst t) \<Longrightarrow> votes (fst t) = None \<and> role (fst t) \<noteq> Leader \<and> \<not> activating (fst t)"
  shows "serves R s t"
  using assms by (auto simp: serves_def office_def word_order.extremum_unique)

lemma checked_add_exhausted: "checked_add n 1 = None \<longleftrightarrow> n = (- 1 :: u64)"
  using u64_bound [of n] by (auto simp: checked_add_None_iff u64_minus_one word_unat_eq_iff)

lemma post_queue_persist:
  assumes "\<And>i n. checked_add (next_effect_sequence (fst s)) 1 = Some n \<Longrightarrow>
      Q (Ok ()) ((fst s)\<lparr>next_effect_sequence := n, pending_persist := Some \<lparr>persist_id = i,
        stable_through = (if batch_entries b = [] then None else Some (entry_index (last (batch_entries b)))),
        continuation = k\<rparr>\<rparr>, snd s @ [Persist i b])"
    and "exhausted (fst s) \<Longrightarrow> Q (Err (Arithmetic Overflow)) s"
  shows "post (queue_persist b k) s Q"
  using assms by (cases "checked_add (next_effect_sequence (fst s)) 1")
    (auto simp: queue_persist_def next_effect_id_def post_simps chain_iff checked_add_exhausted [symmetric])


lemma checked_add_le: "checked_add n 1 = Some m \<Longrightarrow> n \<le> (m :: u64)"
  by (auto simp: checked_add_Some_iff u64_le_iff)

lemma serves_begin_term_transition:
  assumes "\<not> leads k"
  shows "keeps (serves R) (begin_term_transition t k)"
  unfolding keeps_post
proof
  fix s :: "('a, 'b) run"
  show "post (begin_term_transition t k) s (\<lambda>_ u. serves R s u)"
    using assms by (auto simp: begin_term_transition_def post_simps chain_iff become_follower_def activating_def
      intro!: post_queue_persist serves_retire dest: checked_add_le)
qed

lemma serves_become_candidate: "keeps (serves R) become_candidate"
  unfolding keeps_post
proof
  fix s :: "('a, 'b) run"
  show "post become_candidate s (\<lambda>_ u. serves R s u)"
    by (auto simp: become_candidate_def post_simps chain_iff service.rel_refl
      serves_def office_def activating_def stands_def backed_def with_local_vote_def local_member_def word_order.extremum_unique
      intro!: post_queue_persist dest: checked_add_le)
qed

lemma serves_on_vote_request: "keeps (serves R) (on_vote_request peer t index log_t)"
  unfolding keeps_post
proof
  fix s :: "('a, 'b) run"
  let ?c = "fst s"
  have cast: "serves R s (?c\<lparr>hard_state := hard_state_new (current_term (hard_state ?c)) (Some peer) i, next_effect_sequence := n,
      pending_persist := Some p\<rparr>, fx)"
    if "voted_for (hard_state ?c) = None" "\<not> leads (continuation p)" "next_effect_sequence ?c \<le> n" for i n p fx
    using that by (auto simp: serves_def office_def elected_def stands_def activating_def word_order.extremum_unique)
  have ran: "serves R s (?c\<lparr>hard_state := h\<rparr>, fx)" if "exhausted ?c" for h fx
    using that by (simp add: serves_def)
  have answer: "post (send_vote_response peer n grant) s (\<lambda>_ u. serves R s u)" for n grant
    by (rule service.post_keeps [OF keeps_serves [OF eased_sends(3)] service.rel_refl])
  show "post (on_vote_request peer t index log_t) s (\<lambda>_ u. serves R s u)"
  proof (cases t "current_term (hard_state ?c)" rule: linorder_cases)
    case equal
    then show ?thesis using cast ran answer
      by (auto simp: on_vote_request_def post_simps chain_iff Let_def intro!: post_queue_persist
          dest: checked_add_le split: option.splits)
  qed (auto simp: on_vote_request_def post_simps chain_iff Let_def activating_def
      intro!: answer post_queue_persist serves_retire dest: checked_add_le)
qed

lemma post_persist_leader_noop:
  assumes "votes (fst s) = Some q" "has_quorum q"
  shows "post persist_leader_noop s (\<lambda>_ u. serves R s u)"
proof -
  have won: "elected R (fst s)" if "office R (fst s)"
    using that assms by (auto simp: office_def elected_def has_quorum_def qt_quorum_def)
  let ?next = "\<lambda>l i e n p. (fst s)\<lparr>rlog := l, last_log_index := i,
     last_log_term := current_term (hard_state (fst s)), leader_noop_index := e, next_effect_sequence := n, pending_persist := p\<rparr>"
  have "office R (?next l i e n p)" if "office R (fst s)" for l i e n p
    using that won by (simp add: office_def elected_def stands_def backed_def)
  then have "serves R s (?next l i e n p, fx)" if "next_effect_sequence (fst s) \<le> n" for l i e n p fx
    using that by (auto simp: serves_def word_order.extremum_unique)
  moreover have "serves R s ((fst s)\<lparr>rlog := l, last_log_index := i,
     last_log_term := current_term (hard_state (fst s)), leader_noop_index := e\<rparr>, fx)" for l i e fx
    by (rule serves_alike) (simp_all add: activating_def)
  ultimately show ?thesis
    by (auto simp: persist_leader_noop_def post_simps chain_iff service.rel_refl intro!: post_queue_persist
      dest: checked_add_le)
qed

lemma office_tally:
  assumes "office R c" "votes c = Some q" "grant \<Longrightarrow> (peer, current_term (hard_state c)) \<in> R"
  shows "office R (c\<lparr>votes := Some (record_vote q peer grant)\<rparr>)"
  using assms by (auto simp: office_def elected_def stands_def backed_def activating_def record_vote_def)

lemma serves_on_propose: "keeps (serves R) (on_propose pid cmd len)"
  unfolding keeps_post
proof
  fix s :: "('a, 'b) run"
  let ?next = "\<lambda>l i v. (fst s)\<lparr>rlog := l, last_log_index := i, last_log_term := current_term (hard_state (fst s)), proposals := v\<rparr>"
  have "serves R s (?next l i v, fx)" for l i v fx
    by (rule serves_alike) (simp_all add: activating_def)
  moreover have "serves R s ((?next l i v)\<lparr>next_effect_sequence := n, pending_persist := p\<rparr>, fx)"
    if "role (fst s) = Leader" "next_effect_sequence (fst s) \<le> n" for l i v n p fx
    using that by (auto simp: serves_def office_def elected_def stands_def backed_def word_order.extremum_unique)
  moreover have "post (emit (ProposalResult pid v)) s (\<lambda>_ u. serves R s u)" for v
    by (rule service.post_keeps [OF keeps_serves [OF eased_plain(1)] service.rel_refl]) simp
  ultimately show "post (on_propose pid cmd len) s (\<lambda>_ u. serves R s u)"
    by (auto simp: on_propose_def post_simps chain_iff service.rel_refl intro!: post_queue_persist dest: checked_add_le)
qed

lemma serves_conclude_append:
  assumes "votes (fst s) = None" "role (fst s) = Follower"
  shows "post (conclude_append peer t term_changed prev_log_index ctx success conflict appended) s (\<lambda>_ u. serves R s u)"
proof -
  let ?c = "fst s"
  let ?adopt = "?c\<lparr>hard_state := hard_state_new t (if term_changed then None else voted_for (hard_state ?c)) (log_committed (rlog ?c))\<rparr>"
  have retire: "serves R s (d\<lparr>next_effect_sequence := n, pending_persist := Some p\<rparr>, fx)"
    if "d = ?c \<or> d = ?adopt" "next_effect_sequence ?c \<le> n" "\<not> leads (continuation p)" for d n p fx
    using that assms(1,2) by (intro serves_retire) (auto simp: activating_def)
  have ran: "serves R s (d, fx)" if "d = ?c \<or> d = ?adopt" "exhausted ?c" for d fx
    using that by (auto simp: serves_def)
  have answer: "post (send_append_entries_response peer response) s (\<lambda>_ u. serves R s u)" for response
    by (rule service.post_keeps [OF keeps_serves [OF eased_sends(1)] service.rel_refl])
  show ?thesis
    using retire ran answer
    by (auto simp: conclude_append_def post_simps Let_def chain_iff service.rel_refl intro!: post_queue_persist dest: checked_add_le)
qed

lemma serves_on_append_entries:
  "keeps (serves R) (on_append_entries peer t prev_log_index prev_log_term leader_commit ctx entries)"
  unfolding keeps_post
proof
  fix s :: "('a, 'b) run"
  let ?cur = "current_term (hard_state (fst s))" and ?f = "become_follower (fst s)"
  have log: "serves R s (?f\<lparr>rlog := l, last_log_index := i\<rparr>, fx)" "serves R s (?f, fx)"
    "serves R s (?f\<lparr>rlog := l, last_log_index := i, last_log_term := n\<rparr>, fx)" for l i n fx
    by (rule serves_alike; simp add: become_follower_def activating_def)+
  have tail: "post (conclude_append peer t (?cur < t) prev_log_index ctx success conflict appended) u (\<lambda>_ v. serves R s v)"
    if "serves R s u" "votes (fst u) = None" "role (fst u) = Follower"
    for u success conflict appended
    by (rule post_weaken [OF serves_conclude_append])
       (use that in \<open>auto intro: service.rel_trans\<close>)
  have answer: "post (send_append_entries_response peer response) s (\<lambda>_ u. serves R s u)" for response
    by (rule service.post_keeps [OF keeps_serves [OF eased_sends(1)] service.rel_refl])
  show "post (on_append_entries peer t prev_log_index prev_log_term leader_commit ctx entries) s (\<lambda>_ u. serves R s u)"
    using log tail answer
    by (auto simp: on_append_entries_def Let_def post_simps chain_iff not_less become_follower_def is_ok_simps
       intro!: post_append_to_log split: result.splits)
qed

section \<open>Steps\<close>

text \<open>The grants a step takes in.\<close>

definition taken :: "'c event \<Rightarrow> (node_id \<times> log_term) set" where
  "taken event = (case event of
     MessageReceived env \<Rightarrow> (case env_message env of VoteResponse t True \<Rightarrow> {(env_from env, t)} | _ \<Rightarrow> {})
   | _ \<Rightarrow> {})"

lemma serves_inaugurate:
  assumes "activating (fst s)" "eased b s t"
  shows "serves R s ((fst t)\<lparr>role := Leader, votes := None, active_members := a\<rparr>, snd t)"
proof -
  have "elected R (fst t) = elected R (fst s)" "config (fst t) = config (fst s)" "next_effect_sequence (fst s) \<le> next_effect_sequence (fst t)"
    using assms(2) by (auto simp: eased_def calm_def elected_def stands_def backed_def)
  moreover have "office R ((fst t)\<lparr>role := Leader, votes := None, active_members := a\<rparr>)" if "elected R (fst t)"
    using that by (simp add: office_def elected_def stands_def backed_def)
  ultimately show ?thesis using assms(1) by (auto simp: serves_def office_def word_order.extremum_unique)
qed

definition heeds :: "(node_id \<times> log_term) set \<Rightarrow> node_id \<Rightarrow> 'c message \<Rightarrow> bool" where
  "heeds R peer m \<longleftrightarrow> (\<forall>t. m = VoteResponse t True \<longrightarrow> (peer, t) \<in> R)"

interpretation term_served: tenure "serves R" "\<lambda>_. heeds R"
proof
  fix s t :: "('a, 'b) run" and c :: "('a, 'b) raft_core" and q pid len peer n index log_t grant a prev_log_index prev_log_term leader_commit ctx
    fx and cmd :: 'a and es :: "'a entry list" and m :: "'a message"
  show "serves R s t" if "eased True s t" using that by (rule eased_serves)
  show "serves R s t" if "eased False s t" using that by (rule eased_serves)
  show "serves R s ((fst t)\<lparr>role := Leader, votes := None, active_members := a\<rparr>, snd t)" if "activating (fst s)" "eased False s t"
    using that by (rule serves_inaugurate)
  show "post (begin_term_transition n NoContinuation) s (\<lambda>_ t. serves R s t)"
    by (rule service.post_keeps [OF serves_begin_term_transition service.rel_refl]) simp
  show "keeps (serves R) become_candidate" by (rule serves_become_candidate)
  show "post persist_leader_noop s (\<lambda>_ t. serves R s t)" if "votes (fst s) = Some q" "has_quorum q"
    using that by (rule post_persist_leader_noop)
  show "keeps (serves R) (on_propose pid cmd len)" by (rule serves_on_propose)
  show "keeps (serves R) (on_vote_request peer n index log_t)" by (rule serves_on_vote_request)
  show "serves R (c, fx) (c\<lparr>votes := Some (record_vote q peer grant)\<rparr>, fx)"
    if "heeds R peer (VoteResponse (current_term (hard_state c)) grant)" "votes c = Some q"
    using office_tally [of R c q grant peer] that by (auto simp: serves_def heeds_def)
  show "post (on_append_entries peer n prev_log_index prev_log_term leader_commit ctx es) (c, fx) (\<lambda>_ t. serves R (c, fx) t)"
    by (rule service.post_keeps [OF serves_on_append_entries service.rel_refl])
qed simp

lemma step_serves:
  assumes "\<not> installs_snapshot event" "taken event \<subseteq> R" "step sha c event = (r, c')"
  shows "serves R (c, []) (c', [])"
proof -
  have "heeds R (env_from env) (env_message env)" if "event = MessageReceived env" for env
    using assms(2) that by (auto simp: heeds_def taken_def)
  from term_served.rel_step [OF assms(1) this assms(3)] show ?thesis by (auto simp: serves_def)
qed

end
