(* ===== verification/Core_Logs.thy ===== *)
theory Core_Logs
  imports Core_Leadership
begin

text \<open>
  What a core does to its log, seen from the cluster. \<open>Own\<close> is the set of terms the node has
  won, \<open>G\<close> the links that exist in the cluster, \<open>J\<close> the ones the message at hand brings. A node
  that has won its term knows every link of that term, so the entry it appends is new; any
  other node only takes links over. The laws of \<open>tenure\<close> are discharged for this relation, and
  \<open>step_weaves\<close> says it of a whole step.
\<close>

section \<open>The log of a core among the logs of the cluster\<close>

text \<open>An AppendEntries is sent to another node, in a term the sender has won, with known links.\<close>

definition carried :: "log_term set \<Rightarrow> (log_term \<times> 'c entry) set \<Rightarrow> node_id \<Rightarrow> 'c effect \<Rightarrow> bool" where
  "carried Own G n e = (case e of
     SendMessage to (AppendEntries t prev_log_index prev_log_term leader_commit ctx es) \<Rightarrow>
       t \<in> Own \<and> to \<noteq> n \<and> contiguous_from (unat prev_log_index) es \<and> joints prev_log_term es \<subseteq> G
   | _ \<Rightarrow> True)"

text \<open>The terms a node has won are not ahead of its own, and it leads, prepares to lead or holds a
  quorum of votes only in a term it has won.\<close>

definition stance :: "log_term set \<Rightarrow> ('c, 'h) raft_core \<Rightarrow> bool" where
  "stance Own c \<longleftrightarrow> (\<forall>t \<in> Own. t \<le> current_term (hard_state c)) \<and> 2 \<le> card (set (cfg_members (config c))) \<and> lonely c \<and>
     (role c = Leader \<or> activating c \<longrightarrow> current_term (hard_state c) \<in> Own) \<and>
     (\<forall>q. votes c = Some q \<longrightarrow> has_quorum q \<longrightarrow> current_term (hard_state c) \<in> Own)"

text \<open>A node in a term it has won holds every index for which the term has an entry.\<close>

definition bounded :: "log_term set \<Rightarrow> (log_term \<times> 'c entry) set \<Rightarrow> ('c, 'h) raft_core \<Rightarrow> bool" where
  "bounded Own G c \<longleftrightarrow> (current_term (hard_state c) \<in> Own \<longrightarrow>
     (\<forall>(p, e) \<in> G. entry_term e = current_term (hard_state c) \<longrightarrow> unat (entry_index e) \<le> log_end (rlog c)))"

text \<open>The log and what was sent consist of known links; a step may add links of terms the node has
  won.\<close>

definition woven :: "log_term set \<Rightarrow> (log_term \<times> 'c entry) set \<Rightarrow> (log_term \<times> 'c entry) set \<Rightarrow> ('c, 'h) run \<Rightarrow> bool" where
  "woven Own J G s \<longleftrightarrow> stance Own (fst s) \<and> bounded Own G (fst s) \<and> log_wf (rlog (fst s)) \<and> coherent G \<and>
     links (rlog (fst s)) \<subseteq> G \<and> J \<subseteq> G \<and> (\<forall>e \<in> set (snd s). carried Own G (cfg_local_id (config (fst s))) e)"

definition weaves :: "log_term set \<Rightarrow> (log_term \<times> 'c entry) set \<Rightarrow> ('c, 'h) run \<Rightarrow> ('c, 'h) run \<Rightarrow> bool" where
  "weaves Own J s t \<longleftrightarrow> (exhausted (fst s) \<longrightarrow> exhausted (fst t)) \<and>
     (\<forall>G. woven Own J G s \<longrightarrow> exhausted (fst t) \<or>
       (\<exists>new. (\<forall>(p, e) \<in> new. entry_term e \<in> Own) \<and> woven Own J (G \<union> new) t))"

interpretation weave: state_relation "weaves Own J"
proof
  show "weaves Own J s s" for s :: "('a, 'b) run"
    unfolding weaves_def by (auto intro: exI [of _ "{}"])
  show "weaves Own J s u" if st: "weaves Own J s t" and tu: "weaves Own J t u" for s t u :: "('a, 'b) run"
    unfolding weaves_def
  proof (intro conjI allI impI)
    show "exhausted (fst s) \<Longrightarrow> exhausted (fst u)" using st tu by (simp add: weaves_def)
    fix G assume G: "woven Own J G s"
    show "exhausted (fst u) \<or> (\<exists>new. (\<forall>(p, e) \<in> new. entry_term e \<in> Own) \<and> woven Own J (G \<union> new) u)"
    proof (cases "exhausted (fst u)")
      case False
      obtain x where x: "\<forall>(p, e) \<in> x. entry_term e \<in> Own" "woven Own J (G \<union> x) t"
        using st tu G False unfolding weaves_def by blast
      then obtain y where "\<forall>(p, e) \<in> y. entry_term e \<in> Own" "woven Own J (G \<union> x \<union> y) u"
        using tu False unfolding weaves_def by blast
      then have "\<forall>(p, e) \<in> x \<union> y. entry_term e \<in> Own" "woven Own J (G \<union> (x \<union> y)) u" using x(1) by (auto simp: Un_assoc)
      then show ?thesis by blast
    qed simp
  qed
qed

lemma weavesI:
  assumes "next_effect_sequence (fst s) \<le> next_effect_sequence (fst t)"
    and "\<And>G. woven Own J G s \<Longrightarrow> \<not> exhausted (fst t) \<Longrightarrow> woven Own J G t"
  shows "weaves Own J s t"
  unfolding weaves_def
proof (intro conjI impI allI)
  show "exhausted (fst t)" if "exhausted (fst s)" using assms(1) that by (simp add: word_order.extremum_unique)
  show "exhausted (fst t) \<or> (\<exists>new. (\<forall>(p, e) \<in> new. entry_term e \<in> Own) \<and> woven Own J (G \<union> new) t)"
    if "woven Own J G s" for G
    using assms(2) [OF that] by (cases "exhausted (fst t)") (auto intro: exI [of _ "{}"])
qed

lemma carried_voiced:
  assumes "voiced b c e" "b \<longrightarrow> role c = Leader \<longrightarrow> current_term (hard_state c) \<in> Own" "b \<or> current_term (hard_state c) \<in> Own"
    and "lonely c" "log_wf (rlog c)" "links (rlog c) \<subseteq> G"
  shows "carried Own G (cfg_local_id (config c)) e"
  using assms unfolding voiced_def carried_def by (auto split: effect.splits message.splits)

lemma woven_eased:
  assumes "eased b s t" "woven Own J G s" "b \<or> current_term (hard_state (fst s)) \<in> Own"
  shows "woven Own J G t"
proof -
  let ?c = "fst s" and ?d = "fst t"
  obtain new where calm: "calm ?c ?d" and new: "snd t = snd s @ new" "\<forall>e \<in> set new. voiced b ?c e"
    using assms(1) by (auto simp: eased_def)
  have c: "stance Own ?c" "bounded Own G ?c" "log_wf (rlog ?c)" "coherent G" "links (rlog ?c) \<subseteq> G" "J \<subseteq> G"
    "\<forall>e \<in> set (snd s). carried Own G (cfg_local_id (config ?c)) e"
    using assms(2) by (simp_all add: woven_def)
  have "\<forall>e \<in> set new. carried Own G (cfg_local_id (config ?c)) e"
    using carried_voiced [of b ?c] new(2) assms(3) c(1,3,5) by (auto simp: stance_def)
  moreover have "stance Own ?d" using c(1) calm by (auto simp: stance_def calm_def)
  moreover have "bounded Own G ?d" "log_wf (rlog ?d)" "links (rlog ?d) \<subseteq> G" "config ?d = config ?c"
    using c(2,3,5) calm by (auto simp: bounded_def calm_def trimmed_def)
  ultimately show ?thesis using c new(1) by (auto simp: woven_def)
qed

lemma eased_seq: "eased b s t \<Longrightarrow> next_effect_sequence (fst s) \<le> next_effect_sequence (fst t)"
  by (simp add: eased_def calm_def)

lemma weaves_eased: "eased True s t \<Longrightarrow> weaves Own J s t"
  by (rule weavesI [OF eased_seq]) (auto intro: woven_eased)

lemma woven_activating: "woven Own J G s \<Longrightarrow> activating (fst s) \<Longrightarrow> current_term (hard_state (fst s)) \<in> Own"
  by (simp add: woven_def stance_def)

lemma weaves_speak: "activating (fst s) \<Longrightarrow> eased False s t \<Longrightarrow> weaves Own J s t"
  by (rule weavesI [OF eased_seq]) (auto intro: woven_eased woven_activating)

lemma weaves_inaugurate:
  assumes "activating (fst s)" "eased False s t"
  shows "weaves Own J s ((fst t)\<lparr>role := Leader, votes := None, active_members := a\<rparr>, snd t)"
proof (rule weavesI)
  show "next_effect_sequence (fst s) \<le> next_effect_sequence (fst ((fst t)\<lparr>role := Leader, votes := None, active_members := a\<rparr>, snd t))"
    using eased_seq [OF assms(2)] by simp
  fix G assume G: "woven Own J G s"
  have "woven Own J G t" "current_term (hard_state (fst t)) \<in> Own"
    using woven_eased [OF assms(2) G] woven_activating [OF G assms(1)] assms(2) by (auto simp: eased_def calm_def)
  then show "woven Own J G ((fst t)\<lparr>role := Leader, votes := None, active_members := a\<rparr>, snd t)"
    by (auto simp: woven_def stance_def bounded_def lonely_def)
qed

text \<open>A new term: the node has not won it, whatever it had won before.\<close>

lemma weaves_retire:
  assumes "config (fst t) = config (fst s)" "next_effect_sequence (fst s) \<le> next_effect_sequence (fst t)"
    and "current_term (hard_state (fst s)) < current_term (hard_state (fst t))" "rlog (fst t) = rlog (fst s)"
    and "progress (fst t) = progress (fst s) \<or> progress (fst t) = []" "snd t = snd s \<or> snd t = snd s @ [Persist i b]"
    and "votes (fst t) = None \<or> votes (fst t) = Some (with_local_vote (cfg_members (config (fst t))) (cfg_local_id (config (fst t))))"
    and "role (fst t) \<noteq> Leader" "\<not> exhausted (fst t) \<Longrightarrow> \<not> activating (fst t)"
  shows "weaves Own J s t"
proof (rule weavesI [OF assms(2)])
  fix G assume G: "woven Own J G s" and n: "\<not> exhausted (fst t)"
  have old: "stance Own (fst s)" using G by (simp add: woven_def)
  then have lost: "current_term (hard_state (fst t)) \<notin> Own" using assms(3) by (auto simp: stance_def)
  have "\<not> has_quorum (with_local_vote ms n)" if "2 \<le> card (set ms)" for ms n
    using that by (auto simp: has_quorum_def qt_quorum_def with_local_vote_def)
  then have "stance Own (fst t)"
    using old assms(1,3,5,7-9) n by (auto simp: stance_def lonely_def bt_keys_def)
  then show "woven Own J G t"
    using G assms(1,4,6) lost by (auto simp: woven_def bounded_def carried_def)
qed

lemma weaves_begin_term_transition:
  assumes "current_term (hard_state (fst s)) < t"
  shows "post (begin_term_transition t NoContinuation) s (\<lambda>_ u. weaves Own J s u)"
  using assms by (auto simp: begin_term_transition_def post_simps chain_iff become_follower_def activating_def
      intro!: post_queue_persist weaves_retire dest: checked_add_le)

lemma weaves_become_candidate: "keeps (weaves Own J) become_candidate"
  unfolding keeps_post
proof
  fix s :: "('a, 'b) run"
  show "post become_candidate s (\<lambda>_ u. weaves Own J s u)"
    by (auto simp: become_candidate_def post_simps chain_iff weave.rel_refl activating_def
      intro!: post_queue_persist weaves_retire checked_next_less dest: checked_add_le)
qed

lemma weaves_on_vote_request: "keeps (weaves Own J) (on_vote_request peer t index log_t)"
  unfolding keeps_post
proof
  fix s :: "('a, 'b) run"
  let ?c = "fst s"
  have cast: "weaves Own J s (?c\<lparr>hard_state := hard_state_new (current_term (hard_state ?c)) (Some peer) i, next_effect_sequence := n,
      pending_persist := Some p\<rparr>, snd s @ [Persist x b])"
    if "\<not> leads (continuation p)" "next_effect_sequence ?c \<le> n" for i n p x b
    using that by (intro weavesI) (auto simp: woven_def stance_def bounded_def activating_def lonely_def carried_def)
  have ran: "weaves Own J s (?c\<lparr>hard_state := h\<rparr>, fx)" if "exhausted ?c" for h fx
    using that by (intro weavesI) auto
  have answer: "post (send_vote_response peer n grant) s (\<lambda>_ u. weaves Own J s u)" for n grant
    by (rule post_weaken [OF ease.post_keeps [OF eased_sends(3) ease.rel_refl]]) (rule weaves_eased)
  show "post (on_vote_request peer t index log_t) s (\<lambda>_ u. weaves Own J s u)"
  proof (cases t "current_term (hard_state ?c)" rule: linorder_cases)
    case equal
    then show ?thesis using cast ran answer
      by (auto simp: on_vote_request_def post_simps chain_iff Let_def intro!: post_queue_persist
          dest: checked_add_le split: option.splits)
  qed (auto simp: on_vote_request_def post_simps chain_iff Let_def activating_def
      intro!: answer post_queue_persist weaves_retire dest: checked_add_le)
qed

text \<open>A node that has won its term appends to its log: the entry is new to every log.\<close>

lemma weaves_mint:
  assumes "log_append (rlog (fst s)) [e] = Ok l" "entry_term e = current_term (hard_state (fst s))"
    and "config (fst t) = config (fst s)" "next_effect_sequence (fst s) \<le> next_effect_sequence (fst t)"
    and "rlog (fst t) = l" "current_term (hard_state (fst t)) = current_term (hard_state (fst s))"
    and "progress (fst t) = progress (fst s)" "votes (fst t) = votes (fst s)" "snd t = snd s \<or> snd t = snd s @ [Persist i b]"
    and own: "\<And>G. woven Own J G s \<Longrightarrow> current_term (hard_state (fst s)) \<in> Own"
  shows "weaves Own J s t"
  unfolding weaves_def
proof (intro conjI impI allI)
  show "exhausted (fst t)" if "exhausted (fst s)" using assms(4) that by (simp add: word_order.extremum_unique)
  fix G assume G: "woven Own J G s"
  have c: "log_wf (rlog (fst s))" "coherent G" "links (rlog (fst s)) \<subseteq> G" "bounded Own G (fst s)" "stance Own (fst s)"
    using G by (simp_all add: woven_def)
  note l = links_append [OF c(1) assms(1)]
  let ?new = "{(term_of (rlog (fst s)) (log_end (rlog (fst s))), e)}"
  have fresh: "entry_index f \<noteq> entry_index e" if "(q, f) \<in> G" "entry_term f = entry_term e" for q f
  proof -
    have "unat (entry_index f) \<le> log_end (rlog (fst s))"
      using that c(4) own [OF G] assms(2) by (auto simp: bounded_def)
    then show ?thesis using l(4) by auto
  qed
  have "coherent (G \<union> ?new)" unfolding coherent_def
  proof (intro ballI, clarify)
    fix p f q g
    assume fg: "(p, f) \<in> G \<union> ?new" "(q, g) \<in> G \<union> ?new" "entry_index f = entry_index g" "entry_term f = entry_term g"
    show "p = q \<and> f = g"
    proof (cases "(p, f) \<in> G \<and> (q, g) \<in> G")
      case True
      then show ?thesis using c(2) fg(3,4) unfolding coherent_def by blast
    next
      case False
      then show ?thesis using fg fresh [of p f] fresh [of q g] by auto
    qed
  qed
  moreover have "bounded Own (G \<union> ?new) (fst t)"
    using c(4) l(3,4) assms(2,5,6) by (fastforce simp: bounded_def)
  moreover have "stance Own (fst t)" using c(5) own [OF G] assms(3,6-8) by (simp add: stance_def lonely_def)
  moreover have "carried Own (G \<union> ?new) n x" if "carried Own G n x" for n x
    using that by (auto simp: carried_def split: effect.splits message.splits)
  moreover have "carried Own G n (Persist i b)" for n by (simp add: carried_def)
  ultimately have "woven Own J (G \<union> ?new) t"
    using G l(1,2) assms(3,5,9) by (auto simp: woven_def)
  moreover have "\<forall>(p, f) \<in> ?new. entry_term f \<in> Own" using own [OF G] assms(2) by simp
  ultimately show "exhausted (fst t) \<or> (\<exists>new. (\<forall>(p, e) \<in> new. entry_term e \<in> Own) \<and> woven Own J (G \<union> new) t)"
    by blast
qed

lemma weaves_noop:
  assumes "votes (fst s) = Some q" "has_quorum q"
  shows "post persist_leader_noop s (\<lambda>_ t. weaves Own J s t)"
proof -
  have own: "current_term (hard_state (fst s)) \<in> Own" if "woven Own J G s" for G
    using that assms by (auto simp: woven_def stance_def)
  let ?next = "\<lambda>l i v. (fst s)\<lparr>rlog := l, last_log_index := i, last_log_term := current_term (hard_state (fst s)), leader_noop_index := v\<rparr>"
  have "weaves Own J s ((?next l i v)\<lparr>next_effect_sequence := n, pending_persist := p\<rparr>, snd s @ [Persist x b])"
    "weaves Own J s (?next l i v, snd s)"
    if "log_append (rlog (fst s)) [e] = Ok l" "entry_term e = current_term (hard_state (fst s))" "next_effect_sequence (fst s) \<le> n"
    for l e i v n p x b
    by (rule weaves_mint [OF that(1,2) _ _ _ _ _ _ _ own]; simp add: that(3))+
  then show ?thesis
    by (fastforce simp: persist_leader_noop_def post_simps chain_iff weave.rel_refl leader_noop_Ok_iff intro!: post_queue_persist
        dest: checked_add_le)
qed

lemma weaves_on_propose: "keeps (weaves Own J) (on_propose pid cmd len)"
  unfolding keeps_post
proof
  fix s :: "('a, 'b) run"
  have own: "current_term (hard_state (fst s)) \<in> Own" if "role (fst s) = Leader" "woven Own J G s" for G
    using that by (auto simp: woven_def stance_def)
  have "weaves Own J s (fst s, snd s @ [ProposalResult pid v])" for v
    by (rule weaves_eased) (simp add: eased_def calm_def voiced_def)
  moreover
  let ?next = "\<lambda>l i v. (fst s)\<lparr>rlog := l, last_log_index := i, last_log_term := current_term (hard_state (fst s)), proposals := v\<rparr>"
  have "weaves Own J s ((?next l i v)\<lparr>next_effect_sequence := n, pending_persist := p\<rparr>, snd s @ [Persist x b])"
    "weaves Own J s (?next l i v, snd s)"
    if "role (fst s) = Leader" "log_append (rlog (fst s)) [e] = Ok l" "entry_term e = current_term (hard_state (fst s))"
      "next_effect_sequence (fst s) \<le> n" for l e i v n p x b
    by (rule weaves_mint [OF that(2,3) _ _ _ _ _ _ _ own [OF that(1)]]; simp add: that(4))+
  ultimately show "post (on_propose pid cmd len) s (\<lambda>_ t. weaves Own J s t)"
    by (fastforce simp: on_propose_def post_simps chain_iff weave.rel_refl entry_command_Ok_iff intro!: post_queue_persist
        dest: checked_add_le)
qed

text \<open>A follower takes over links of the batch it was sent. It has not won the term of the batch, so
  nothing it loses counts.\<close>

lemma weaves_follow:
  assumes "t \<notin> Own" "config d = config c" "current_term (hard_state d) = t" "role d = Follower" "votes d = None" "progress d = []"
    and "pending_persist d = pending_persist c \<and> current_term (hard_state c) = t \<or> \<not> activating d"
    and "log_wf (rlog d)" "links (rlog d) \<subseteq> links (rlog c) \<union> J" "next_effect_sequence c \<le> next_effect_sequence d"
    and "current_term (hard_state c) \<le> t" "\<forall>e \<in> set new. \<not> appends e"
  shows "weaves Own J (c, fx) (d, fx @ new)"
proof (rule weavesI)
  fix G assume G: "woven Own J G (c, fx)"
  have "stance Own c" using G by (simp add: woven_def)
  then have "stance Own d" using assms(1-7,11) by (auto simp: stance_def lonely_def bt_keys_def activating_def)
  moreover have "carried Own G n e" if "\<not> appends e" for n e
    using that by (cases e rule: appends.cases) (auto simp: carried_def)
  ultimately show "woven Own J G (d, fx @ new)"
    using G assms(1-3,8,9,12) by (auto simp: woven_def bounded_def)
qed (use assms(10) in simp)

lemma weaves_conclude_append:
  assumes "t \<notin> Own" "config d = config c" "hard_state d = hard_state c" "role d = Follower" "votes d = None" "progress d = []"
    and "pending_persist d = pending_persist c" "next_effect_sequence d = next_effect_sequence c"
    and "log_wf (rlog d)" "links (rlog d) \<subseteq> links (rlog c) \<union> J" "current_term (hard_state c) \<le> t"
    and "term_changed \<longleftrightarrow> current_term (hard_state c) < t"
  shows "post (conclude_append peer t term_changed prev_log_index ctx success conflict appended) (d, fx)
    (\<lambda>_ u. weaves Own J (c, fx) u)"
proof -
  have same: "current_term (hard_state c) = t" if "\<not> term_changed" using that assms(11,12) by simp
  have "weaves Own J (c, fx) (d, fx @ [SendMessage peer m])" if "\<not> term_changed" "\<not> appends (SendMessage peer m)" for m
    by (rule weaves_follow [OF assms(1)]) (use same [OF that(1)] that(2) in \<open>simp_all add: assms(2-11)\<close>)
  moreover have "weaves Own J (c, fx) (d\<lparr>hard_state := hard_state_new t v i, next_effect_sequence := n, pending_persist := Some p\<rparr>, fx @ [Persist x b])"
    if "next_effect_sequence c \<le> n" "\<not> leads (continuation p)" for v i n p x b
    by (rule weaves_follow [OF assms(1)]) (use that in \<open>simp_all add: assms(2-11) activating_def\<close>)
  moreover have "weaves Own J (c, fx) (d\<lparr>next_effect_sequence := n, pending_persist := Some p\<rparr>, fx @ [Persist x b])"
    if "\<not> term_changed" "next_effect_sequence c \<le> n" "\<not> leads (continuation p)" for n p x b
    by (rule weaves_follow [OF assms(1)]) (use same [OF that(1)] that(2,3) in \<open>simp_all add: assms(2-11) activating_def\<close>)
  moreover have "weaves Own J (c, fx) (d', fx')" if "next_effect_sequence d' = - 1" for d' fx'
    by (rule weavesI) (use that in auto)
  ultimately show ?thesis using assms(8)
    by (auto simp: conclude_append_def post_simps Let_def chain_iff send_append_entries_response_def
        intro!: post_queue_persist dest: checked_add_le)
qed

text \<open>The log of a follower after a batch whose prefix matched.\<close>

lemma merged_log:
  assumes "log_wf l" "contiguous_from (unat prev_log_index) es" "validate_prefix l prev_log_index prev_log_term = Ok Match"
    and "merge_from_leader l es = Ok (m, appended)" "commit_to m i = Ok m'"
  shows "log_wf m'" "links m' \<subseteq> links l \<union> joints prev_log_term es" "is_ok (log_term_at m' (last_index m'))"
proof -
  have "log_term_at l prev_log_index = Ok prev_log_term"
    using assms(3) by (auto simp: validate_prefix_def rbind_Ok_iff split: result.splits log_error.splits if_splits)
  then have b: "base l \<le> unat prev_log_index" "unat prev_log_index \<le> log_end l" "term_of l (unat prev_log_index) = prev_log_term"
    using assms(1) by (simp_all add: log_term_at_Ok_iff)
  have "log_wf m" "links m \<subseteq> links l \<union> joints prev_log_term es"
    using merge_wf [OF assms(1,2) b(1) assms(4)] links_merge [OF assms(1,2) b assms(4)] by auto
  then show m': "log_wf m'" "links m' \<subseteq> links l \<union> joints prev_log_term es"
    using assms(5) by (auto simp: commit_to_Ok_iff)
  then show "is_ok (log_term_at m' (last_index m'))" by (simp add: log_term_at_last is_ok_simps)
qed

lemma weaves_on_append_entries:
  assumes "t \<notin> Own" "contiguous_from (unat prev_log_index) es" "joints prev_log_term es \<subseteq> J"
  shows "post (on_append_entries peer t prev_log_index prev_log_term leader_commit ctx es) (c, fx) (\<lambda>_ u. weaves Own J (c, fx) u)"
proof (cases "log_wf (rlog c)")
  case False
  have "post (on_append_entries peer t prev_log_index prev_log_term leader_commit ctx es) (c, fx) (\<lambda>_ u. serves {} (c, fx) u)"
    by (rule service.post_keeps [OF serves_on_append_entries service.rel_refl])
  then show ?thesis by (rule post_weaken) (use False in \<open>auto simp: weaves_def woven_def serves_def\<close>)
next
  case wf: True
  let ?cur = "current_term (hard_state c)" and ?f = "become_follower c"
  have retired: "weaves Own J (c, fx) (?f, fx)"
    by (rule weaves_eased) (simp add: ease_defs become_follower_def bt_keys_def)
  have merged: "log_wf l'" "links l' \<subseteq> links (rlog c) \<union> J" "is_ok (log_term_at l' (last_index l'))"
    if "validate_prefix (rlog c) prev_log_index prev_log_term = Ok Match" "merge_from_leader (rlog c) es = Ok (l, appended)"
      "commit_to l (min leader_commit (last_index l)) = Ok l'" for l l' appended
    using merged_log [OF wf assms(2) that] assms(3) by auto
  have "post (append_to_log prev_log_index prev_log_term leader_commit es) (?f, fx)
      (chain (\<lambda>(success, conflict, appended). conclude_append peer t (?cur < t) prev_log_index ctx success conflict appended)
        (\<lambda>_ u. weaves Own J (c, fx) u))" if "?cur \<le> t"
  proof -
    have same: "post (conclude_append peer t (?cur < t) prev_log_index ctx success conflict appended) (?f, fx) (\<lambda>_ u. weaves Own J (c, fx) u)"
      for success conflict appended
      by (rule weaves_conclude_append [OF assms(1)]) (use wf that in \<open>auto simp: become_follower_def\<close>)
    have taken: "post (conclude_append peer t (?cur < t) prev_log_index ctx success conflict appended)
        (?f\<lparr>rlog := l', last_log_index := i, last_log_term := n\<rparr>, fx) (\<lambda>_ u. weaves Own J (c, fx) u)"
      if "log_wf l'" "links l' \<subseteq> links (rlog c) \<union> J" for l' i n success conflict appended
      by (rule weaves_conclude_append [OF assms(1)]) (use that \<open>?cur \<le> t\<close> in \<open>auto simp: become_follower_def\<close>)
    show ?thesis
    proof (rule post_append_to_log, goal_cases)
      case (1 r)
      then show ?case using retired by (cases r) (auto simp: post_simps)
    next
      case (2 hint)
      then show ?case using same by (simp add: post_simps)
    next
      case (3 l appended l' last_t)
      then show ?case using taken [OF merged(1,2)] by (simp add: post_simps become_follower_def)
    next
      case (4 l appended l' r)
      then show ?case using merged(3) [of l appended l'] by (simp add: become_follower_def)
    qed
  qed
  moreover have "post (send_append_entries_response peer response) (c, fx) (\<lambda>_ u. weaves Own J (c, fx) u)" for response
    by (rule post_weaken [OF ease.post_keeps [OF eased_sends(1) ease.rel_refl]]) (rule weaves_eased)
  ultimately show ?thesis by (simp add: on_append_entries_def Let_def post_simps not_less)
qed

section \<open>Steps\<close>

text \<open>What is taken for granted of a message: a vote that completes a quorum completes it in a term
  the node then has won; an AppendEntries is of a term the node has not won and carries links
  from \<open>J\<close>.\<close>

definition attends :: "log_term set \<Rightarrow> (log_term \<times> 'c entry) set \<Rightarrow> ('c, 'h) raft_core \<Rightarrow> node_id \<Rightarrow> 'c message \<Rightarrow> bool" where
  "attends Own J c peer m = (case m of
     VoteResponse t grant \<Rightarrow> \<forall>q. votes c = Some q \<longrightarrow> t = current_term (hard_state c) \<longrightarrow>
       has_quorum (record_vote q peer grant) \<longrightarrow> t \<in> Own
   | AppendEntries t prev_log_index prev_log_term leader_commit ctx es \<Rightarrow>
       t \<notin> Own \<and> contiguous_from (unat prev_log_index) es \<and> joints prev_log_term es \<subseteq> J
   | _ \<Rightarrow> True)"

interpretation term_woven: tenure "weaves Own J" "attends Own J"
proof
  fix s t :: "('a, 'b) run" and c :: "('a, 'b) raft_core" and q pid len peer n index log_t grant a prev_log_index prev_log_term leader_commit ctx
    fx and cmd :: 'a and es :: "'a entry list" and m :: "'a message"
  show "weaves Own J s t" if "eased True s t" using that by (rule weaves_eased)
  show "weaves Own J s t" if "activating (fst s)" "eased False s t" using that by (rule weaves_speak)
  show "weaves Own J s ((fst t)\<lparr>role := Leader, votes := None, active_members := a\<rparr>, snd t)" if "activating (fst s)" "eased False s t"
    using that by (rule weaves_inaugurate)
  show "post (begin_term_transition n NoContinuation) s (\<lambda>_ t. weaves Own J s t)" if "current_term (hard_state (fst s)) < n"
    using that by (rule weaves_begin_term_transition)
  show "keeps (weaves Own J) become_candidate" by (rule weaves_become_candidate)
  show "post persist_leader_noop s (\<lambda>_ t. weaves Own J s t)" if "votes (fst s) = Some q" "has_quorum q"
    using that by (rule weaves_noop)
  show "keeps (weaves Own J) (on_propose pid cmd len)" by (rule weaves_on_propose)
  show "keeps (weaves Own J) (on_vote_request peer n index log_t)" by (rule weaves_on_vote_request)
  show "weaves Own J (c, fx) (c\<lparr>votes := Some (record_vote q peer grant)\<rparr>, fx)"
    if "attends Own J c peer (VoteResponse (current_term (hard_state c)) grant)" "votes c = Some q"
    using that by (intro weavesI) (auto simp: attends_def woven_def stance_def bounded_def lonely_def activating_def)
  show "post (on_append_entries peer n prev_log_index prev_log_term leader_commit ctx es) (c, fx) (\<lambda>_ t. weaves Own J (c, fx) t)"
    if "attends Own J c peer (AppendEntries n prev_log_index prev_log_term leader_commit ctx es)"
    using that by (intro weaves_on_append_entries) (auto simp: attends_def)
  show "attends Own J (c\<lparr>active_members := a\<rparr>) peer m = attends Own J c peer m"
    by (simp add: attends_def split: message.splits)
qed

lemma step_weaves:
  assumes "\<not> installs_snapshot event" "\<And>env. event = MessageReceived env \<Longrightarrow> attends Own J c (env_from env) (env_message env)"
    and "step sha c event = (r, c')" "woven Own J G (c, [])" "\<not> exhausted c'"
  obtains new where "\<forall>(p, e) \<in> new. entry_term e \<in> Own" "woven Own J (G \<union> new) (c', collect r)"
proof -
  obtain fx where fx: "weaves Own J (c, []) (c', fx)" "collect r = fx \<or> collect r = []"
    using term_woven.rel_step [OF assms(1-3)] by blast
  then obtain new where "\<forall>(p, e) \<in> new. entry_term e \<in> Own" "woven Own J (G \<union> new) (c', fx)"
    using assms(4,5) by (auto simp: weaves_def)
  then show ?thesis using that [of new] fx(2) by (auto simp: woven_def)
qed

end
