(* ===== verification/Cluster.thy ===== *)
theory Cluster
  imports Core_Logs
begin

text \<open>
  Several cores and the network between them. Every node is the core of \<open>core.rs\<close>; the
  theory adds only what the hosts and the network do, and shows what no single core can
  promise: in one term at most one node leads.
\<close>

section \<open>The cluster\<close>

text \<open>The cores of the members and every envelope that was sent. An envelope stays in the
  mail, so that messages may be delayed, lost, reordered and repeated.\<close>

record ('c, 'h) cluster =
  nodes :: "node_id \<Rightarrow> ('c, 'h) raft_core"
  mail :: "'c envelope set"

text \<open>The hosts put a node's messages into envelopes with its own identity, and hand an
  envelope to the core it is addressed to (\<open>protocol/mod.rs\<close>, \<open>Envelope\<close>). Ticks, client
  requests and completions come as they like.\<close>

definition posted :: "node_id \<Rightarrow> ('c, 'h) raft_core \<Rightarrow> 'c effect list \<Rightarrow> 'c envelope set" where
  "posted n c fx = set (concat (map (\<lambda>e. case e of
     SendMessage to m \<Rightarrow> [\<lparr>env_cluster_id = cfg_cluster_id (config c), env_from = n, env_to = to, env_message = m\<rparr>]
   | _ \<Rightarrow> []) fx))"

lemma posted_iff: "env \<in> posted n c fx \<longleftrightarrow> SendMessage (env_to env) (env_message env) \<in> set fx \<and>
    env_cluster_id env = cfg_cluster_id (config c) \<and> env_from env = n"
  by (induction fx) (auto simp: posted_def split: effect.splits)

definition deliverable :: "('c, 'h) cluster \<Rightarrow> node_id \<Rightarrow> 'c event \<Rightarrow> bool" where
  "deliverable cl n event \<longleftrightarrow> (case event of MessageReceived env \<Rightarrow> env \<in> mail cl \<and> env_to env = n | _ \<Rightarrow> True)"

text \<open>One node takes one step; the effects of a step that fails are lost.\<close>

definition act :: "'h sha256 \<Rightarrow> node_id \<Rightarrow> 'c event \<Rightarrow> ('c, 'h) cluster \<Rightarrow> ('c, 'h) cluster" where
  "act sha n event cl = (let (r, c') = step sha (nodes cl n) event in
     cl\<lparr>nodes := (nodes cl)(n := c'), mail := mail cl \<union> posted n (nodes cl n) (collect r)\<rparr>)"

inductive cluster_run :: "'h sha256 \<Rightarrow> node_id list \<Rightarrow> ('c, 'h) cluster \<Rightarrow> ('c, 'h) cluster \<Rightarrow> bool" for sha ms cl0 where
  idle: "cluster_run sha ms cl0 cl0"
| moved: "cluster_run sha ms cl0 cl \<Longrightarrow> n \<in> set ms \<Longrightarrow> deliverable cl n event \<Longrightarrow> \<not> installs_snapshot event \<Longrightarrow>
    cluster_run sha ms cl0 (act sha n event cl)"

text \<open>The members start from recovered state, under one membership.\<close>

definition founded :: "node_id list \<Rightarrow> ('c, 'h) cluster \<Rightarrow> bool" where
  "founded ms cl \<longleftrightarrow> mail cl = {} \<and> (\<forall>n \<in> set ms. \<exists>cfg recovered.
     core_new cfg recovered = Ok (nodes cl n) \<and> cfg_members cfg = ms \<and> cfg_local_id cfg = n)"

section \<open>Votes across the cluster\<close>

text \<open>The vote a core has on record.\<close>

definition cast_at :: "('c, 'h) raft_core \<Rightarrow> (node_id \<times> log_term) set" where
  "cast_at c = {(v, t). t = current_term (hard_state c) \<and> voted_for (hard_state c) = Some v}"

lemma pledged_cast: "pledged past s \<Longrightarrow> pledged (past \<union> cast_at (fst s)) s"
  unfolding pledged_def ballot_def cast_at_def kept_vote_def by fastforce

text \<open>With the votes that every node has cast so far, those cast for one node.\<close>

definition backers :: "(node_id \<Rightarrow> (node_id \<times> log_term) set) \<Rightarrow> node_id \<Rightarrow> (node_id \<times> log_term) set" where
  "backers past n = {(g, t). (n, t) \<in> past g}"

text \<open>The invariant of the cluster: no node votes for two candidates of a term, every grant
  in the mail is a vote that was cast, and whoever leads is backed.\<close>

definition lawful :: "node_id list \<Rightarrow> (node_id \<Rightarrow> (node_id \<times> log_term) set) \<Rightarrow> ('c, 'h) cluster \<Rightarrow> bool" where
  "lawful ms past cl \<longleftrightarrow>
     (\<forall>n \<in> set ms. cfg_members (config (nodes cl n)) = ms \<and> cfg_local_id (config (nodes cl n)) = n \<and>
        pledged (past n) (nodes cl n, []) \<and> cast_at (nodes cl n) \<subseteq> past n \<and>
        (exhausted (nodes cl n) \<or> office (backers past n) (nodes cl n))) \<and>
     (\<forall>env \<in> mail cl. \<forall>t. env_message env = VoteResponse t True \<longrightarrow>
        env_from env \<in> set ms \<and> (env_to env, t) \<in> past (env_from env))"

lemma lawful_node:
  assumes "lawful ms past cl" "n \<in> set ms"
  shows "cfg_members (config (nodes cl n)) = ms" "cfg_local_id (config (nodes cl n)) = n" "pledged (past n) (nodes cl n, [])"
    "cast_at (nodes cl n) \<subseteq> past n" "\<not> exhausted (nodes cl n) \<Longrightarrow> office (backers past n) (nodes cl n)"
  using assms unfolding lawful_def by auto

lemma lawful_mail:
  assumes "lawful ms past cl" "env \<in> mail cl" "env_message env = VoteResponse t True"
  shows "env_from env \<in> set ms" "(env_to env, t) \<in> past (env_from env)"
  using assms unfolding lawful_def by auto

lemma office_mono: "office R c \<Longrightarrow> R \<subseteq> R' \<Longrightarrow> office R' c"
  unfolding office_def elected_def backed_def by (meson subsetD)

lemma pledged_new_votes:
  assumes "pledged past (c', fx)"
  shows "pledged (past \<union> grants fx \<union> cast_at c') (c', [])"
  using pledged_cast [OF pledged_forget [OF assms]] by simp

lemma lawful_founded:
  assumes "founded ms cl"
  shows "lawful ms (\<lambda>n. cast_at (nodes cl n)) cl"
proof -
  have "pledged (cast_at c) (c, [])" "office R c" "config c = cfg" if "core_new cfg recovered = Ok c" for cfg recovered c R
    using pledged_cast [OF pledged_new [OF that]] that
    by (auto simp: core_new_def Let_def office_def activating_def)
  then show ?thesis using assms unfolding founded_def lawful_def by fastforce
qed

lemma lawful_act:
  assumes lawful: "lawful ms past cl" and n: "n \<in> set ms" and event: "deliverable cl n event" "\<not> installs_snapshot event"
  shows "\<exists>past'. (\<forall>g. past g \<subseteq> past' g) \<and> lawful ms past' (act sha n event cl)"
proof -
  obtain r c' where step: "step sha (nodes cl n) event = (r, c')" by (cases "step sha (nodes cl n) event")
  let ?new = "past n \<union> grants (collect r) \<union> cast_at c'"
  let ?past = "past(n := ?new)"
  have grow: "past g \<subseteq> ?past g" "backers past g \<subseteq> backers ?past g" for g
    by (auto simp: backers_def)
  note node = lawful_node [OF lawful] and letter = lawful_mail [OF lawful]
  have "pledged (past n) (c', collect r)"
    using pledged_step [OF event(2) node(3) [OF n] step] by (simp add: collect_def)
  then have pledged: "pledged ?new (c', [])" by (rule pledged_new_votes)
  have "taken event \<subseteq> backers past n"
    using event(1) letter(2) by (auto simp: taken_def deliverable_def backers_def split: event.splits message.splits bool.splits)
  then have serves: "serves (backers past n) (nodes cl n, []) (c', [])" by (rule step_serves [OF event(2) _ step])
  then have cfg: "config c' = config (nodes cl n)" by (simp add: serves_def)
  have "local_member (nodes cl n)" using node(1,2) [OF n] n by (simp add: local_member_def)
  then have "exhausted c' \<or> office (backers past n) c'"
    using serves node(5) [OF n] by (auto simp: serves_def)
  then have office: "exhausted c' \<or> office (backers ?past n) c'" using office_mono grow(2) by blast
  have others: "exhausted (nodes cl m) \<or> office (backers ?past m) (nodes cl m)" if "m \<in> set ms" for m
    using node(5) [OF that] office_mono grow(2) by blast
  have "env_from env \<in> set ms \<and> (env_to env, t) \<in> ?past (env_from env)"
    if "env \<in> mail cl \<union> posted n (nodes cl n) (collect r)" "env_message env = VoteResponse t True" for env t
    using that letter n by (auto simp: posted_iff grants_def)
  then have "lawful ms ?past (act sha n event cl)"
    using pledged office others node cfg n unfolding lawful_def by (auto simp: act_def step)
  then show ?thesis using grow(1) by blast
qed

lemma lawful_run:
  assumes "cluster_run sha ms cl cl'" "lawful ms past cl"
  shows "\<exists>past'. (\<forall>g. past g \<subseteq> past' g) \<and> lawful ms past' cl'"
  using assms(1)
proof (induction rule: cluster_run.induct)
  case idle
  then show ?case using assms(2) by blast
next
  case (moved cl n event)
  then obtain p where p: "\<forall>g. past g \<subseteq> p g" "lawful ms p cl" by blast
  from lawful_act [OF p(2) moved(2,3,4)] obtain q where "\<forall>g. p g \<subseteq> q g" "lawful ms q (act sha n event cl)" by blast
  then show ?case using p(1) by blast
qed

text \<open>A node has won a term when a quorum of the members, itself among the voters, has voted for it
  there. No two nodes win the same term.\<close>

definition won :: "node_id list \<Rightarrow> (node_id \<Rightarrow> (node_id \<times> log_term) set) \<Rightarrow> node_id \<Rightarrow> log_term \<Rightarrow> bool" where
  "won ms past n t \<longleftrightarrow> (n, t) \<in> past n \<and>
     (\<exists>S \<subseteq> set ms. card (set ms) div 2 + 1 \<le> card S \<and> (\<forall>g \<in> S. (n, t) \<in> past g))"

lemma won_mono: "won ms past n t \<Longrightarrow> \<forall>g. past g \<subseteq> past' g \<Longrightarrow> won ms past' n t"
  unfolding won_def by (meson subsetD)

lemma won_unique:
  assumes "lawful ms past cl" "won ms past a t" "won ms past b t"
  shows "a = b"
proof -
  obtain A where A: "A \<subseteq> set ms" "card (set ms) div 2 + 1 \<le> card A" "\<forall>g \<in> A. (a, t) \<in> past g"
    using assms(2) by (auto simp: won_def)
  obtain B where B: "B \<subseteq> set ms" "card (set ms) div 2 + 1 \<le> card B" "\<forall>g \<in> B. (b, t) \<in> past g"
    using assms(3) by (auto simp: won_def)
  obtain g where g: "g \<in> A" "g \<in> B" using member_majority.quorums_intersect [OF A(1) B(1) A(2) B(2)] by blast
  moreover have "pledged (past g) (nodes cl g, [])" using assms(1) g A(1) unfolding lawful_def by blast
  ultimately show ?thesis using A(3) B(3) unfolding pledged_def ballot_def by blast
qed

lemma elected_won:
  assumes "lawful ms past cl" "n \<in> set ms" "elected (backers past n) (nodes cl n)"
  shows "won ms past n (current_term (hard_state (nodes cl n)))"
proof -
  note node = lawful_node [OF assms(1,2)]
  have own: "(n, current_term (hard_state (nodes cl n))) \<in> past n"
    using node(2,4) assms(3) by (auto simp: elected_def stands_def cast_at_def)
  obtain S where S: "backed (backers past n) (nodes cl n) S" "card (set ms) div 2 + 1 \<le> card S"
    using assms(3) unfolding elected_def node(1) by blast
  have "S \<subseteq> set ms" "\<forall>g \<in> S. (n, current_term (hard_state (nodes cl n))) \<in> past g"
    using S(1) own node(1,2) unfolding backed_def backers_def by auto
  then show ?thesis using own S(2) unfolding won_def by blast
qed

text \<open>
  C4: election safety. In a cluster whose members start from recovered state, run under
  one membership and exchange messages over a network that delays, loses, reorders and
  repeats them, two nodes that lead in the same term, at the same time or one after
  the other, are the same node. It holds while no snapshot installation completes (it
  drops the vote of the term) and while the two nodes have effect identifiers left.
\<close>

theorem election_safety:
  assumes "founded ms cl0" "cluster_run sha ms cl0 cl1" "cluster_run sha ms cl1 cl2"
    and "a \<in> set ms" "role (nodes cl1 a) = Leader" "current_term (hard_state (nodes cl1 a)) = t"
    and "b \<in> set ms" "role (nodes cl2 b) = Leader" "current_term (hard_state (nodes cl2 b)) = t"
    and "next_effect_sequence (nodes cl1 a) \<noteq> - 1" "next_effect_sequence (nodes cl2 b) \<noteq> - 1"
  shows "a = b"
proof -
  obtain p1 where p1: "lawful ms p1 cl1"
    using lawful_run [OF assms(2) lawful_founded [OF assms(1)]] by blast
  obtain p2 where p2: "lawful ms p2 cl2" "\<forall>g. p1 g \<subseteq> p2 g" using lawful_run [OF assms(3) p1] by blast
  have "elected (backers p1 a) (nodes cl1 a)" "elected (backers p2 b) (nodes cl2 b)"
    using lawful_node(5) [OF p1 assms(4,10)] lawful_node(5) [OF p2(1) assms(7,11)] assms(5,8) by (simp_all add: office_def)
  then have "won ms p1 a t" "won ms p2 b t"
    using elected_won [OF p1 assms(4)] elected_won [OF p2(1) assms(7)] assms(6,9) by simp_all
  then show ?thesis using won_unique [OF p2(1)] won_mono [OF _ p2(2)] by blast
qed

text \<open>Three nodes: node 1 is elected with the vote of node 2.\<close>

fun acts :: "'h sha256 \<Rightarrow> (node_id \<times> 'c event) list \<Rightarrow> ('c, 'h) cluster \<Rightarrow> ('c, 'h) cluster" where
  "acts sha [] cl = cl"
| "acts sha ((n, event) # rest) cl = acts sha rest (act sha n event cl)"

fun admissible :: "'h sha256 \<Rightarrow> node_id list \<Rightarrow> (node_id \<times> 'c event) list \<Rightarrow> ('c, 'h) cluster \<Rightarrow> bool" where
  "admissible sha ms [] cl \<longleftrightarrow> True"
| "admissible sha ms ((n, event) # rest) cl \<longleftrightarrow> n \<in> set ms \<and> deliverable cl n event \<and> \<not> installs_snapshot event \<and>
     admissible sha ms rest (act sha n event cl)"

lemma acts_run: "cluster_run sha ms cl0 cl \<Longrightarrow> admissible sha ms evs cl \<Longrightarrow> cluster_run sha ms cl0 (acts sha evs cl)"
  by (induction sha evs cl rule: acts.induct) (auto intro: cluster_run.moved)

definition trio :: "(unit, u8 list) cluster" where
  "trio = \<lparr>nodes = (\<lambda>n. fresh_core\<lparr>config := sample_config\<lparr>cfg_local_id := n\<rparr>\<rparr>), mail = {}\<rparr>"

definition letter :: "node_id \<Rightarrow> node_id \<Rightarrow> unit message \<Rightarrow> node_id \<times> unit event" where
  "letter to sender m = (to, MessageReceived \<lparr>env_cluster_id = cfg_cluster_id sample_config, env_from = sender, env_to = to, env_message = m\<rparr>)"

definition ballot_run :: "(node_id \<times> unit event) list" where
  "ballot_run = [(1, Tick ElectionTick), letter 2 1 (PreVote 3 0 0), letter 1 2 (PreVoteResponse 2 True),
     (1, finished 1 Persisted), letter 2 1 (RequestVote 3 0 0), (2, finished 1 Persisted),
     letter 1 2 (VoteResponse 3 True), (1, finished 2 Persisted)]"

lemmas cluster_eval = ballot_run_def letter_def trio_def act_def deliverable_def installs_snapshot_def posted_def
  run_eval send_pre_vote_response_def

lemma trio_founded: "founded [1, 2, 3] trio"
proof -
  have "core_new (sample_config\<lparr>cfg_local_id := n\<rparr>) \<lparr>rec_hard_state = hard_state_new 2 None 0, rec_snapshot = None,
      rec_entries = [], rec_format_version = format_version\<rparr> = Ok (nodes trio n)" for n
    by (simp add: core_new_def trio_def fresh_core_def sample_defs Let_def from_recovered_def boundary_index_def boundary_term_def)
  moreover have "cfg_members sample_config = [1, 2, 3]" by (simp add: sample_config_def)
  ultimately show ?thesis unfolding founded_def by (force simp: trio_def)
qed

lemma trio_admissible: "admissible plain_sha [1, 2, 3] ballot_run trio"
  by (simp add: cluster_eval)

lemma trio_elected:
  "role (nodes (acts plain_sha ballot_run trio) 1) = Leader"
  "current_term (hard_state (nodes (acts plain_sha ballot_run trio) 1)) = 3"
  "next_effect_sequence (nodes (acts plain_sha ballot_run trio) 1) \<noteq> - 1"
  by (simp_all add: cluster_eval)

theorem election_safety_witness:
  "{b \<in> {1, 2, 3}. let c = nodes (acts plain_sha ballot_run trio) b in
     role c = Leader \<and> current_term (hard_state c) = 3 \<and> next_effect_sequence c \<noteq> - 1} = {1}"
proof -
  have "cluster_run plain_sha [1, 2, 3] trio (acts plain_sha ballot_run trio)"
    by (rule acts_run [OF cluster_run.idle trio_admissible])
  from election_safety [OF trio_founded this cluster_run.idle _ trio_elected(1,2), of _] trio_elected
  show ?thesis by (auto simp: Let_def)
qed

end
