(* ===== verification/Core_Office.thy ===== *)
theory Core_Office
  imports Core_Logs
begin

text \<open>
  Within a term a node only adds to its log, as long as it is sent no entries of that very
  term: the laws of \<open>tenure\<close> for a third relation. A node that has won the term is never sent
  any, which is for the cluster to show.
\<close>

section \<open>Logs that only grow\<close>

definition outgrown :: "'c raft_log \<Rightarrow> 'c raft_log \<Rightarrow> bool" where
  "outgrown l l' \<longleftrightarrow> (log_wf l \<longrightarrow> log_wf l' \<and> base l \<le> base l' \<and> log_end l \<le> log_end l' \<and>
     (\<forall>i. base l' < i \<longrightarrow> i \<le> log_end l \<longrightarrow> view l' i = view l i))"

lemma outgrown_refl [simp]: "outgrown l l"
  by (simp add: outgrown_def)

lemma outgrown_trans: "outgrown l m \<Longrightarrow> outgrown m n \<Longrightarrow> outgrown l n"
  by (auto simp: outgrown_def)

lemma outgrown_append: "log_append l es = Ok l' \<Longrightarrow> outgrown l l'"
  unfolding outgrown_def
proof
  assume ok: "log_append l es = Ok l'" and wf: "log_wf l"
  have "base l' = base l" "log_end l' = log_end l + length es"
    using ok wf by (auto simp: log_append_Ok_iff log_end_def)
  then show "log_wf l' \<and> base l \<le> base l' \<and> log_end l \<le> log_end l' \<and> (\<forall>i. base l' < i \<longrightarrow> i \<le> log_end l \<longrightarrow> view l' i = view l i)"
    using log_append_wf [OF wf ok] log_append_view [OF wf ok] by simp
qed

lemma outgrown_trimmed:
  assumes "trimmed l l'"
  shows "outgrown l l'"
  unfolding outgrown_def
proof
  assume wf: "log_wf l"
  have l': "log_wf l'" "links l' \<subseteq> links l" "log_end l' = log_end l" using assms wf by (auto simp: trimmed_def)
  have behind: "view l i = Some e" if held: "view l' i = Some e" for i e
  proof -
    obtain j where "view l j = Some e" using l'(2) linksI [OF held] by (auto simp: links_def)
    then show ?thesis using view_index [OF wf, of j e] view_index [OF l'(1) held] by simp
  qed
  have "base l \<le> base l'"
  proof (cases "base l' < log_end l'")
    case True
    then have "view l' (base l' + 1) \<noteq> None" by (simp add: view_def)
    then obtain e where "view l' (base l' + 1) = Some e" by blast
    then show ?thesis using behind view_Some_iff [of l] by force
  next
    case False
    then show ?thesis using l'(3) by (simp add: log_end_def)
  qed
  moreover have "view l' i = view l i" if "base l' < i" "i \<le> log_end l" for i
    using that l'(3) behind [of i] by (cases "view l' i") (auto simp: view_None_iff)
  ultimately show "log_wf l' \<and> base l \<le> base l' \<and> log_end l \<le> log_end l' \<and> (\<forall>i. base l' < i \<longrightarrow> i \<le> log_end l \<longrightarrow> view l' i = view l i)"
    using l' by simp
qed

section \<open>Within a term\<close>

definition amasses :: "('c, 'h) run \<Rightarrow> ('c, 'h) run \<Rightarrow> bool" where
  "amasses s t \<longleftrightarrow> current_term (hard_state (fst s)) < current_term (hard_state (fst t)) \<or>
     current_term (hard_state (fst s)) = current_term (hard_state (fst t)) \<and> outgrown (rlog (fst s)) (rlog (fst t))"

interpretation amass: state_relation amasses
  by unfold_locales (auto simp: amasses_def intro: outgrown_trans)

lemma amasses_eased: "eased b s t \<Longrightarrow> amasses s t"
  by (auto simp: eased_def calm_def amasses_def intro: outgrown_trimmed)

text \<open>Entries of the node's own term are not sent to it.\<close>

definition foreign :: "('c, 'h) raft_core \<Rightarrow> node_id \<Rightarrow> 'c message \<Rightarrow> bool" where
  "foreign c peer m = (case m of
     AppendEntries t prev_log_index prev_log_term leader_commit ctx es \<Rightarrow>
       t \<noteq> current_term (hard_state c) \<and> contiguous_from (unat prev_log_index) es
   | _ \<Rightarrow> True)"

lemma amasses_become_candidate: "keeps amasses become_candidate"
  unfolding keeps_post
  by (auto simp: become_candidate_def post_simps chain_iff amass.rel_refl amasses_def
      intro!: post_queue_persist dest: checked_next_less)

lemma amasses_mints: "keeps amasses persist_leader_noop" "keeps amasses (on_propose pid cmd len)"
  unfolding keeps_post
  by (auto simp: persist_leader_noop_def on_propose_def post_simps chain_iff amasses_def
      intro!: post_queue_persist dest: outgrown_append)

lemma amasses_on_vote_request: "keeps amasses (on_vote_request peer n index log_t)"
  unfolding keeps_post
  by (auto simp: on_vote_request_def post_simps chain_iff Let_def amasses_def send_vote_response_def
      intro!: post_queue_persist split: option.splits)

lemma amasses_on_append_entries:
  assumes "n \<noteq> current_term (hard_state c)" "contiguous_from (unat prev_log_index) es"
  shows "post (on_append_entries peer n prev_log_index prev_log_term leader_commit ctx es) (c, fx) (\<lambda>_ t. amasses (c, fx) t)"
proof (cases "current_term (hard_state c) < n")
  case False
  then show ?thesis using assms(1) by (auto simp: on_append_entries_def Let_def post_simps amasses_def send_append_entries_response_def)
next
  case True
  let ?f = "become_follower c"
  have tail: "post (conclude_append peer n True prev_log_index ctx success conflict appended) (d, fx') (\<lambda>_ t. amasses (c, fx) t)"
    for d fx' success conflict appended
    using True by (auto simp: conclude_append_def post_simps Let_def chain_iff amasses_def intro!: post_queue_persist)
  have retired: "amasses (c, fx) (?f, fx)" by (simp add: amasses_def become_follower_def)
  have stuck: "amasses (c, fx) (?f\<lparr>rlog := l', last_log_index := i\<rparr>, fx)"
    if "validate_prefix (rlog c) prev_log_index prev_log_term = Ok Match" "merge_from_leader (rlog c) es = Ok (l, appended)"
      "commit_to l (min leader_commit (last_index l)) = Ok l'" "\<not> is_ok (log_term_at l' (last_index l'))" for l l' appended i
  proof -
    have "\<not> log_wf (rlog c)" using merged_log(3) [OF _ assms(2) that(1-3)] that(4) by blast
    then show ?thesis by (simp add: amasses_def outgrown_def become_follower_def)
  qed
  have "post (append_to_log prev_log_index prev_log_term leader_commit es) (?f, fx)
      (chain (\<lambda>(success, conflict, appended). conclude_append peer n True prev_log_index ctx success conflict appended)
        (\<lambda>_ t. amasses (c, fx) t))"
  proof (rule post_append_to_log, goal_cases)
    case (1 r)
    then show ?case using retired by (cases r) (auto simp: post_simps)
  next
    case (2 hint)
    then show ?case using tail by (simp add: post_simps)
  next
    case (3 l appended l' last_t)
    then show ?case using tail by (simp add: post_simps)
  next
    case (4 l appended l' r)
    then show ?case using stuck [of l appended l'] by (cases r) (auto simp: post_simps become_follower_def)
  qed
  then show ?thesis using True by (simp add: on_append_entries_def Let_def post_simps order_less_not_sym)
qed

interpretation term_amassed: tenure amasses foreign
proof
  fix s t :: "('a, 'b) run" and c :: "('a, 'b) raft_core" and q pid len peer n index log_t grant a prev_log_index prev_log_term leader_commit ctx
    fx and cmd :: 'a and es :: "'a entry list" and m :: "'a message"
  show "amasses s t" if "eased True s t" using that by (rule amasses_eased)
  show "amasses s t" if "activating (fst s)" "eased False s t" using that(2) by (rule amasses_eased)
  show "amasses s ((fst t)\<lparr>role := Leader, votes := None, active_members := a\<rparr>, snd t)" if "activating (fst s)" "eased False s t"
    using amasses_eased [OF that(2)] by (simp add: amasses_def)
  show "post (begin_term_transition n NoContinuation) s (\<lambda>_ t. amasses s t)" if "current_term (hard_state (fst s)) < n"
    using that by (auto simp: begin_term_transition_def post_simps chain_iff become_follower_def amasses_def intro!: post_queue_persist)
  show "keeps amasses become_candidate" by (rule amasses_become_candidate)
  show "post persist_leader_noop s (\<lambda>_ t. amasses s t)" if "votes (fst s) = Some q" "has_quorum q"
    by (rule amass.post_keeps [OF amasses_mints(1) amass.rel_refl])
  show "keeps amasses (on_propose pid cmd len)" by (rule amasses_mints)
  show "keeps amasses (on_vote_request peer n index log_t)" by (rule amasses_on_vote_request)
  show "amasses (c, fx) (c\<lparr>votes := Some (record_vote q peer grant)\<rparr>, fx)"
    if "foreign c peer (VoteResponse (current_term (hard_state c)) grant)" "votes c = Some q"
    by (simp add: amasses_def)
  show "post (on_append_entries peer n prev_log_index prev_log_term leader_commit ctx es) (c, fx) (\<lambda>_ t. amasses (c, fx) t)"
    if "foreign c peer (AppendEntries n prev_log_index prev_log_term leader_commit ctx es)"
    using that by (intro amasses_on_append_entries) (auto simp: foreign_def)
  show "foreign (c\<lparr>active_members := a\<rparr>) peer m = foreign c peer m"
    by (simp add: foreign_def split: message.splits)
qed

lemma step_amasses:
  assumes "\<not> installs_snapshot event" "\<And>env. event = MessageReceived env \<Longrightarrow> foreign c (env_from env) (env_message env)"
    and "step sha c event = (r, c')"
  shows "amasses (c, []) (c', [])"
proof -
  obtain fx where "amasses (c, []) (c', fx)" using term_amassed.rel_step [OF assms] by blast
  then show ?thesis by (simp add: amasses_def)
qed

end
