(* ===== verification/Cluster_Logs.thy ===== *)
theory Cluster_Logs
  imports Cluster Core_Office
begin

text \<open>
  The logs of the members, taken together. The invariant \<open>aligned\<close> adds to \<open>lawful\<close> a set of links
  that covers every log and every AppendEntries in the mail, in which index and term
  determine the link, and each of whose links was made by the node that won its term. A
  step of a node keeps it (\<open>Core_Logs\<close>); that no two nodes win a term keeps the links of
  different nodes apart. What follows are the Log Matching and the Leader Append-Only
  properties of Raft.
\<close>

section \<open>The logs of the cluster\<close>

text \<open>The node that won the term of an entry, while still in that term, has the entry's index.\<close>

definition owned :: "node_id list \<Rightarrow> (node_id \<Rightarrow> (node_id \<times> log_term) set) \<Rightarrow> ('c, 'h) cluster \<Rightarrow> 'c entry \<Rightarrow> node_id \<Rightarrow> bool" where
  "owned ms past cl e n \<longleftrightarrow> n \<in> set ms \<and> won ms past n (entry_term e) \<and>
     (current_term (hard_state (nodes cl n)) = entry_term e \<longrightarrow> unat (entry_index e) \<le> log_end (rlog (nodes cl n)))"

definition aligned :: "node_id list \<Rightarrow> (node_id \<Rightarrow> (node_id \<times> log_term) set) \<Rightarrow> (log_term \<times> 'c entry) set \<Rightarrow> ('c, 'h) cluster \<Rightarrow> bool" where
  "aligned ms past G cl \<longleftrightarrow> lawful ms past cl \<and> coherent G \<and>
     (\<forall>n \<in> set ms. lonely (nodes cl n) \<and> log_wf (rlog (nodes cl n)) \<and> links (rlog (nodes cl n)) \<subseteq> G) \<and>
     (\<forall>(p, e) \<in> G. \<exists>n. owned ms past cl e n) \<and>
     (\<forall>env \<in> mail cl. \<forall>t i p commit ctx es. env_message env = AppendEntries t i p commit ctx es \<longrightarrow>
        env_from env \<noteq> env_to env \<and> won ms past (env_from env) t \<and> contiguous_from (unat i) es \<and> joints p es \<subseteq> G)"

lemma aligned_node:
  assumes "aligned ms past G cl" "n \<in> set ms"
  shows "lonely (nodes cl n)" "log_wf (rlog (nodes cl n))" "links (rlog (nodes cl n)) \<subseteq> G"
  using assms unfolding aligned_def by auto

lemma aligned_mail:
  assumes "aligned ms past G cl" "env \<in> mail cl" "env_message env = AppendEntries t i p commit ctx es"
  shows "env_from env \<noteq> env_to env" "won ms past (env_from env) t" "contiguous_from (unat i) es" "joints p es \<subseteq> G"
  using assms unfolding aligned_def by blast+

lemma exhausted_act:
  assumes "\<not> installs_snapshot event" "exhausted (nodes cl m)"
  shows "exhausted (nodes (act sha n event cl) m)"
proof -
  obtain r c' where step: "step sha (nodes cl n) event = (r, c')" by (cases "step sha (nodes cl n) event")
  have "serves (taken event) (nodes cl n, []) (c', [])" by (rule step_serves [OF assms(1) subset_refl step])
  then show ?thesis using assms(2) by (auto simp: act_def step serves_def)
qed

text \<open>Before a step: what the node takes for granted of itself and of the message.\<close>

lemma aligned_woven:
  assumes "aligned ms past G cl" "n \<in> set ms" "2 \<le> card (set ms)" "\<not> exhausted (nodes cl n)" "J \<subseteq> G"
  shows "woven {t. won ms past n t} J G (nodes cl n, [])"
proof -
  let ?c = "nodes cl n" and ?Own = "{t. won ms past n t}"
  have lawful: "lawful ms past cl" using assms(1) by (simp add: aligned_def)
  note node = lawful_node [OF lawful assms(2)]
  have "t \<le> current_term (hard_state ?c)" if "won ms past n t" for t
  proof -
    have "(n, t) \<in> ballot (past n) (?c, [])" using that by (simp add: won_def ballot_def)
    then have "kept_vote (hard_state ?c) n t" using node(3) by (simp add: pledged_def)
    then show ?thesis by (auto simp: kept_vote_def)
  qed
  moreover have "elected (backers past n) ?c" if "votes ?c = Some q" "has_quorum q" for q
    using that node(5) [OF assms(4)] by (auto simp: office_def elected_def has_quorum_def qt_quorum_def)
  moreover have "elected (backers past n) ?c" if "role ?c = Leader \<or> activating ?c"
    using that node(5) [OF assms(4)] by (auto simp: office_def)
  ultimately have "stance ?Own ?c"
    using elected_won [OF lawful assms(2)] node(1) assms(3) aligned_node(1) [OF assms(1,2)] unfolding stance_def by simp
  moreover have "bounded ?Own G ?c" unfolding bounded_def
  proof clarify
    fix p e assume own: "won ms past n (current_term (hard_state ?c))" and e: "(p, e) \<in> G" "entry_term e = current_term (hard_state ?c)"
    obtain m where m: "owned ms past cl e m" using assms(1) e(1) unfolding aligned_def by blast
    then have "won ms past m (current_term (hard_state ?c))" using e(2) by (simp add: owned_def)
    then have "m = n" using own by (rule won_unique [OF lawful])
    then show "unat (entry_index e) \<le> log_end (rlog ?c)" using m e(2) by (simp add: owned_def)
  qed
  ultimately show ?thesis
    using aligned_node [OF assms(1,2)] assms(1,5) by (simp add: woven_def aligned_def)
qed

lemma aligned_attends:
  assumes "aligned ms past G cl" "n \<in> set ms" "\<not> exhausted (nodes cl n)" "env \<in> mail cl" "env_to env = n"
    and J: "\<And>t i p commit ctx es. env_message env = AppendEntries t i p commit ctx es \<Longrightarrow> joints p es \<subseteq> J"
  shows "attends {t. won ms past n t} J (nodes cl n) (env_from env) (env_message env)"
proof -
  let ?c = "nodes cl n"
  have lawful: "lawful ms past cl" using assms(1) by (simp add: aligned_def)
  then have office: "office (backers past n) ?c" using assms(2,3) by (rule lawful_node(5))
  have "won ms past n t" if "env_message env = VoteResponse t grant" "votes ?c = Some q" "t = current_term (hard_state ?c)"
    "has_quorum (record_vote q (env_from env) grant)" for t grant q
  proof -
    have "(env_from env, current_term (hard_state ?c)) \<in> backers past n" if grant
      using lawful_mail(2) [OF lawful assms(4)] that \<open>env_message env = _\<close> \<open>t = _\<close> assms(5) by (simp add: backers_def)
    from office_tally [OF office that(2) this] have "elected (backers past n) (?c\<lparr>votes := Some (record_vote q (env_from env) grant)\<rparr>)"
      using that(4) by (auto simp: office_def elected_def has_quorum_def qt_quorum_def)
    then have "elected (backers past n) ?c" by (simp add: elected_def stands_def backed_def)
    then show ?thesis using elected_won [OF lawful assms(2)] that(3) by simp
  qed
  moreover have "\<not> won ms past n t \<and> contiguous_from (unat i) es" if "env_message env = AppendEntries t i p commit ctx es" for t i p commit ctx es
    using aligned_mail [OF assms(1,4) that] won_unique [OF lawful] assms(5) by blast
  ultimately show ?thesis using J by (auto simp: attends_def split: message.splits)
qed

text \<open>The links a message brings.\<close>

definition brought :: "'c event \<Rightarrow> (log_term \<times> 'c entry) set" where
  "brought event = (case event of
     MessageReceived env \<Rightarrow> (case env_message env of AppendEntries t i p commit ctx es \<Rightarrow> joints p es | _ \<Rightarrow> {})
   | _ \<Rightarrow> {})"

lemma aligned_act:
  assumes aligned: "aligned ms past G cl" and n: "n \<in> set ms" "2 \<le> card (set ms)"
    and event: "deliverable cl n event" "\<not> installs_snapshot event"
    and spare: "\<forall>m \<in> set ms. \<not> exhausted (nodes (act sha n event cl) m)"
  shows "\<exists>past' G'. (\<forall>g. past g \<subseteq> past' g) \<and> aligned ms past' G' (act sha n event cl)"
proof -
  let ?Own = "{t. won ms past n t}" and ?J = "brought event" and ?cl = "act sha n event cl"
  obtain r c' where step: "step sha (nodes cl n) event = (r, c')" by (cases "step sha (nodes cl n) event")
  have after: "nodes ?cl = (nodes cl)(n := c')" "mail ?cl = mail cl \<union> posted n (nodes cl n) (collect r)"
    by (simp_all add: act_def step)
  have lawful: "lawful ms past cl" using aligned by (simp add: aligned_def)
  obtain past' where past': "\<forall>g. past g \<subseteq> past' g" "lawful ms past' ?cl"
    using lawful_act [OF lawful n(1) event] by blast
  have fresh: "\<not> exhausted (nodes cl n)" "\<not> exhausted c'"
    using spare n(1) exhausted_act [OF event(2), of cl n sha n] after(1) by auto
  have "?J \<subseteq> G"
    using event(1) by (auto simp: brought_def deliverable_def dest: aligned_mail(4) [OF aligned, THEN subsetD] split: event.splits message.splits)
  then have "woven ?Own ?J G (nodes cl n, [])" by (rule aligned_woven [OF aligned n fresh(1)])
  moreover have "attends ?Own ?J (nodes cl n) (env_from env) (env_message env)" if "event = MessageReceived env" for env
    by (rule aligned_attends [OF aligned n(1) fresh(1)]) (use event(1) that in \<open>auto simp: deliverable_def brought_def\<close>)
  ultimately obtain new where new: "\<forall>(p, e) \<in> new. entry_term e \<in> ?Own" "woven ?Own ?J (G \<union> new) (c', collect r)"
    using step_weaves [OF event(2) _ step _ fresh(2)] by metis
  have cfg: "cfg_local_id (config c') = n" using lawful_node(2) [OF past'(2) n(1)] after(1) by simp
  have mine: "owned ms past' ?cl e n" if "(p, e) \<in> G \<union> new" "won ms past n (entry_term e)" for p e
  proof -
    have "unat (entry_index e) \<le> log_end (rlog c')" if "current_term (hard_state c') = entry_term e"
      using new(2) that \<open>(p, e) \<in> G \<union> new\<close> \<open>won ms past n (entry_term e)\<close> unfolding woven_def bounded_def by fastforce
    then show ?thesis using won_mono [OF that(2) past'(1)] n(1) after(1) by (simp add: owned_def)
  qed
  have owners: "\<exists>m. owned ms past' ?cl e m" if e: "(p, e) \<in> G \<union> new" for p e
  proof (cases "(p, e) \<in> G")
    case True
    then obtain m where m: "owned ms past cl e m" using aligned unfolding aligned_def by blast
    have "won ms past m (entry_term e)" using m by (simp add: owned_def)
    then have "won ms past n (entry_term e)" if "m = n" using that by simp
    moreover have "owned ms past' ?cl e m" if "m \<noteq> n"
      using m that won_mono [OF _ past'(1), of ms m] after(1) by (simp add: owned_def)
    ultimately show ?thesis using mine [OF e] by blast
  next
    case False
    then have "(p, e) \<in> new" using e by simp
    then have "won ms past n (entry_term e)" using new(1) by (auto dest: bspec)
    then show ?thesis using mine [OF e] by blast
  qed
  have letters: "env_from env \<noteq> env_to env" "won ms past' (env_from env) t" "contiguous_from (unat i) es" "joints p es \<subseteq> G \<union> new"
    if letter: "env \<in> mail ?cl" "env_message env = AppendEntries t i p commit ctx es" for env t i p commit ctx es
  proof -
    consider "env \<in> mail cl" | "env \<in> posted n (nodes cl n) (collect r)" using letter(1) unfolding after(2) Un_iff by blast
    then have "env_from env \<noteq> env_to env \<and> won ms past' (env_from env) t \<and> contiguous_from (unat i) es \<and> joints p es \<subseteq> G \<union> new"
    proof cases
      case 1
      then show ?thesis using aligned_mail [OF aligned 1 letter(2)] won_mono [OF _ past'(1)] by blast
    next
      case 2
      then have "SendMessage (env_to env) (AppendEntries t i p commit ctx es) \<in> set (collect r)" "env_from env = n"
        using letter(2) by (auto simp: posted_iff)
      then have "carried ?Own (G \<union> new) n (SendMessage (env_to env) (AppendEntries t i p commit ctx es))"
        using new(2) cfg unfolding woven_def by auto
      then show ?thesis using won_mono [OF _ past'(1)] \<open>env_from env = n\<close> by (auto simp: carried_def)
    qed
    then show "env_from env \<noteq> env_to env" "won ms past' (env_from env) t" "contiguous_from (unat i) es" "joints p es \<subseteq> G \<union> new"
      by auto
  qed
  have "coherent (G \<union> new)" "lonely c'" "log_wf (rlog c')" "links (rlog c') \<subseteq> G \<union> new"
    using new(2) by (auto simp: woven_def stance_def)
  then have "\<forall>m \<in> set ms. lonely (nodes ?cl m) \<and> log_wf (rlog (nodes ?cl m)) \<and> links (rlog (nodes ?cl m)) \<subseteq> G \<union> new"
    using aligned_node(1,2) [OF aligned] after(1) by (auto dest: aligned_node(3) [OF aligned, THEN subsetD])
  moreover have "\<forall>(p, e) \<in> G \<union> new. \<exists>m. owned ms past' ?cl e m" using owners by blast
  moreover have "\<forall>env \<in> mail ?cl. \<forall>t i p commit ctx es. env_message env = AppendEntries t i p commit ctx es \<longrightarrow>
      env_from env \<noteq> env_to env \<and> won ms past' (env_from env) t \<and> contiguous_from (unat i) es \<and> joints p es \<subseteq> G \<union> new"
    by (intro ballI allI impI conjI; rule letters; assumption)
  ultimately have "aligned ms past' (G \<union> new) ?cl"
    unfolding aligned_def using past'(2) \<open>coherent (G \<union> new)\<close> by (intro conjI)
  then show ?thesis using past'(1) by blast
qed

lemma exhausted_run: "cluster_run sha ms cl0 cl \<Longrightarrow> exhausted (nodes cl0 m) \<Longrightarrow> exhausted (nodes cl m)"
  by (induction rule: cluster_run.induct) (auto intro: exhausted_act)

lemma aligned_run:
  assumes "cluster_run sha ms cl0 cl" "2 \<le> card (set ms)" "aligned ms past G cl0" "\<forall>n \<in> set ms. \<not> exhausted (nodes cl n)"
  shows "\<exists>past' G'. (\<forall>g. past g \<subseteq> past' g) \<and> aligned ms past' G' cl"
  using assms(1,4)
proof (induction rule: cluster_run.induct)
  case idle
  then show ?case using assms(3) by blast
next
  case (moved cl n event)
  have "\<forall>m \<in> set ms. \<not> exhausted (nodes cl m)" using exhausted_act [OF moved(4)] moved.prems by blast
  with moved.IH obtain past' G' where p: "\<forall>g. past g \<subseteq> past' g" "aligned ms past' G' cl" by blast
  from aligned_act [OF p(2) moved(2) assms(2) moved(3,4,6)] show ?case using p(1) by blast
qed

text \<open>Nothing has been logged.\<close>

definition unwritten :: "node_id list \<Rightarrow> ('c, 'h) cluster \<Rightarrow> bool" where
  "unwritten ms cl \<longleftrightarrow> (\<forall>n \<in> set ms. log_entries (rlog (nodes cl n)) = [] \<and> log_snapshot (rlog (nodes cl n)) = None)"

lemma aligned_founded:
  assumes "founded ms cl" "unwritten ms cl"
  shows "aligned ms (\<lambda>n. cast_at (nodes cl n)) {} cl"
proof -
  have "progress c = []" if "core_new cfg recovered = Ok c" for cfg recovered c
    using that by (auto simp: core_new_def Let_def)
  then have "progress (nodes cl n) = []" if "n \<in> set ms" for n
    using assms(1) that unfolding founded_def by blast
  then have "lonely (nodes cl n)" "log_wf (rlog (nodes cl n))" "links (rlog (nodes cl n)) = {}" if "n \<in> set ms" for n
    using assms(2) that by (auto simp: unwritten_def lonely_def log_wf_def links_def view_def log_end_def bt_keys_def)
  moreover have "mail cl = {}" using assms(1) by (simp add: founded_def)
  moreover have "coherent {}" by (simp add: coherent_def)
  ultimately show ?thesis using lawful_founded [OF assms(1)] by (simp add: aligned_def)
qed

text \<open>
  C5: Log Matching across the cluster. Members that start with empty logs run under one
  membership and exchange messages over a network that delays, loses, reorders and repeats
  them. If the logs of two members have an entry of the same term at the same index, they
  agree on every index up to it that neither has compacted. It holds while no snapshot
  installation completes (it drops the vote of the term) and the members have effect
  identifiers left.
\<close>

theorem log_matching:
  assumes "founded ms cl0" "unwritten ms cl0" "cluster_run sha ms cl0 cl"
    and "\<forall>n \<in> set ms. next_effect_sequence (nodes cl n) \<noteq> - 1"
    and "a \<in> set ms" "view (rlog (nodes cl a)) i = Some e"
    and "b \<in> set ms" "view (rlog (nodes cl b)) i = Some f"
    and "entry_term e = entry_term f" "k \<le> i" "base (rlog (nodes cl a)) < k" "base (rlog (nodes cl b)) < k"
  shows "view (rlog (nodes cl a)) k = view (rlog (nodes cl b)) k"
proof (cases "a = b")
  case False
  have "card {a, b} \<le> card (set ms)" using assms(5,7) by (intro card_mono) auto
  then have "2 \<le> card (set ms)" using False by simp
  then obtain past G where aligned: "aligned ms past G cl" using aligned_run [OF assms(3) _ aligned_founded [OF assms(1,2)] assms(4)] by blast
  note a = aligned_node [OF aligned assms(5)] and b = aligned_node [OF aligned assms(7)]
  have "coherent G" using aligned by (simp add: aligned_def)
  then show ?thesis by (rule coherent_match [OF _ a(3) b(3) a(2) b(2) assms(6,8-12)])
qed simp

text \<open>Node 1 is elected, takes a proposal and brings node 2 up to date after a refused probe.\<close>

definition catch_up_run :: "(node_id \<times> unit event) list" where
  "catch_up_run = [(1, Propose 7 () 4), (1, finished 3 Persisted), letter 2 1 (AppendEntries 3 1 3 0 None []),
     letter 1 2 (AppendEntriesResponse 3 False 1 (Some \<lparr>hint_index = 1, hint_term = None\<rparr>) None),
     letter 2 1 (AppendEntries 3 0 0 0 None [noop_at 1 3, \<lparr>entry_index = 2, entry_term = 3, encoded_len = 4, payload = Command ()\<rparr>])]"

lemma acts_append: "acts sha (xs @ ys) cl = acts sha ys (acts sha xs cl)"
  by (induction sha xs cl rule: acts.induct) simp_all

lemma admissible_append: "admissible sha ms (xs @ ys) cl \<longleftrightarrow> admissible sha ms xs cl \<and> admissible sha ms ys (acts sha xs cl)"
  by (induction sha ms xs cl rule: admissible.induct) simp_all

lemma catch_up_admissible: "admissible plain_sha [1, 2, 3] (ballot_run @ catch_up_run) trio"
  by (simp add: catch_up_run_def cluster_eval)

lemma catch_up_state:
  defines "cl \<equiv> acts plain_sha (ballot_run @ catch_up_run) trio"
  shows "\<forall>n \<in> set [1, 2, 3]. next_effect_sequence (nodes cl n) \<noteq> - 1"
    "view (rlog (nodes cl 1)) 2 = Some \<lparr>entry_index = 2, entry_term = 3, encoded_len = 4, payload = Command ()\<rparr>"
    "view (rlog (nodes cl 2)) 2 = Some \<lparr>entry_index = 2, entry_term = 3, encoded_len = 4, payload = Command ()\<rparr>"
    "view (rlog (nodes cl 1)) 1 = Some (noop_at 1 3)"
    "base (rlog (nodes cl 1)) < 1" "base (rlog (nodes cl 2)) < 1"
  unfolding cl_def by (simp_all add: catch_up_run_def cluster_eval view_def log_end_def)

lemma trio_unwritten: "unwritten ms trio"
  by (simp add: unwritten_def trio_def fresh_core_def sample_defs)

theorem log_matching_witness:
  "view (rlog (nodes (acts plain_sha (ballot_run @ catch_up_run) trio) 2)) 1 = Some (noop_at 1 3)"
proof -
  have run: "cluster_run plain_sha [1, 2, 3] trio (acts plain_sha (ballot_run @ catch_up_run) trio)"
    by (rule acts_run [OF cluster_run.idle catch_up_admissible])
  show ?thesis
    using log_matching [OF trio_founded trio_unwritten run catch_up_state(1) _ catch_up_state(2) _ catch_up_state(3) _ _ catch_up_state(5,6)] catch_up_state(4)
    by simp
qed

section \<open>The log of a leader\<close>

text \<open>A node that has won a term is not sent entries of that term.\<close>

lemma aligned_foreign:
  assumes "aligned ms past G cl" "won ms past n (current_term (hard_state (nodes cl n)))"
    and "deliverable cl n event" "event = MessageReceived env"
  shows "foreign (nodes cl n) (env_from env) (env_message env)"
proof -
  have env: "env \<in> mail cl" "env_to env = n" using assms(3,4) by (auto simp: deliverable_def)
  have lawful: "lawful ms past cl" using assms(1) by (simp add: aligned_def)
  have "t \<noteq> current_term (hard_state (nodes cl n)) \<and> contiguous_from (unat i) es"
    if letter: "env_message env = AppendEntries t i p commit ctx es" for t i p commit ctx es
    using aligned_mail [OF assms(1) env(1) letter] env(2) won_unique [OF lawful _ assms(2)] by blast
  then show ?thesis by (auto simp: foreign_def split: message.splits)
qed

lemma act_amasses:
  assumes "aligned ms past G cl" "won ms past n t" "amasses (c, []) (nodes cl n, [])" "current_term (hard_state c) = t"
    and "deliverable cl m event" "\<not> installs_snapshot event"
  shows "amasses (c, []) (nodes (act sha m event cl) n, [])"
proof (cases "m = n")
  case False
  then show ?thesis using assms(3) by (simp add: act_def split_beta)
next
  case True
  obtain r c' where step: "step sha (nodes cl n) event = (r, c')" by (cases "step sha (nodes cl n) event")
  then have after: "nodes (act sha m event cl) n = c'" using True by (simp add: act_def)
  show ?thesis
  proof (cases "current_term (hard_state (nodes cl n)) = t")
    case own: True
    have "amasses (nodes cl n, []) (c', [])"
      by (rule step_amasses [OF assms(6) _ step]) (use aligned_foreign [OF assms(1)] assms(2,5) own True in blast)
    then show ?thesis unfolding after by (rule amass.rel_trans [OF assms(3)])
  next
    case False
    then have "t < current_term (hard_state (nodes cl n))" using assms(3,4) by (auto simp: amasses_def)
    moreover have "current_term (hard_state (nodes cl n)) \<le> current_term (hard_state c')"
      using step_macros [of "nodes cl n" event sha] macros_term step by fastforce
    ultimately have "t < current_term (hard_state c')" by (rule order.strict_trans2)
    then show ?thesis unfolding after using assms(4) by (simp add: amasses_def)
  qed
qed

lemma run_amasses:
  assumes "cluster_run sha ms cl0 cl" "2 \<le> card (set ms)" "aligned ms past G cl0" "\<forall>m \<in> set ms. \<not> exhausted (nodes cl m)"
    and "won ms past n (current_term (hard_state (nodes cl0 n)))"
  shows "amasses (nodes cl0 n, []) (nodes cl n, [])"
  using assms(1,4)
proof (induction rule: cluster_run.induct)
  case idle
  show ?case by (rule amass.rel_refl)
next
  case (moved cl m event)
  have fresh: "\<forall>m \<in> set ms. \<not> exhausted (nodes cl m)" using exhausted_act [OF moved(4)] moved.prems by blast
  from aligned_run [OF moved(1) assms(2,3) this] obtain past' G' where p: "\<forall>g. past g \<subseteq> past' g" "aligned ms past' G' cl"
    by blast
  show ?case
    by (rule act_amasses [OF p(2) won_mono [OF assms(5) p(1)] moved.IH [OF fresh] refl moved(3,4)])
qed

text \<open>
  C6: Leader Append-Only. In a cluster of at least two members that start with empty logs, a
  node that leads adds to its log and neither overwrites nor removes an entry of it for
  as long as it is in the term it led, whether it still leads or not; entries only leave
  by compaction. The conditions are those of Log Matching: no snapshot installation
  completes in the run, and the effect identifiers of the nodes do not run out.
\<close>

theorem leader_append_only:
  assumes "founded ms cl0" "unwritten ms cl0" "2 \<le> card (set ms)" "cluster_run sha ms cl0 cl1" "cluster_run sha ms cl1 cl2"
    and "\<forall>m \<in> set ms. next_effect_sequence (nodes cl2 m) \<noteq> - 1"
    and "n \<in> set ms" "role (nodes cl1 n) = Leader"
    and "current_term (hard_state (nodes cl2 n)) = current_term (hard_state (nodes cl1 n))"
  shows "log_end (rlog (nodes cl1 n)) \<le> log_end (rlog (nodes cl2 n)) \<and>
    (\<forall>i. base (rlog (nodes cl2 n)) < i \<longrightarrow> i \<le> log_end (rlog (nodes cl1 n)) \<longrightarrow>
      view (rlog (nodes cl2 n)) i = view (rlog (nodes cl1 n)) i)"
proof -
  have fresh: "\<forall>m \<in> set ms. \<not> exhausted (nodes cl1 m)" using exhausted_run [OF assms(5)] assms(6) by blast
  obtain past G where aligned: "aligned ms past G cl1"
    using aligned_run [OF assms(4,3) aligned_founded [OF assms(1,2)] fresh] by blast
  then have lawful: "lawful ms past cl1" by (simp add: aligned_def)
  have "elected (backers past n) (nodes cl1 n)"
    using lawful_node(5) [OF lawful assms(7)] fresh assms(7,8) by (simp add: office_def)
  then have "won ms past n (current_term (hard_state (nodes cl1 n)))" by (rule elected_won [OF lawful assms(7)])
  then have "amasses (nodes cl1 n, []) (nodes cl2 n, [])" by (rule run_amasses [OF assms(5,3) aligned assms(6)])
  then show ?thesis using aligned_node(2) [OF aligned assms(7)] assms(9) by (auto simp: amasses_def outgrown_def)
qed

theorem leader_append_only_witness:
  "let leader = nodes (acts plain_sha ballot_run trio) 1; later = nodes (acts plain_sha (ballot_run @ catch_up_run) trio) 1 in
   role leader = Leader \<and> view (rlog leader) 1 = Some (noop_at 1 3) \<and> view (rlog later) 1 = Some (noop_at 1 3)"
proof -
  let ?cl = "acts plain_sha ballot_run trio" and ?cl' = "acts plain_sha (ballot_run @ catch_up_run) trio"
  have runs: "cluster_run plain_sha [1, 2, 3] trio ?cl" "cluster_run plain_sha [1, 2, 3] ?cl ?cl'"
    using catch_up_admissible cluster_run.idle by (auto simp: admissible_append acts_append intro: acts_run)
  have "current_term (hard_state (nodes ?cl' 1)) = current_term (hard_state (nodes ?cl 1))"
    by (simp add: catch_up_run_def cluster_eval)
  with leader_append_only [OF trio_founded trio_unwritten _ runs catch_up_state(1) _ trio_elected(1)]
  have "\<forall>i. base (rlog (nodes ?cl' 1)) < i \<longrightarrow> i \<le> log_end (rlog (nodes ?cl 1)) \<longrightarrow> view (rlog (nodes ?cl' 1)) i = view (rlog (nodes ?cl 1)) i"
    by simp
  moreover have "view (rlog (nodes ?cl 1)) 1 = Some (noop_at 1 3)" "log_end (rlog (nodes ?cl 1)) = 1"
    by (simp_all add: cluster_eval view_def log_end_def)
  ultimately show ?thesis using catch_up_state(5) trio_elected(1) by (simp add: Let_def)
qed

end
