(* ===== verification/Display.thy ===== *)
theory Display
  imports Types
begin

text \<open>
  The \<open>Display\<close> implementations of \<open>types.rs\<close>, \<open>error.rs\<close> and \<open>recovery_error.rs\<close>:
  \<open>write_str\<close> and \<open>write!\<close> as the text they write. An identifier prints as its number
  in decimal.
\<close>

section \<open>Numbers\<close>

definition digit :: "nat \<Rightarrow> char" where
  "digit d = char_of (48 + d)"

fun decimal :: "nat \<Rightarrow> string" where
  "decimal n = (if n < 10 then [digit n] else decimal (n div 10) @ [digit (n mod 10)])"

declare decimal.simps [simp del]

definition display_id :: "'w :: len word \<Rightarrow> string" where
  "display_id x = decimal (unat x)"

section \<open>Errors of the log and of recovery\<close>

fun display_entry_error :: "entry_error \<Rightarrow> string" where
  "display_entry_error ZeroLogIndex = ''log entries require an index greater than zero''"
| "display_entry_error ZeroTerm = ''log entries require a term greater than zero''"
| "display_entry_error ZeroEncodedLength = ''commands require a nonzero encoded length''"

fun display_recovery_error :: "recovery_error \<Rightarrow> string" where
  "display_recovery_error (UnsupportedFormat found supported) =
     ''recovery format version '' @ display_id found @ '' is unsupported; expected '' @ display_id supported"
| "display_recovery_error (LogGap expected actual) =
     ''recovered log gap: expected index '' @ display_id expected @ '', found '' @ display_id actual"
| "display_recovery_error (CommitBeforeSnapshot commit snapshot) =
     ''commit index '' @ display_id commit @ '' precedes snapshot index '' @ display_id snapshot"
| "display_recovery_error (RecoveryCommitPastLog commit final) =
     ''commit index '' @ display_id commit @ '' exceeds available index '' @ display_id final"
| "display_recovery_error (RecoveryTermRegression index previous actual) =
     ''term regression at index '' @ display_id index @ '': previous term '' @ display_id previous @
     '', actual term '' @ display_id actual"
| "display_recovery_error (CurrentTermBehindLog current seen) =
     ''current term '' @ display_id current @ '' is behind stored term '' @ display_id seen"
| "display_recovery_error (VotedForNonMember node) = ''durable vote names non-member node '' @ display_id node"
| "display_recovery_error (RecoveryIndexOverflow at) = ''index '' @ display_id at @ '' cannot be incremented''"

fun display_log_error :: "log_error \<Rightarrow> string" where
  "display_log_error (Compacted index snapshot) =
     ''index '' @ display_id index @ '' was compacted at snapshot index '' @ display_id snapshot"
| "display_log_error (Unavailable index final) =
     ''index '' @ display_id index @ '' is unavailable; last index is '' @ display_id final"
| "display_log_error (InvalidRange start final) =
     ''invalid log range '' @ display_id start @ ''..='' @ display_id final"
| "display_log_error (NonContiguousEntries expected actual) =
     ''non-contiguous entries: expected index '' @ display_id expected @ '', found '' @ display_id actual"
| "display_log_error (TermRegression index previous actual) =
     ''term regression at index '' @ display_id index @ '': previous term '' @ display_id previous @
     '', actual term '' @ display_id actual"
| "display_log_error (WouldTruncateCommitted start committed) =
     ''replacing from index '' @ display_id start @ '' would truncate committed index '' @ display_id committed"
| "display_log_error (SnapshotBoundaryMismatch index expected actual) =
     ''snapshot boundary '' @ display_id index @ '' has term '' @ display_id actual @ '', expected '' @ display_id expected"
| "display_log_error (CompactPastCommit through committed) =
     ''cannot compact through '' @ display_id through @ ''; commit index is only '' @ display_id committed"
| "display_log_error (StablePastLog reported final) =
     ''stable index '' @ display_id reported @ '' exceeds last log index '' @ display_id final"
| "display_log_error (IndexTooLarge index) = ''index '' @ display_id index @ '' exceeds platform slice limits''"
| "display_log_error (IndexOverflow at) = ''index '' @ display_id at @ '' cannot be incremented''"

section \<open>Errors of the core\<close>

fun display_invariant_violation :: "invariant_violation \<Rightarrow> string" where
  "display_invariant_violation AppliedPastCommit = ''applied index is beyond commit index''"
| "display_invariant_violation CommitPastLog = ''commit index is beyond last log index''"
| "display_invariant_violation CommittedGap = ''committed prefix has a gap in the log''"
| "display_invariant_violation CommitIndexMismatch = ''hard state and log commit indexes differ''"
| "display_invariant_violation LastLogMismatch = ''cached last-log metadata differs from the log''"
| "display_invariant_violation ViolationIndexOverflow = ''index overflow during invariant validation''"
| "display_invariant_violation (ViolationLog e) = ''log invariant failed: '' @ display_log_error e"

fun display_fatal_error :: "fatal_error \<Rightarrow> string" where
  "display_fatal_error Storage = ''fatal storage failure''"
| "display_fatal_error StateMachine = ''fatal state machine failure''"
| "display_fatal_error (Invariant e) = ''fatal invariant violation: '' @ display_invariant_violation e"

fun display_arithmetic_error :: "arithmetic_error \<Rightarrow> string" where
  "display_arithmetic_error Overflow = ''protocol counter overflow''"

fun display_init_error :: "init_error \<Rightarrow> string" where
  "display_init_error EmptyMembership = ''membership must not be empty''"
| "display_init_error (DuplicateMember node) = ''duplicate member '' @ display_id node"
| "display_init_error (LocalNodeNotMember node) =
     ''local node '' @ display_id node @ '' is not a cluster member''"
| "display_init_error (TooManyMembers actual maximum) =
     ''membership contains '' @ decimal actual @ '' nodes, exceeding the limit of '' @ display_id maximum"
| "display_init_error (InvalidElectionRange low high) =
     ''invalid election tick range '' @ display_id low @ ''..='' @ display_id high"
| "display_init_error (InvalidHeartbeatTicks heartbeat election_min) =
     ''heartbeat interval '' @ display_id heartbeat @ '' must be nonzero and below election minimum '' @
     display_id election_min"
| "display_init_error (InvalidCheckQuorumTicks check_quorum election_min) =
     ''CheckQuorum interval '' @ display_id check_quorum @ '' must be at least election minimum '' @
     display_id election_min"
| "display_init_error (ZeroCapacityLimit name) = ''capacity limit '' @ name @ '' must be greater than zero''"
| "display_init_error (InvalidCapacityRelationship limit v required_at_least minimum) =
     ''capacity limit '' @ limit @ '' ('' @ display_id v @ '') must be at least '' @ required_at_least @
     '' ('' @ display_id minimum @ '')''"
| "display_init_error (InvalidSnapshotMetadata reason) = ''invalid snapshot metadata: '' @ reason"

section \<open>What a message tells\<close>

definition digits :: "char set" where
  "digits = digit ` {..< 10}"

definition digit_value :: "char \<Rightarrow> nat" where
  "digit_value c = of_char c - 48"

text \<open>Reading a number back.\<close>

definition read_decimal :: "string \<Rightarrow> nat" where
  "read_decimal = foldl (\<lambda>n c. 10 * n + digit_value c) 0"

lemma digit_value_digit [simp]: "d < 10 \<Longrightarrow> digit_value (digit d) = d"
  by (simp add: digit_value_def digit_def of_char_of)

lemma read_decimal_decimal [simp]: "read_decimal (decimal n) = n"
proof (induction n rule: decimal.induct)
  case (1 n)
  then show ?case by (cases "n < 10") (simp_all add: decimal.simps [of n] read_decimal_def)
qed

lemma decimal_digits: "set (decimal n) \<subseteq> digits"
proof (induction n rule: decimal.induct)
  case (1 n)
  then show ?case by (cases "n < 10") (auto simp: decimal.simps [of n] digits_def)
qed

lemma decimal_inject [simp]: "decimal m = decimal n \<longleftrightarrow> m = n"
  by (metis read_decimal_decimal)

lemma display_id_inject [simp]: "display_id x = display_id y \<longleftrightarrow> x = y"
  by (simp add: display_id_def word_unat_eq_iff)

text \<open>A number is read off a text up to the first character that is no digit.\<close>

lemma split_at_digits:
  assumes "set xs \<subseteq> digits" "set ys \<subseteq> digits" "c \<notin> digits" "d \<notin> digits"
  shows "xs @ c # us = ys @ d # vs \<longleftrightarrow> xs = ys \<and> c = d \<and> us = vs"
  using assms
proof (induction xs arbitrary: ys)
  case Nil
  then show ?case by (cases ys) auto
next
  case (Cons x xs)
  then show ?case by (cases ys) auto
qed

lemma display_id_then:
  "c \<notin> digits \<Longrightarrow> d \<notin> digits \<Longrightarrow>
     display_id x @ c # us = display_id y @ d # vs \<longleftrightarrow> x = y \<and> c = d \<and> us = vs"
  using split_at_digits [OF decimal_digits decimal_digits]
  by (simp add: display_id_def word_unat_eq_iff)

lemma digits_code: "c \<in> digits \<longleftrightarrow> 48 \<le> (of_char c :: nat) \<and> (of_char c :: nat) < 58"
proof
  assume "48 \<le> (of_char c :: nat) \<and> (of_char c :: nat) < 58"
  then have "c = digit (of_char c - 48)" "of_char c - 48 < (10 :: nat)" by (auto simp: digit_def)
  then show "c \<in> digits" unfolding digits_def by blast
qed (auto simp: digits_def digit_def of_char_of)

lemma log_error_inject: "display_log_error e = display_log_error f \<longleftrightarrow> e = f"
  by (cases e; cases f) (auto simp: display_id_then digits_code)

lemma recovery_error_inject: "display_recovery_error e = display_recovery_error f \<longleftrightarrow> e = f"
  by (cases e; cases f) (auto simp: display_id_then digits_code)

lemma violation_inject: "display_invariant_violation e = display_invariant_violation f \<longleftrightarrow> e = f"
  by (cases e; cases f) (auto simp: log_error_inject)

text \<open>
  C39: error messages identify the error. Two log errors, two recovery errors or two
  fatal errors that print the same text are equal, down to the indexes, terms and nodes
  in them.
\<close>

theorem error_messages_inject:
  "inj display_log_error \<and> inj display_recovery_error \<and> inj display_fatal_error"
proof -
  have "display_fatal_error e = display_fatal_error f \<longleftrightarrow> e = f" for e f
    by (cases e; cases f) (auto simp: violation_inject)
  then show ?thesis by (auto simp: inj_def log_error_inject recovery_error_inject)
qed

end
