(* ===== verification/Core_Solo.thy ===== *)
theory Core_Solo
  imports Core_Leadership
begin

text \<open>
  A proposal on a one-member cluster, from \<open>RaftCore::step\<close> to \<open>RaftCore::step\<close>. The leader
  alone is a quorum, so the four events of a proposal are determined: the proposal, the
  completion of the persistence of its entry, the completion of the persistence of the commit
  index it then reaches, and the completion of the application. Each has a lemma that says the
  step succeeds, which single effect it emits and what the core is afterwards. These are
  progress statements: the core does answer, with the effect that carries the proposal on.
\<close>

section \<open>Completions in order\<close>

text \<open>Completions came in the order of the effects: nothing is parked beyond the frontier, and
  what is remembered lies behind it.\<close>

definition tidy :: "('c, 'h) raft_core \<Rightarrow> bool" where
  "tidy c \<longleftrightarrow> completed_sparse c = [] \<and> (\<forall>i \<in> set (bt_keys (completed_outcomes c)). sequence i \<le> completed_frontier c)"

lemma evict_keys: "set (bt_keys (snd (evict limit order outcomes))) \<subseteq> set (bt_keys outcomes)"
  by (induction limit order outcomes rule: evict.induct) (auto simp: bt.keys_dom split: if_splits)

lemma record_next:
  assumes "tidy c" "sequence i = completed_frontier c + 1" "completed_frontier c \<noteq> - 1"
  obtains outcomes order where "record_completion i outcome c =
      c\<lparr>completed_outcomes := outcomes, completion_order := order, completed_frontier := sequence i, completed_sparse := []\<rparr>"
    "tidy (record_completion i outcome c)"
proof -
  have bound: "unat (completed_frontier c) + 1 < 2 ^ 64"
    using assms(3) checked_add_exhausted [of "completed_frontier c"] by (auto simp: checked_add_None_iff)
  then have "saturating_add (completed_frontier c) 1 = sequence i" "completed_frontier c \<le> sequence i"
    using assms(2) by (auto simp: saturating_add_def u64_le_iff unat_add_u64)
  then show ?thesis
    using assms(1) that evict_keys [of "unat (cfg_completion_history (config c))" "completion_order c @ [i]" "bt_insert i outcome (completed_outcomes c)"]
    by (fastforce simp: record_completion_def tidy_def advance_frontier.simps [of "sequence i" "[]"] Let_def split_beta bt.keys_ins)
qed

lemma validate_next:
  assumes "tidy c" "generation i = cfg_generation (config c)" "completed_frontier c < sequence i"
  shows "validate_completion c i outcome = Ok ()"
proof -
  have "i \<notin> set (bt_keys (completed_outcomes c))" using assms(1,3) by (auto simp: tidy_def)
  then have "bt_get (completed_outcomes c) i = None" by (auto simp: bt.keys_dom)
  then show ?thesis using assms by (auto simp: validate_completion_def tidy_def)
qed

section \<open>A leader on its own\<close>

text \<open>The leader is its own quorum and no snapshot or read is under way.\<close>

definition solo :: "('c, 'h) raft_core \<Rightarrow> bool" where
  "solo c \<longleftrightarrow> \<not> stopped c \<and> role c = Leader \<and> cfg_quorum (config c) = 1 \<and> progress c = [] \<and>
     pending_reads c = [] \<and> local_snapshot c = Idle \<and> pending_chunk_store c = None \<and>
     incoming_snapshot_state c = None \<and> pending_snapshot_reads c = [] \<and> read_round c = None \<and>
     core_inv c \<and> current_term (hard_state c) \<noteq> 0 \<and> last_log_term c \<le> current_term (hard_state c) \<and> tidy c"

lemma step_by_handle:
  assumes "\<not> stopped c" "core_inv c" "\<not> installs_snapshot event" "handle sha event (c, []) = (Ok (), (c', fx))"
    and "role c' = role c"
  shows "step sha c event = (Ok \<lparr>out_effects = fx, soft_state_changed = False\<rparr>, c')" "core_inv c'"
proof -
  show inv: "core_inv c'" using handle_core_inv [OF assms(2,3,4)] by simp
  then have "validate_invariants c' = Ok ()" by (simp add: core_inv_def validate_iff)
  then show "step sha c event = (Ok \<lparr>out_effects = fx, soft_state_changed = False\<rparr>, c')"
    using assms by (simp add: step_def finish_step_def)
qed

lemma solo_completion:
  assumes "solo c" "generation i = cfg_generation (config c)" "completed_frontier c < sequence i"
    and "on_barrier_completion i outcome (c, []) = (Ok (), (d, fx))"
    and "emit_apply_if_needed (record_completion i outcome d, fx) = (Ok (), t)"
  shows "handle sha (EffectCompleted i outcome) (c, []) = (Ok (), t)"
proof -
  have "on_effect_completed sha i outcome (c\<lparr>local_snapshot := Idle\<rparr>, []) = (Ok (), (d, fx))"
    using assms(1,2,4) by (simp add: on_effect_completed_def on_outgoing_snapshot_completion_def
      on_incoming_snapshot_completion_def on_incoming_state_def on_snapshot_completion_def solo_def exec_simps Let_def)
  then show ?thesis
    using assms by (simp add: handle_def on_event_def exec_simps validate_next solo_def)
qed

text \<open>Between two proposals everything in the log is committed and applied, and every effect is
  completed; while one is under way it is the last entry of the log and the next to apply.\<close>

definition quiet :: "('c, 'h) raft_core \<Rightarrow> bool" where
  "quiet c \<longleftrightarrow> solo c \<and> pending_persist c = None \<and> pending_apply c = None \<and> proposals c = [] \<and>
     applied_index c = last_log_index c \<and> commit_index (hard_state c) = last_log_index c \<and>
     completed_frontier c = next_effect_sequence c"

definition proposed :: "proposal_id \<Rightarrow> 'c entry \<Rightarrow> ('c, 'h) raft_core \<Rightarrow> bool" where
  "proposed pid e c \<longleftrightarrow> solo c \<and> pending_apply c = None \<and> proposals c = [(entry_index e, [pid])] \<and>
     checked_next (applied_index c) = Ok (entry_index e) \<and> last_log_index c = entry_index e \<and>
     entry_term e = current_term (hard_state c) \<and> view (rlog c) (unat (entry_index e)) = Some e"

lemma u64_succ_room: "x \<noteq> - 1 \<Longrightarrow> unat x + 1 < 2 ^ 64" for x :: u64
  using checked_add_exhausted [of x] by (auto simp: checked_add_None_iff)

lemma u64_less_succ: "x \<noteq> - 1 \<Longrightarrow> x < x + 1" for x :: u64
  using u64_succ_room [of x] by (simp add: u64_less_iff unat_add_u64)

lemma number_next: "next_effect_sequence c \<noteq> - 1 \<Longrightarrow> checked_add (next_effect_sequence c) 1 = Some (next_effect_sequence c + 1)"
  using u64_succ_room by (simp add: checked_add_def)

lemma quiet_propose:
  assumes "quiet c" "len \<noteq> 0" "len \<le> cfg_max_bytes_per_rpc (config c)"
    and room: "unat (last_log_index c) + 2 < 2 ^ 64" "next_effect_sequence c \<noteq> - 1"
  obtains e c' where
    "step sha c (Propose pid cmd len) =
      (Ok \<lparr>out_effects = [Persist (EffectId (cfg_generation (config c)) (next_effect_sequence c + 1)) (batch_of_entries [e])],
          soft_state_changed = False\<rparr>, c')"
    "proposed pid e c'" "payload e = Command cmd" "unat (entry_index e) = unat (last_log_index c) + 1"
    "pending_persist c' = Some \<lparr>persist_id = EffectId (cfg_generation (config c)) (next_effect_sequence c + 1),
       stable_through = Some (entry_index e), continuation = ReplicateProposal\<rparr>"
    "config c' = config c" "snapshot_index c' = snapshot_index c" "next_effect_sequence c' = next_effect_sequence c + 1"
    "completed_frontier c' = next_effect_sequence c" "commit_index (hard_state c') < last_log_index c'"
proof -
  let ?t = "current_term (hard_state c)"
  have c: "solo c" "pending_persist c = None" "pending_apply c = None" "proposals c = []"
    "applied_index c = last_log_index c" "commit_index (hard_state c) = last_log_index c"
    "completed_frontier c = next_effect_sequence c" using assms(1) by (simp_all add: quiet_def)
  then have wf: "log_inv (rlog c)" "log_wf (rlog c)" "last_log_index c = last_index (rlog c)"
    "last_log_term c = term_of (rlog c) (log_end (rlog c))" "unat (last_log_index c) = log_end (rlog c)"
    by (auto simp: solo_def core_inv_def core_valid_def log_inv_def unat_last_index)
  obtain i where i: "checked_next (last_log_index c) = Ok i" "unat i = log_end (rlog c) + 1"
    using room(1) wf(5) by (cases "last_log_index c" rule: checked_next_cases) auto
  let ?e = "\<lparr>entry_index = i, entry_term = ?t, encoded_len = len, payload = Command cmd\<rparr>"
  have ec: "entry_command i ?t cmd len = Ok ?e"
    using i(2) assms(2) c(1) by (auto simp: entry_command_Ok_iff solo_def unat_eq_zero)
  have "contiguous_from (log_end (rlog c)) [?e]" "terms_from (term_of (rlog c) (log_end (rlog c))) [?e]"
    using i(2) room(1) wf(4,5) c(1) by (auto simp: contiguous_Cons terms_Cons solo_def)
  then obtain l where l: "log_append (rlog c) [?e] = Ok l" using wf(2) by (auto simp: log_append_Ok_iff)
  let ?c = "c\<lparr>rlog := l, last_log_index := i, last_log_term := ?t, proposals := [(i, [pid])],
     next_effect_sequence := next_effect_sequence c + 1,
     pending_persist := Some \<lparr>persist_id = EffectId (cfg_generation (config c)) (next_effect_sequence c + 1),
       stable_through = Some i, continuation = ReplicateProposal\<rparr>\<rparr>"
  have h: "handle sha (Propose pid cmd len) (c, []) = (Ok (), (?c, [Persist (EffectId (cfg_generation (config c))
      (next_effect_sequence c + 1)) (batch_of_entries [?e])]))"
    using c assms(3) i(1) ec l number_next [OF room(2)]
    by (simp add: handle_def on_event_def on_propose_def solo_def exec_simps queue_persist_def next_effect_id_def
        emit_apply_if_needed_def batch_of_entries_def bt.get_empty not_less)
  have "core_inv c" "\<not> stopped c" using c(1) by (simp_all add: solo_def)
  from step_by_handle [OF this(2,1) _ h] have step: "step sha c (Propose pid cmd len) = (Ok \<lparr>out_effects =
      [Persist (EffectId (cfg_generation (config c)) (next_effect_sequence c + 1)) (batch_of_entries [?e])],
      soft_state_changed = False\<rparr>, ?c)" and inv: "core_inv ?c"
    by (simp_all add: installs_snapshot_def)
  have "view l (unat i) = Some ?e" using log_append_view [OF wf(2) l, of "unat i"] i(2) by simp
  then have "proposed pid ?e ?c" using c i inv by (simp add: proposed_def solo_def tidy_def)
  with that [OF step this] show ?thesis using i c wf by (simp add: u64_less_iff)
qed

lemma quorum_commit_solo:
  assumes "log_inv l" "log_committed l < last_index l" "term_of l (log_end l) = t"
  shows "quorum_commit l [] 1 t = Ok (Some (last_index l))"
proof -
  have wf: "log_wf l" using assms(1) by (simp add: log_inv_def)
  then show ?thesis using assms log_term_at_last [OF wf] by (simp add: quorum_commit_def bt_values_def Let_def)
qed

lemma proposed_log:
  assumes "proposed pid e c"
  shows "log_inv (rlog c)" "log_wf (rlog c)" "last_index (rlog c) = entry_index e" "unat (entry_index e) = log_end (rlog c)"
    "log_committed (rlog c) = commit_index (hard_state c)" "term_of (rlog c) (log_end (rlog c)) = current_term (hard_state c)"
    "log_range (rlog c) (entry_index e) (entry_index e) = Ok [e]"
proof -
  show log: "log_inv (rlog c)" "log_wf (rlog c)" "last_index (rlog c) = entry_index e" "unat (entry_index e) = log_end (rlog c)"
    "log_committed (rlog c) = commit_index (hard_state c)"
    using assms unat_last_index [of "rlog c"] by (auto simp: proposed_def solo_def core_inv_def core_valid_def log_inv_def)
  have e: "view (rlog c) (log_end (rlog c)) = Some e" "entry_term e = current_term (hard_state c)"
    using assms log(4) by (simp_all add: proposed_def)
  then show "term_of (rlog c) (log_end (rlog c)) = current_term (hard_state c)" using view_term_of [of "rlog c"] by metis
  have "base (rlog c) < log_end (rlog c)" "e = log_entries (rlog c) ! (log_end (rlog c) - base (rlog c) - 1)"
    using e(1) by (auto simp: view_Some_iff)
  then show "log_range (rlog c) (entry_index e) (entry_index e) = Ok [e]"
    using log(4) by (simp add: log_range_Ok_iff [OF log(2)] take_Suc_conv_app_nth Cons_nth_drop_Suc [symmetric] log_end_def)
qed

abbreviation filed :: "u64 \<Rightarrow> (effect_id, effect_outcome) btree_map \<Rightarrow> effect_id list \<Rightarrow> ('c, 'h) raft_core \<Rightarrow> ('c, 'h) raft_core" where
  "filed n outcomes order c \<equiv> c\<lparr>completed_outcomes := outcomes, completion_order := order,
     completed_frontier := n, completed_sparse := []\<rparr>"

text \<open>The completion of the oldest outstanding effect, when nothing more is to be applied.\<close>

lemma solo_finish:
  assumes "solo c" "i = EffectId (cfg_generation (config c)) (completed_frontier c + 1)" "completed_frontier c \<noteq> - 1"
    and "\<And>sid. outcome \<noteq> SnapshotInstalled sid"
    and d: "on_barrier_completion i outcome (c, []) = (Ok (), (d, fx))" "tidy d" "completed_frontier d = completed_frontier c"
      "role d = Leader" "pending_persist d \<noteq> None \<or> pending_apply d \<noteq> None \<or> commit_index (hard_state d) \<le> applied_index d"
  obtains outcomes order where
    "step sha c (EffectCompleted i outcome) = (Ok \<lparr>out_effects = fx, soft_state_changed = False\<rparr>,
       filed (completed_frontier c + 1) outcomes order d)"
    "core_inv (filed (completed_frontier c + 1) outcomes order d)"
    "tidy (filed (completed_frontier c + 1) outcomes order d)"
proof -
  have "sequence i = completed_frontier d + 1" "completed_frontier d \<noteq> - 1" using assms(2,3) d(3) by simp_all
  then obtain outcomes order where r: "record_completion i outcome d = filed (sequence i) outcomes order d"
    "tidy (record_completion i outcome d)" using record_next [OF d(2)] by metis
  have "emit_apply_if_needed (record_completion i outcome d, fx) = (Ok (), (record_completion i outcome d, fx))"
    using d(5) by (simp add: emit_apply_if_needed_def exec_simps r(1))
  from solo_completion [OF assms(1) _ _ d(1) this]
  have h: "handle sha (EffectCompleted i outcome) (c, []) = (Ok (), (record_completion i outcome d, fx))"
    using assms(2,3) by (simp add: u64_less_succ)
  have "core_inv c" "\<not> stopped c" "role (record_completion i outcome d) = role c"
    using assms(1) d(4) by (simp_all add: solo_def r(1))
  note facts = this
  have "\<not> installs_snapshot (EffectCompleted i outcome)"
    using assms(4) by (simp add: installs_snapshot_def split: effect_outcome.splits)
  note step = step_by_handle [OF facts(2,1) this h facts(3)]
  show ?thesis
    by (rule that [of order outcomes]) (use step r assms(2) in simp_all)
qed

text \<open>The entry is durable: the leader alone is a quorum and commits it.\<close>

lemma proposal_stable:
  assumes "proposed pid e c" "commit_index (hard_state c) < last_log_index c" "next_effect_sequence c \<noteq> - 1"
    and p: "pending_persist c = Some \<lparr>persist_id = i, stable_through = Some (entry_index e), continuation = ReplicateProposal\<rparr>"
    and i: "i = EffectId (cfg_generation (config c)) (completed_frontier c + 1)" "next_effect_sequence c = completed_frontier c + 1"
      "completed_frontier c \<noteq> - 1"
  obtains b c' where
    "step sha c (EffectCompleted i Persisted) = (Ok \<lparr>out_effects =
       [Persist (EffectId (cfg_generation (config c)) (next_effect_sequence c + 1)) b], soft_state_changed = False\<rparr>, c')"
    "proposed pid e c'" "commit_index (hard_state c') = last_log_index c'"
    "pending_persist c' = Some \<lparr>persist_id = EffectId (cfg_generation (config c)) (next_effect_sequence c + 1),
       stable_through = None, continuation = ApplyCommitted\<rparr>"
    "config c' = config c" "snapshot_index c' = snapshot_index c" "next_effect_sequence c' = next_effect_sequence c + 1"
    "completed_frontier c' = next_effect_sequence c"
proof -
  note log = proposed_log [OF assms(1)]
  have solo: "solo c" "pending_apply c = None" "last_log_index c = entry_index e" using assms(1) by (simp_all add: proposed_def)
  let ?l = "(rlog c)\<lparr>log_unstable := mark_stable_through (log_unstable (rlog c)) (entry_index e)\<rparr>"
  let ?hs = "hard_state_new (current_term (hard_state c)) (voted_for (hard_state c)) (entry_index e)"
  let ?p = "\<lparr>persist_id = EffectId (cfg_generation (config c)) (next_effect_sequence c + 1),
       stable_through = None, continuation = ApplyCommitted\<rparr>"
  let ?d = "c\<lparr>rlog := ?l\<lparr>log_committed := entry_index e\<rparr>, hard_state := ?hs,
     next_effect_sequence := next_effect_sequence c + 1, pending_persist := Some ?p\<rparr>"
  let ?fx = "[Persist (EffectId (cfg_generation (config c)) (next_effect_sequence c + 1)) (batch_of_hard_state ?hs)]"
  have last: "last_index ?l = entry_index e" using log(3) by (auto simp: last_index_def)
  have mark: "mark_stable (rlog c) (entry_index e) = Ok ?l" using log(3) by (simp add: mark_stable_Ok_iff)
  have commit: "commit_to ?l (entry_index e) = Ok (?l\<lparr>log_committed := entry_index e\<rparr>)"
    using last log(5) assms(2) solo(3) by (simp add: commit_to_Ok_iff max_def)
  have quorum: "quorum_commit ?l [] 1 (current_term (hard_state c)) = Ok (Some (entry_index e))"
    using quorum_commit_solo [of ?l] log assms(2) solo(3) last by simp
  have d: "on_barrier_completion i Persisted (c, []) = (Ok (), (?d, ?fx))"
    using solo p mark commit quorum number_next [OF assms(3)]
    by (simp add: on_barrier_completion_def on_persist_completion_def run_continuation_def replicate_all_def advance_commit_def
        queue_persist_def next_effect_id_def batch_of_hard_state_def exec_simps solo_def bt_keys_def start_pending_reads.simps)
  have d': "\<And>sid. Persisted \<noteq> SnapshotInstalled sid" "tidy ?d" "completed_frontier ?d = completed_frontier c" "role ?d = Leader"
      "pending_persist ?d \<noteq> None \<or> pending_apply ?d \<noteq> None \<or> commit_index (hard_state ?d) \<le> applied_index ?d"
    using solo(1) by (simp_all add: solo_def tidy_def)
  obtain outcomes order where
    step: "step sha c (EffectCompleted i Persisted) = (Ok \<lparr>out_effects = ?fx, soft_state_changed = False\<rparr>,
       filed (completed_frontier c + 1) outcomes order ?d)"
      "core_inv (filed (completed_frontier c + 1) outcomes order ?d)" "tidy (filed (completed_frontier c + 1) outcomes order ?d)"
    by (rule solo_finish [OF solo(1) i(1,3) d'(1) d d'(2-5)])
  let ?c = "filed (completed_frontier c + 1) outcomes order ?d"
  have "proposed pid e ?c" using assms(1) step(2,3) by (simp add: proposed_def solo_def)
  from that [OF step(1) this] show ?thesis using i solo(3) by simp
qed

text \<open>The commit index is durable: the entry goes to the state machine.\<close>

lemma proposal_committed:
  assumes "proposed pid e c" "commit_index (hard_state c) = last_log_index c" "next_effect_sequence c \<noteq> - 1"
    and p: "pending_persist c = Some \<lparr>persist_id = i, stable_through = None, continuation = ApplyCommitted\<rparr>"
    and i: "i = EffectId (cfg_generation (config c)) (completed_frontier c + 1)" "next_effect_sequence c = completed_frontier c + 1"
      "completed_frontier c \<noteq> - 1"
  obtains c' where
    "step sha c (EffectCompleted i Persisted) = (Ok \<lparr>out_effects =
       [Apply (EffectId (cfg_generation (config c)) (next_effect_sequence c + 1)) [e]], soft_state_changed = False\<rparr>, c')"
    "solo c'" "pending_persist c' = None" "proposals c' = [(entry_index e, [pid])]"
    "pending_apply c' = Some \<lparr>apply_id = EffectId (cfg_generation (config c)) (next_effect_sequence c + 1), apply_through = entry_index e\<rparr>"
    "config c' = config c" "snapshot_index c' = snapshot_index c" "next_effect_sequence c' = next_effect_sequence c + 1"
    "completed_frontier c' = next_effect_sequence c" "commit_index (hard_state c') = entry_index e" "last_log_index c' = entry_index e"
proof -
  note log = proposed_log [OF assms(1)]
  have solo: "solo c" "pending_apply c = None" "last_log_index c = entry_index e" "checked_next (applied_index c) = Ok (entry_index e)"
    "proposals c = [(entry_index e, [pid])]"
    using assms(1) by (simp_all add: proposed_def)
  let ?a = "\<lparr>apply_id = EffectId (cfg_generation (config c)) (next_effect_sequence c + 1), apply_through = entry_index e\<rparr>"
  let ?d = "c\<lparr>pending_persist := None, next_effect_sequence := next_effect_sequence c + 1, pending_apply := Some ?a\<rparr>"
  let ?fx = "[Apply (EffectId (cfg_generation (config c)) (next_effect_sequence c + 1)) [e]]"
  have "applied_index c < entry_index e" using solo(4) by (rule checked_next_less)
  then have d: "on_barrier_completion i Persisted (c, []) = (Ok (), (?d, ?fx))"
    using solo p log(7) number_next [OF assms(3)] assms(2)
    by (simp add: on_barrier_completion_def on_persist_completion_def run_continuation_def emit_apply_if_needed_def
        next_effect_id_def exec_simps solo_def start_pending_reads.simps not_le)
  have d': "\<And>sid. Persisted \<noteq> SnapshotInstalled sid" "tidy ?d" "completed_frontier ?d = completed_frontier c" "role ?d = Leader"
      "pending_persist ?d \<noteq> None \<or> pending_apply ?d \<noteq> None \<or> commit_index (hard_state ?d) \<le> applied_index ?d"
    using solo(1) by (simp_all add: solo_def tidy_def)
  obtain outcomes order where
    step: "step sha c (EffectCompleted i Persisted) = (Ok \<lparr>out_effects = ?fx, soft_state_changed = False\<rparr>,
       filed (completed_frontier c + 1) outcomes order ?d)"
      "core_inv (filed (completed_frontier c + 1) outcomes order ?d)" "tidy (filed (completed_frontier c + 1) outcomes order ?d)"
    by (rule solo_finish [OF solo(1) i(1,3) d'(1) d d'(2-5)])
  let ?c = "filed (completed_frontier c + 1) outcomes order ?d"
  have "solo ?c" using solo(1) step(2,3) by (simp add: solo_def)
  from that [OF step(1) this] show ?thesis using i solo(3,5) assms(2) by simp
qed

text \<open>The entry is applied: the proposal is answered, and the leader is quiet again.\<close>

lemma proposal_applied:
  assumes "solo c" "pending_persist c = None" "proposals c = [(entry_index e, [pid])]"
    and a: "pending_apply c = Some \<lparr>apply_id = i, apply_through = entry_index e\<rparr>"
    and i: "i = EffectId (cfg_generation (config c)) (completed_frontier c + 1)" "next_effect_sequence c = completed_frontier c + 1"
      "completed_frontier c \<noteq> - 1"
    and "commit_index (hard_state c) = entry_index e" "last_log_index c = entry_index e"
    and "saturating_sub (entry_index e) (snapshot_index c) < cfg_snapshot_after_entries (config c)"
  obtains c' where
    "step sha c (EffectCompleted i (AppliedThrough (entry_index e))) =
       (Ok \<lparr>out_effects = [ProposalResult pid (Applied (entry_index e))], soft_state_changed = False\<rparr>, c')"
    "quiet c'" "config c' = config c" "snapshot_index c' = snapshot_index c" "next_effect_sequence c' = next_effect_sequence c"
    "last_log_index c' = entry_index e"
proof -
  let ?d = "c\<lparr>pending_apply := None, applied_index := entry_index e, proposals := []\<rparr>"
  let ?fx = "[ProposalResult pid (Applied (entry_index e))]"
  have short: "\<not> cfg_snapshot_after_entries (config c) \<le> saturating_sub (entry_index e) (snapshot_index c)"
    using assms(10) by simp
  have d: "on_barrier_completion i (AppliedThrough (entry_index e)) (c, []) = (Ok (), (?d, ?fx))"
    using assms(1-9) short
    by (simp add: on_barrier_completion_def on_apply_completion_def finish_apply_def report_at_def release_read_round_def
        release_round_def emit_apply_if_needed_def maybe_request_local_snapshot_def bt_keys_def bt_get_def bt_remove_def
        exec_simps solo_def start_pending_reads.simps Let_def)
  have d': "\<And>sid. AppliedThrough (entry_index e) \<noteq> SnapshotInstalled sid" "tidy ?d" "completed_frontier ?d = completed_frontier c" "role ?d = Leader"
      "pending_persist ?d \<noteq> None \<or> pending_apply ?d \<noteq> None \<or> commit_index (hard_state ?d) \<le> applied_index ?d"
    using assms(8) assms(1) by (simp_all add: solo_def tidy_def)
  obtain outcomes order where
    step: "step sha c (EffectCompleted i (AppliedThrough (entry_index e))) = (Ok \<lparr>out_effects = ?fx, soft_state_changed = False\<rparr>,
       filed (completed_frontier c + 1) outcomes order ?d)"
      "core_inv (filed (completed_frontier c + 1) outcomes order ?d)" "tidy (filed (completed_frontier c + 1) outcomes order ?d)"
    by (rule solo_finish [OF assms(1) i(1,3) d'(1) d d'(2-5)])
  let ?c = "filed (completed_frontier c + 1) outcomes order ?d"
  have "quiet ?c" using assms step(2,3) by (simp add: quiet_def solo_def)
  from that [OF step(1) this] show ?thesis using i assms(9) by simp
qed

end
