(* ===== verification/Host.thy ===== *)
theory Host
  imports Core_Solo
begin

text \<open>
  The single-node host of \<open>examples/minimal_host.rs\<close>. Its loop feeds the completion of every
  effect back into the core until nothing is pending; as the source's \<open>while let\<close> it carries no
  bound, so it is a \<open>partial_function\<close> whose value \<open>None\<close> means that it never returns. The
  theory shows that it does return, and with every command applied in the order of submission.
  The lines the host prints are not modelled; its boxed errors are a sum of their causes.
\<close>

section \<open>The host\<close>

record host =
  applied :: "string list"

datatype host_error =
    HostInit init_error
  | HostRecovery recovery_error
  | HostStep step_error
  | HostUnsupported "string effect"

definition commands :: "string entry list \<Rightarrow> string list" where
  "commands entries = concat (map (\<lambda>e. case payload e of Command cmd \<Rightarrow> [cmd] | _ \<Rightarrow> []) entries)"

text \<open>\<open>InMemoryHost::execute\<close>: persistence succeeds at once, commands are remembered, messages
  and results lead to nothing, and the snapshot effects are refused.\<close>

definition execute :: "host \<Rightarrow> string effect \<Rightarrow> (string event option \<times> host, host_error) result" where
  "execute h e = (case e of
     Persist i _ \<Rightarrow> Ok (Some (EffectCompleted i Persisted), h)
   | Apply i entries \<Rightarrow>
       let through = (if entries = [] then 0 else entry_index (last entries))
       in Ok (Some (EffectCompleted i (AppliedThrough through)), h\<lparr>applied := applied h @ commands entries\<rparr>)
   | SendMessage _ _ \<Rightarrow> Ok (None, h)
   | ProposalResult _ _ \<Rightarrow> Ok (None, h)
   | ReadReady _ _ \<Rightarrow> Ok (None, h)
   | _ \<Rightarrow> Err (HostUnsupported e))"

text \<open>\<open>drive\<close>: the effects of one step are executed in order, their completions join the queue.\<close>

fun execute_all :: "host \<Rightarrow> string effect list \<Rightarrow> string event list \<Rightarrow> (string event list \<times> host, host_error) result" where
  "execute_all h [] pending = Ok (pending, h)"
| "execute_all h (e # es) pending = rbind (execute h e) (\<lambda>(completion, h').
     execute_all h' es (case completion of None \<Rightarrow> pending | Some event \<Rightarrow> pending @ [event]))"

partial_function (option) drive_pending ::
  "'h sha256 \<Rightarrow> (string, 'h) raft_core \<Rightarrow> string event list \<Rightarrow> host \<Rightarrow>
     ((string, 'h) raft_core \<times> host, host_error) result option" where
  "drive_pending sha core pending h = (case pending of
     [] \<Rightarrow> Some (Ok (core, h))
   | event # rest \<Rightarrow> (case step sha core event of
       (Err e, core') \<Rightarrow> Some (Err (HostStep e))
     | (Panic, core') \<Rightarrow> Some Panic
     | (Ok out, core') \<Rightarrow> (case execute_all h (out_effects out) rest of
         Err e \<Rightarrow> Some (Err e)
       | Panic \<Rightarrow> Some Panic
       | Ok (rest', h') \<Rightarrow> drive_pending sha core' rest' h')))"

definition host_drive :: "'h sha256 \<Rightarrow> (string, 'h) raft_core \<Rightarrow> string event \<Rightarrow> host \<Rightarrow>
    ((string, 'h) raft_core \<times> host, host_error) result option" where
  "host_drive sha core event h = drive_pending sha core [event] h"

text \<open>\<open>main\<close>, in two parts: the set-up with the election, and the proposal with the assertion,
  whose failure panics.\<close>

definition host_config :: "(raft_config, init_error) result" where
  "host_config = build (set_check_quorum_ticks 3 (set_election_ticks (3, 6) (set_heartbeat_ticks 1
     (set_cluster_id 1 (builder_new 1 [1])))))"

definition host_boot :: "'h sha256 \<Rightarrow> ((string, 'h) raft_core \<times> host, host_error) result option" where
  "host_boot sha = (case rbind (map_err HostInit host_config) (\<lambda>cfg.
       rbind (map_err HostRecovery (recovered_state_new (hard_state_new 0 None 0) None [])) (\<lambda>recovered.
       map_err HostInit (core_new cfg recovered))) of
     Ok core \<Rightarrow> host_drive sha core (Tick ElectionTick) \<lparr>applied = []\<rparr>
   | Err e \<Rightarrow> Some (Err e)
   | Panic \<Rightarrow> Some Panic)"

definition host_main :: "'h sha256 \<Rightarrow> (unit, host_error) result option" where
  "host_main sha = Option.bind (host_boot sha) (\<lambda>booted. case booted of
     Ok (core, h) \<Rightarrow> Option.bind
       (host_drive sha core (Propose 1 ''set answer=42'' (of_nat (length ''set answer=42''))) h) (\<lambda>driven.
       case driven of
         Ok (core, h) \<Rightarrow> Some (if applied h = [''set answer=42''] then Ok () else Panic)
       | Err e \<Rightarrow> Some (Err e)
       | Panic \<Rightarrow> Some Panic)
   | Err e \<Rightarrow> Some (Err e)
   | Panic \<Rightarrow> Some Panic)"

section \<open>The loop\<close>

lemma drive_pending_Nil [simp]: "drive_pending sha c [] h = Some (Ok (c, h))"
  by (simp add: drive_pending.simps)

lemma drive_pending_step:
  assumes "step sha c event = (Ok out, c')" "execute_all h (out_effects out) rest = Ok (rest', h')"
  shows "drive_pending sha c (event # rest) h = drive_pending sha c' rest' h'"
  using assms by (simp add: drive_pending.simps [of sha c "event # rest"])

lemma drive_proposal:
  assumes "quiet c" "len \<noteq> 0" "len \<le> cfg_max_bytes_per_rpc (config c)"
    and "unat (last_log_index c) + 2 < 2 ^ 64" "unat (next_effect_sequence c) + 3 < 2 ^ 64"
    and "unat (last_log_index c) + 1 - unat (snapshot_index c) < unat (cfg_snapshot_after_entries (config c))"
  obtains c' where "host_drive sha c (Propose pid cmd len) h = Some (Ok (c', h\<lparr>applied := applied h @ [cmd]\<rparr>))"
    "quiet c'" "config c' = config c" "snapshot_index c' = snapshot_index c"
    "unat (next_effect_sequence c') = unat (next_effect_sequence c) + 3" "unat (last_log_index c') = unat (last_log_index c) + 1"
proof -
  let ?n = "next_effect_sequence c" and ?g = "cfg_generation (config c)"
  have n: "?n \<noteq> - 1" "?n + 1 \<noteq> - 1" "?n + 1 + 1 \<noteq> - 1" "unat (?n + 1 + 1 + 1) = unat ?n + 3"
    using assms(5) by (auto simp: word_unat_eq_iff unat_add_u64 u64_minus_one)
  obtain e c1 where one: "step sha c (Propose pid cmd len) = (Ok \<lparr>out_effects =
      [Persist (EffectId ?g (?n + 1)) (batch_of_entries [e])], soft_state_changed = False\<rparr>, c1)"
    "proposed pid e c1" "payload e = Command cmd" "unat (entry_index e) = unat (last_log_index c) + 1"
    "pending_persist c1 = Some \<lparr>persist_id = EffectId ?g (?n + 1), stable_through = Some (entry_index e), continuation = ReplicateProposal\<rparr>"
    "config c1 = config c" "snapshot_index c1 = snapshot_index c" "next_effect_sequence c1 = ?n + 1"
    "completed_frontier c1 = ?n" "commit_index (hard_state c1) < last_log_index c1"
    using assms(1-4) n(1) by (rule quiet_propose)
  obtain b c2 where two: "step sha c1 (EffectCompleted (EffectId ?g (?n + 1)) Persisted) = (Ok \<lparr>out_effects =
      [Persist (EffectId ?g (?n + 1 + 1)) b], soft_state_changed = False\<rparr>, c2)"
    "proposed pid e c2" "commit_index (hard_state c2) = last_log_index c2"
    "pending_persist c2 = Some \<lparr>persist_id = EffectId ?g (?n + 1 + 1), stable_through = None, continuation = ApplyCommitted\<rparr>"
    "config c2 = config c" "snapshot_index c2 = snapshot_index c" "next_effect_sequence c2 = ?n + 1 + 1"
    "completed_frontier c2 = ?n + 1"
    using proposal_stable [OF one(2,10) _ one(5), of sha] one n by auto
  obtain c3 where three: "step sha c2 (EffectCompleted (EffectId ?g (?n + 1 + 1)) Persisted) = (Ok \<lparr>out_effects =
      [Apply (EffectId ?g (?n + 1 + 1 + 1)) [e]], soft_state_changed = False\<rparr>, c3)"
    "solo c3" "pending_persist c3 = None" "proposals c3 = [(entry_index e, [pid])]"
    "pending_apply c3 = Some \<lparr>apply_id = EffectId ?g (?n + 1 + 1 + 1), apply_through = entry_index e\<rparr>"
    "config c3 = config c" "snapshot_index c3 = snapshot_index c" "next_effect_sequence c3 = ?n + 1 + 1 + 1"
    "completed_frontier c3 = ?n + 1 + 1" "commit_index (hard_state c3) = entry_index e" "last_log_index c3 = entry_index e"
    using proposal_committed [OF two(2,3) _ two(4), of sha] two n by auto
  have short: "saturating_sub (entry_index e) (snapshot_index c3) < cfg_snapshot_after_entries (config c3)"
    using assms(6) one(4) three(6,7) by (simp add: u64_less_iff unat_saturating_sub)
  obtain c4 where four: "step sha c3 (EffectCompleted (EffectId ?g (?n + 1 + 1 + 1)) (AppliedThrough (entry_index e))) =
      (Ok \<lparr>out_effects = [ProposalResult pid (Applied (entry_index e))], soft_state_changed = False\<rparr>, c4)"
    "quiet c4" "config c4 = config c" "snapshot_index c4 = snapshot_index c" "next_effect_sequence c4 = ?n + 1 + 1 + 1"
    "last_log_index c4 = entry_index e"
    using proposal_applied [OF three(2-5) _ _ _ three(10,11) short, of sha] three n by auto
  have "drive_pending sha c [Propose pid cmd len] h = drive_pending sha c1 [EffectCompleted (EffectId ?g (?n + 1)) Persisted] h"
    by (rule drive_pending_step [OF one(1)]) (simp add: execute_def)
  also have "\<dots> = drive_pending sha c2 [EffectCompleted (EffectId ?g (?n + 1 + 1)) Persisted] h"
    by (rule drive_pending_step [OF two(1)]) (simp add: execute_def)
  also have "\<dots> = drive_pending sha c3 [EffectCompleted (EffectId ?g (?n + 1 + 1 + 1)) (AppliedThrough (entry_index e))]
      (h\<lparr>applied := applied h @ [cmd]\<rparr>)"
    by (rule drive_pending_step [OF three(1)]) (simp add: execute_def commands_def one(3))
  also have "\<dots> = drive_pending sha c4 [] (h\<lparr>applied := applied h @ [cmd]\<rparr>)"
    by (rule drive_pending_step [OF four(1)]) (simp add: execute_def)
  finally have "host_drive sha c (Propose pid cmd len) h = Some (Ok (c4, h\<lparr>applied := applied h @ [cmd]\<rparr>))" by (simp add: host_drive_def)
  then show ?thesis by (rule that) (use four n(4) one(4) in auto)
qed

text \<open>A client of the host submits its commands one after the other.\<close>

fun submit_all :: "'h sha256 \<Rightarrow> (string, 'h) raft_core \<Rightarrow> (proposal_id \<times> string \<times> usize) list \<Rightarrow> host \<Rightarrow>
    ((string, 'h) raft_core \<times> host, host_error) result option" where
  "submit_all sha c [] h = Some (Ok (c, h))"
| "submit_all sha c ((pid, cmd, len) # ps) h = Option.bind (host_drive sha c (Propose pid cmd len) h) (\<lambda>r.
     case r of Ok (c', h') \<Rightarrow> submit_all sha c' ps h' | Err e \<Rightarrow> Some (Err e) | Panic \<Rightarrow> Some Panic)"

lemma submit_all_applies:
  assumes "quiet c" "\<forall>(pid, cmd, len) \<in> set ps. len \<noteq> 0 \<and> len \<le> cfg_max_bytes_per_rpc (config c)"
    and "unat (last_log_index c) + length ps + 1 < 2 ^ 64" "unat (next_effect_sequence c) + 3 * length ps < 2 ^ 64"
    and "unat (last_log_index c) + length ps - unat (snapshot_index c) < unat (cfg_snapshot_after_entries (config c))"
  shows "\<exists>c'. submit_all sha c ps h = Some (Ok (c', h\<lparr>applied := applied h @ map (\<lambda>(pid, cmd, len). cmd) ps\<rparr>)) \<and> quiet c'"
  using assms
proof (induction ps arbitrary: c h)
  case (Cons p ps)
  obtain pid cmd len where p: "p = (pid, cmd, len)" by (cases p)
  have short: "unat (last_log_index c) + 1 - unat (snapshot_index c) < unat (cfg_snapshot_after_entries (config c))"
    using Cons.prems(5) by simp
  have "len \<noteq> 0" "len \<le> cfg_max_bytes_per_rpc (config c)" using Cons.prems(2) by (simp_all add: p)
  then obtain c' where c': "host_drive sha c (Propose pid cmd len) h = Some (Ok (c', h\<lparr>applied := applied h @ [cmd]\<rparr>))"
    "quiet c'" "config c' = config c" "snapshot_index c' = snapshot_index c"
    "unat (next_effect_sequence c') = unat (next_effect_sequence c) + 3" "unat (last_log_index c') = unat (last_log_index c) + 1"
    using drive_proposal [OF Cons.prems(1) _ _ _ _ short, of len sha pid cmd h] Cons.prems(3,4) by auto
  have "\<exists>d. submit_all sha c' ps (h\<lparr>applied := applied h @ [cmd]\<rparr>) = Some (Ok (d, (h\<lparr>applied := applied h @ [cmd]\<rparr>)
      \<lparr>applied := applied (h\<lparr>applied := applied h @ [cmd]\<rparr>) @ map (\<lambda>(pid, cmd, len). cmd) ps\<rparr>)) \<and> quiet d"
    by (rule Cons.IH) (use c' Cons.prems in auto)
  then show ?case by (auto simp: p c'(1))
qed simp

section \<open>The program\<close>

text \<open>What the builder makes of the example's settings, and the leader the first tick makes of
  the empty state.\<close>

definition host_start :: raft_config where
  "host_start = \<lparr>cfg_cluster_id = 1, cfg_local_id = 1, cfg_members = [1], cfg_quorum = 1, cfg_heartbeat_ticks = 1,
     cfg_election_ticks = (3, 6), cfg_check_quorum_ticks = 3, cfg_random_seed = 0, cfg_generation = 0,
     cfg_max_unstable_bytes = 4194304, cfg_max_unapplied_entries = 16384, cfg_snapshot_after_entries = 10000,
     cfg_snapshot_after_bytes = 67108864, cfg_max_uncompacted_bytes = 268435456, cfg_max_entries_per_rpc = 256,
     cfg_max_bytes_per_rpc = 1048576, cfg_max_inflight_appends = 256, cfg_max_pending_reads = 4096,
     cfg_snapshot_chunk_bytes = 65536, cfg_max_snapshot_ref_bytes = 4096, cfg_max_members = 1024,
     cfg_completion_history = 8192\<rparr>"

lemma host_config_Ok: "host_config = Ok host_start"
  by (simp add: host_config_def host_start_def build_def builder_setters builder_new_def capacity_limits_def
      ensure_at_least_def u64_le_iff)

definition host_leader :: "(string, 'h) raft_core" where
  "host_leader = \<lparr>config = host_start, hard_state = hard_state_new 1 (Some 1) 1, role = Leader,
     pre_votes = None, votes = None,
     rlog = \<lparr>log_snapshot = None, log_entries = [\<lparr>entry_index = 1, entry_term = 1, encoded_len = 0, payload = LeaderNoop\<rparr>],
       log_committed = 1, log_unstable = unstable_default\<rparr>,
     last_log_index = 1, last_log_term = 1, active_members = {1}, progress = [], pending_persist = None,
     pending_apply = None, applied_index = 1, proposals = [], leader_noop_index = Some 1, pending_reads = [],
     read_round = None, next_read_context = 0, local_snapshot = Idle, incoming_snapshot = None,
     pending_chunk_store = None, incoming_snapshot_state = None, snapshot_senders = [], pending_snapshot_reads = [],
     snapshot_index = 0, next_effect_sequence = 4, stopped = False, stopped_reason = None, completed_frontier = 4,
     completed_sparse = [], completed_outcomes = [(EffectId 0 1, Persisted), (EffectId 0 2, Persisted),
       (EffectId 0 3, Persisted), (EffectId 0 4, AppliedThrough 1)],
     completion_order = [EffectId 0 1, EffectId 0 2, EffectId 0 3, EffectId 0 4]\<rparr>"

lemma host_boot_elects: "host_boot sha = Some (Ok (host_leader, \<lparr>applied = []\<rparr>))"
proof -
  define c0 :: "(string, 'a) raft_core" where "c0 = host_leader\<lparr>hard_state := hard_state_new 0 None 0, role := Follower,
     rlog := \<lparr>log_snapshot = None, log_entries = [], log_committed = 0, log_unstable = unstable_default\<rparr>,
     last_log_index := 0, last_log_term := 0, active_members := {}, applied_index := 0, leader_noop_index := None,
     next_effect_sequence := 0, completed_frontier := 0, completed_outcomes := [], completion_order := []\<rparr>"
  have "host_boot sha = host_drive sha c0 (Tick ElectionTick) \<lparr>applied = []\<rparr>"
    by (simp add: host_boot_def host_config_Ok recovered_state_new_def from_parts_def boundary_index_def boundary_term_def
        core_new_def from_recovered_def c0_def host_leader_def checked_next_def checked_add_def Let_def)
  also have "\<dots> = Some (Ok (host_leader, \<lparr>applied = []\<rparr>))"
    by (simp add: host_drive_def c0_def host_leader_def drive_pending.simps host_start_def execute_def commands_def
        unstable_default_def run_eval)
  finally show ?thesis .
qed

lemma host_leader_quiet: "quiet host_leader"
proof -
  have "log_wf (rlog host_leader)"
    by (simp add: host_leader_def log_wf_def boundary_index_def boundary_term_def contiguous_Cons terms_Cons)
  then show ?thesis
    by (simp add: quiet_def solo_def core_inv_def core_valid_def log_inv_def tidy_def host_leader_def host_start_def
        last_index_def log_end_def term_of_def boundary_index_def bt_keys_def)
qed

text \<open>C13: the example host comes up and then carries through whatever its client submits. From
  the empty recovered state the first election tick makes the node leader, and for every list of
  fewer than 9999 proposals with encoded lengths from 1 to the transfer limit, each call of the
  loop returns, without an error or a panic, and the state machine has received exactly the
  submitted commands, each once and in the order of submission. The loop has no bound in the
  source; that it ends is part of the statement. Beyond that many entries the core asks for a
  snapshot, which this host refuses.\<close>

theorem host_applies_proposals:
  assumes "\<forall>(pid, cmd, len) \<in> set ps. len \<noteq> 0 \<and> len \<le> 1048576" "length ps < 9999"
  shows "\<exists>c h c'. host_boot sha = Some (Ok (c, h)) \<and>
    submit_all sha c ps h = Some (Ok (c', \<lparr>applied = map (\<lambda>(pid, cmd, len). cmd) ps\<rparr>))"
proof -
  have "\<exists>c'. submit_all sha host_leader ps \<lparr>applied = []\<rparr> = Some (Ok (c', \<lparr>applied = []\<rparr>
      \<lparr>applied := applied \<lparr>applied = []\<rparr> @ map (\<lambda>(pid, cmd, len). cmd) ps\<rparr>)) \<and> quiet c'"
    by (rule submit_all_applies [OF host_leader_quiet]) (use assms in \<open>auto simp: host_leader_def host_start_def\<close>)
  then show ?thesis by (auto simp: host_boot_elects)
qed

theorem host_applies_proposals_witness:
  "\<exists>c h c'. host_boot plain_sha = Some (Ok (c, h)) \<and>
    submit_all plain_sha c [(1, ''set a'', 5), (2, ''set b'', 5)] h = Some (Ok (c', \<lparr>applied = [''set a'', ''set b'']\<rparr>))"
  using host_applies_proposals [of "[(1, ''set a'', 5), (2, ''set b'', 5)]" plain_sha] by simp

text \<open>The program as it is shipped: its assertion holds.\<close>

lemma host_main_succeeds: "host_main sha = Some (Ok ())"
proof -
  have "\<exists>c'. submit_all sha host_leader [(1, ''set answer=42'', 13)] \<lparr>applied = []\<rparr> =
      Some (Ok (c', \<lparr>applied = [''set answer=42'']\<rparr>))"
    using submit_all_applies [OF host_leader_quiet, of "[(1, ''set answer=42'', 13)]" sha "\<lparr>applied = []\<rparr>"]
    by (auto simp: host_leader_def host_start_def)
  then show ?thesis
    by (auto simp: host_main_def host_boot_elects split: Option.bind_splits result.splits)
qed

end
