(* ===== verification/Spec2Isabelle.thy ===== *)
theory Spec2Isabelle
  imports Core_Proposals Core_ReadIndex Core_Batches Snapshot_Transfer Cluster_Logs Display Host
begin

text \<open>
  Verification of \<open>ruft\<close>, a deterministic, runtime-agnostic Raft core in Rust.

  \<^bold>\<open>The program.\<close> The host drives \<open>RaftCore::step\<close> (\<open>src/core.rs\<close>) with events (ticks,
  peer messages, client proposals and reads, completions of effects) and carries out
  the effects each step returns: sending messages, persisting hard state, entries and
  snapshots, applying committed entries, building, storing, reading and installing
  snapshots. The core keeps the hard state, an in-memory log, follower progress,
  vote tallies, one read round, three snapshot pipelines and the history of completed
  effects. A step that writes durable state queues a \<open>Persist\<close> effect and goes on only
  when its completion arrives (the persistence barrier).

  \<^bold>\<open>The theories and the code they model.\<close>
  \<^item> \<open>Ruft_Prelude\<close>: machine integers, results with panics, the state-and-error monad
    of the handlers with its rules (\<open>post\<close>, \<open>keeps\<close>, \<open>throws\<close>) and the locale
    \<open>state_relation\<close>: a reflexive and transitive relation kept by the parts of a method
    is kept by the method.
  \<^item> \<open>Ordered_Map\<close>: \<open>BTreeMap\<close> as a key-ordered association list; the locale
    \<open>ordered_map\<close> is its interface, interpreted on the list.
  \<^item> \<open>Types\<close> (\<open>types.rs\<close>, \<open>error.rs\<close>, \<open>recovery_error.rs\<close>), \<open>Config\<close> (\<open>config.rs\<close>),
    \<open>Durable_State\<close> (\<open>state.rs\<close>, \<open>log/entry.rs\<close>), \<open>Messages\<close> (\<open>protocol/mod.rs\<close>, \<open>effect.rs\<close>,
    \<open>event.rs\<close>). \<open>Display\<close>: the texts of the errors (the \<open>Display\<close> implementations of
    \<open>types.rs\<close>, \<open>error.rs\<close> and \<open>recovery_error.rs\<close>).
  \<^item> \<open>Raft_Log\<close> (\<open>log/mod.rs\<close>, \<open>log/unstable.rs\<close>) has the operations of the log, and
    \<open>Log_Refinement\<close> relates them to the log as a partial function from indexes to
    entries.
  \<^item> \<open>Progress\<close> (\<open>progress/\<close>): replication windows, follower progress, vote tracking.
    The locale \<open>majority_quorum\<close> has the intersection argument.
  \<^item> \<open>Protocol_Helpers\<close> (\<open>raft/\<close>): vote comparison, commit rule, prefix check and retry
    point, read rounds, snapshot receiver and sender. SHA-256 is a parameter.
  \<^item> \<open>Core_State\<close>, \<open>Core_Replication\<close>, \<open>Core_Reads\<close>, \<open>Core_Election\<close>, \<open>Core_Append\<close>,
    \<open>Core_Snapshots\<close>, \<open>Core_Step\<close> (\<open>core.rs\<close>, \<open>invariant.rs\<close>): the struct \<open>RaftCore\<close> as a
    record, one definition per method. A method with \<open>&mut self\<close> is a function on the
    core and the effects emitted so far; \<open>?\<close> is \<open>bnd\<close>, an error keeps the mutations made
    before it, \<open>expect\<close> and arithmetic underflow are the outcome \<open>Panic\<close>.
  \<^item> \<open>Core_Spec\<close>: an abstract machine for the role, tallies, hard state, log, acknowledgements,
    apply point, reads, effect counter, completion history and stop flag of the core. Its
    moves are guarded by the rules of Raft and by the event of the step. With the
    refinement of \<open>step\<close>; what messages say is left to \<open>Core_Votes\<close> and the cluster. \<open>Core_Errors\<close>: which errors a method returns.
    \<open>Core_Samples\<close>: concrete cores. \<open>Core_Safety\<close> and \<open>Core_Completions\<close>: the properties
    of steps and runs.
  \<^item> \<open>Core_Footprint\<close>: what each handler may touch of the votes, proposals and reads. The
    locales \<open>core_frame\<close> and \<open>core_footprint\<close> (which extends it) state the contract of the
    primitive updates against a relation on cores and a predicate on emitted effects,
    and prove once for every handler that it stays within them. \<open>Core_Votes\<close>,
    \<open>Core_Proposals\<close> and \<open>Core_ReadIndex\<close> interpret them.
  \<^item> \<open>Core_Batches\<close> (the batches of the leader), \<open>Snapshot_Transfer\<close> (sender and receiver
    together) and \<open>Core_Scenarios\<close> (runs in which the code does something its comments
    or its purpose rule out).
  \<^item> \<open>Core_Leadership\<close>: the locale \<open>tenure\<close> has the few methods in which a core stands for,
    wins, uses or leaves office as its laws, and shows of every other method and of a
    whole step that it keeps what they keep. Interpreted for what a candidate and a
    leader have behind them, in \<open>Core_Logs\<close> for the log as a set of links
    (\<open>Log_Links\<close>: an entry with the term before it, which is what AppendEntries proves)
    and in \<open>Core_Office\<close> for a log that only grows within a term.
  \<^item> \<open>Cluster\<close>: several cores and an unreliable network as a step relation, each node the
    \<open>RaftCore\<close> above, and the votes across them. \<open>Cluster_Logs\<close>: the logs across them.
  \<^item> \<open>Core_Solo\<close> (a proposal on a one-member cluster, step by step) and \<open>Host\<close>
    (\<open>examples/minimal_host.rs\<close>: the in-memory host, its event loop, its main program).

  \<^bold>\<open>What is shown.\<close>
  \<^item> Steps refine the abstract machine, whatever the event and on errors and panics
    too, so that each write follows a rule of Raft that the event allows; terms only grow, votes stay within their term, committed entries stay, the
    structural invariant holds in every reachable core and its run-time check is exact.
    The installation of a leader's snapshot is the exception the code makes: it resets
    the vote of the term.
  \<^item> Completions of effects are accepted once, their history is a set and bounded,
    identifiers are fresh, rejected input changes nothing, a failed effect stops the
    core for good.
  \<^item> A node grants one vote per term, every proposal is answered once, a read is released
    only at an applied index and out of a round that a quorum has confirmed at a commit
    index no older than the confirming step, and the reads of
    a group of one node do not wait for ever.
  \<^item> Across nodes, at most one leads in a term, whatever the network does with the
    messages, logs that start empty match below every entry they share, and a leader
    only adds to its log. The runs are those without a completed snapshot installation
    and without a restart, and the nodes concerned have effect identifiers left. That a
    leader has every committed entry is not stated: a follower acknowledges, and commits
    up to, the end of its own log instead of the end of the batch, so this would rest on
    the retry point never falling below the first divergent entry, which
    \<open>Protocol_Helpers\<close> shows of one retry only.
  \<^item> The example host comes up and the proposals to it are carried through, fewer than
    9999 of them and of encoded lengths from 1 to 1048576: its loop returns and the
    commands are applied in the order of submission.
  \<^item> The log's operations against its view: merging keeps what the log has of the batch,
    continues with exactly the rest and refuses to overwrite committed entries, appends
    extend, compaction and installation keep the right suffix, ranges are exact. The
    installation of a boundary that conflicts below the commit point empties the log and
    breaks its invariant.
  \<^item> The commit decision equals the quorum rule, the retry point skips only positions
    that cannot match, quorums intersect, recovery and the
    configuration builder accept exactly the valid inputs. A replication batch is the
    longest run of entries within the limits, and a snapshot survives its transfer.
    The text of an error identifies it.
  \<^item> The runs of \<open>Core_Scenarios\<close> show where the code departs from its purpose: a vote
    answered before it is durable, a vote dropped by a snapshot installation, a durable
    term lowered by the batch of a snapshot, completions of outstanding effects refused, a
    second no-op of one leader, an applied index set back, a read confirmed by earlier
    acknowledgements or left waiting in a round of an earlier term, appends exchanged
    without end, a snapshot sent in a term the node does not lead, and a panic in the
    sender.

  \<^bold>\<open>Bounds.\<close> Nothing runs on fuel. The loops of the core are structural recursions or
  recursions with a measure (\<open>advance_frontier\<close> on the sparse set, \<open>start_read_round\<close>
  and \<open>start_pending_reads\<close> on the queue). The loop of the example host has no bound in
  the source and is a \<open>partial_function\<close> into \<open>option\<close>, with the theorem that it returns.
  Terms, indexes, sequence numbers and sizes are 64-bit words, with the checked and
  saturating operations the source uses; \<open>usize\<close> is taken to have 64 bits.

  \<^bold>\<open>Not modelled.\<close> The serde derives, module declarations and re-exports, and the lines
  the example host prints. The \<open>Error\<close> implementations are empty. Accessors are the
  selectors of the records.
\<close>

end
